(* ===== verification/Prelude.thy ===== *)
theory Prelude
  imports Main "HOL-Library.Word" "HOL-Library.Multiset"
begin

text \<open>
  Shared vocabulary of the goSpark development: the Go machine integers as words, Go errors
  and panics as values, association lists for Go maps whose contents are enumerated, and the
  generic list, map and word lemmas that the component theories use.
\<close>

named_theorems emits_intro \<open>what an iterator emits, one rule per combinator\<close>
named_theorems sched_inv \<open>preservation of the scheduler invariants, one rule per step\<close>

type_synonym byte = "8 word"
type_synonym uint32 = "32 word"
type_synonym uint64 = "64 word"
type_synonym int64 = "64 word"

section \<open>Go errors\<close>

text \<open>
  An error value carries the text of its \<^verbatim>\<open>fmt.Errorf\<close> format without the formatted
  arguments. A fallible operation returns \<open>Inl\<close> of the error or \<open>Inr\<close> of its result.
\<close>

datatype goerr = EOF | Err string

type_synonym 'a res = "goerr + 'a"

fun bindR :: "'e + 'a \<Rightarrow> ('a \<Rightarrow> 'e + 'b) \<Rightarrow> 'e + 'b" where
  "bindR (Inl e) f = Inl e"
| "bindR (Inr x) f = f x"

lemma bindR_Inr_conv: "bindR m f = Inr y \<longleftrightarrow> (\<exists>x. m = Inr x \<and> f x = Inr y)"
  by (cases m) auto

lemma bindR_Inl_conv: "bindR m f = Inl e \<longleftrightarrow> m = Inl e \<or> (\<exists>x. m = Inr x \<and> f x = Inl e)"
  by (cases m) auto

lemma unat_word32: "n < 2 ^ 32 \<Longrightarrow> unat (word_of_nat n :: uint32) = n"
  by (simp add: unat_of_nat)

section \<open>Lists\<close>

lemma concat_slices:
  fixes b :: "nat \<Rightarrow> nat"
  assumes "\<And>i. i < n \<Longrightarrow> b i \<le> b (Suc i)" and "b n \<le> length xs"
  shows "concat (map (\<lambda>i. take (b (Suc i) - b i) (drop (b i) xs)) [0..<n])
           = take (b n - b 0) (drop (b 0) xs)"
  using assms
proof (induction n)
  case (Suc n)
  have mono: "b 0 \<le> b n"
  proof -
    have "k \<le> n \<Longrightarrow> b 0 \<le> b k" for k
      by (induction k) (use Suc.prems(1) in \<open>auto intro: order_trans\<close>)
    then show ?thesis by simp
  qed
  have step: "b n \<le> b (Suc n)" using Suc.prems(1) by simp
  have "take (b n - b 0) (drop (b 0) xs) @ take (b (Suc n) - b n) (drop (b n) xs)
          = take ((b n - b 0) + (b (Suc n) - b n)) (drop (b 0) xs)"
    using take_add [of "b n - b 0" "b (Suc n) - b n" "drop (b 0) xs"] mono by simp
  moreover have "(b n - b 0) + (b (Suc n) - b n) = b (Suc n) - b 0"
    using mono step by simp
  ultimately show ?case
    using Suc.IH Suc.prems step by simp
qed simp

lemma distinct_map_fst_unique:
  "distinct (map fst xs) \<Longrightarrow> (k, v) \<in> set xs \<Longrightarrow> (k, w) \<in> set xs \<Longrightarrow> v = w"
  by (induction xs) (auto simp: rev_image_eqI)

lemma sum_list_map_update:
  assumes "distinct (map fst xs)" and "(k, v) \<in> set xs"
  shows "sum_list (map (\<lambda>(k', v'). if k' = k then v' + n else v') xs)
           = sum_list (map snd xs) + (n :: 'a :: comm_monoid_add)"
  using assms
proof (induction xs)
  case (Cons x xs)
  obtain a b where x: "x = (a, b)" by (cases x)
  show ?case
  proof (cases "a = k")
    case True
    then have "\<forall>p \<in> set xs. fst p \<noteq> k" using Cons.prems(1) x by auto
    then have "map (\<lambda>(k', v'). if k' = k then v' + n else v') xs = map snd xs"
      by (intro map_cong) auto
    then have "sum_list (map (\<lambda>(k', v'). if k' = k then v' + n else v') xs)
        = sum_list (map snd xs)" by (rule arg_cong)
    with x True show ?thesis by (simp add: ac_simps)
  next
    case False
    with Cons x show ?thesis by (auto simp: ac_simps)
  qed
qed simp

lemma sum_list_list_update:
  fixes xs :: "'a :: ab_group_add list"
  shows "k < length xs \<Longrightarrow> sum_list (xs[k := x]) = sum_list xs + x - xs ! k"
  by (induction xs arbitrary: k) (auto simp: nth_Cons split: nat.splits)

lemma map_list_update_same: "f y = f (xs ! k) \<Longrightarrow> map f (xs[k := y]) = map f xs"
  by (metis list_update_id map_update)

end
