(* ===== verification/Iterators.thy ===== *)
theory Iterators
  imports Prelude
begin

text \<open>
  The pull iterators of \<^verbatim>\<open>iterator.go\<close>. A Go iterator is a closure \<^verbatim>\<open>func() (T, bool)\<close>;
  here it is the (possibly infinite) tree of what its calls do: \<open>Yield v it\<close> returns
  \<^verbatim>\<open>(v, true)\<close> and behaves like \<open>it\<close> from then on, \<open>Stop\<close> returns false now and for ever,
  \<open>Panic e\<close> unwinds with an execution error, \<open>Hang\<close> never returns. The variables a closure
  captures are the arguments of the corecursive definitions. The consuming loops are partial
  functions, so a loop over an infinite iterator has the value \<open>None\<close>. The second half relates
  every combinator to the list function it stands for.
\<close>

codatatype 'a Iterator = Yield 'a "'a Iterator" | Stop | Panic goerr | Hang

section \<open>The combinators\<close>

text \<open>What a combinator does when its input yields nothing more.\<close>

fun finish :: "'a Iterator \<Rightarrow> 'b Iterator" where
  "finish (Panic e) = Panic e"
| "finish Hang = Hang"
| "finish _ = Stop"

definition EmptyIterator :: "'a Iterator" where
  "EmptyIterator = Stop"

primcorec SliceIterator_at :: "'a list \<Rightarrow> nat \<Rightarrow> 'a Iterator" where
  "SliceIterator_at s i =
     (if i \<ge> length s then Stop else Yield (s ! i) (SliceIterator_at s (Suc i)))"

definition SliceIterator :: "'a list \<Rightarrow> 'a Iterator" where
  "SliceIterator s = SliceIterator_at s 0"

primcorec MapIterator :: "'a Iterator \<Rightarrow> ('a \<Rightarrow> 'b) \<Rightarrow> 'b Iterator" where
  "MapIterator iter fn =
     (case iter of
        Yield v it \<Rightarrow> Yield (fn v) (MapIterator it fn)
      | Stop \<Rightarrow> Stop
      | Panic e \<Rightarrow> Panic e
      | Hang \<Rightarrow> Hang)"

text \<open>The refill loop of \<^verbatim>\<open>FlatMapIterator\<close>: runs while the buffer is empty.\<close>

partial_function (option) flatmap_fill ::
  "('a \<Rightarrow> 'b list) \<Rightarrow> 'b list \<Rightarrow> 'a Iterator \<Rightarrow> ('b list \<times> 'a Iterator) option" where
  "flatmap_fill fn buf iter =
     (if buf \<noteq> [] then Some (buf, iter)
      else case iter of
        Yield v it \<Rightarrow> flatmap_fill fn (fn v) it
      | Stop \<Rightarrow> Some ([], Stop)
      | Panic e \<Rightarrow> Some ([], Panic e)
      | Hang \<Rightarrow> None)"

primcorec FlatMapIterator_buf :: "('a \<Rightarrow> 'b list) \<Rightarrow> 'b list \<Rightarrow> 'a Iterator \<Rightarrow> 'b Iterator" where
  "FlatMapIterator_buf fn buf iter =
     (case flatmap_fill fn buf iter of
        None \<Rightarrow> Hang
      | Some (buf', it) \<Rightarrow>
          (case buf' of
             u # us \<Rightarrow> Yield u (FlatMapIterator_buf fn us it)
           | [] \<Rightarrow> (case it of Panic e \<Rightarrow> Panic e | _ \<Rightarrow> Stop)))"

definition FlatMapIterator :: "'a Iterator \<Rightarrow> ('a \<Rightarrow> 'b list) \<Rightarrow> 'b Iterator" where
  "FlatMapIterator iter fn = FlatMapIterator_buf fn [] iter"

text \<open>The search loop of \<^verbatim>\<open>FilterIterator\<close>.\<close>

partial_function (option) filter_seek ::
  "('a \<Rightarrow> bool) \<Rightarrow> 'a Iterator \<Rightarrow> 'a Iterator option" where
  "filter_seek fn iter =
     (case iter of
        Yield v it \<Rightarrow> if fn v then Some (Yield v it) else filter_seek fn it
      | Stop \<Rightarrow> Some Stop
      | Panic e \<Rightarrow> Some (Panic e)
      | Hang \<Rightarrow> None)"

primcorec FilterIterator :: "'a Iterator \<Rightarrow> ('a \<Rightarrow> bool) \<Rightarrow> 'a Iterator" where
  "FilterIterator iter fn =
     (case filter_seek fn iter of
        None \<Rightarrow> Hang
      | Some it \<Rightarrow>
          (case it of
             Yield v it' \<Rightarrow> Yield v (FilterIterator it' fn)
           | Stop \<Rightarrow> Stop
           | Panic e \<Rightarrow> Panic e
           | Hang \<Rightarrow> Hang))"

text \<open>\<^verbatim>\<open>expandIterator\<close>: the captured \<open>current\<close> is nil before the first call.\<close>

partial_function (option) expand_seek ::
  "('a \<Rightarrow> 'b Iterator) \<Rightarrow> 'b Iterator option \<Rightarrow> 'a Iterator
     \<Rightarrow> ('b Iterator \<times> 'a Iterator) option" where
  "expand_seek fn current input =
     (case current of
        Some (Yield v it) \<Rightarrow> Some (Yield v it, input)
      | Some (Panic e) \<Rightarrow> Some (Panic e, input)
      | Some Hang \<Rightarrow> None
      | _ \<Rightarrow>
          (case input of
             Yield v it \<Rightarrow> expand_seek fn (Some (fn v)) it
           | Stop \<Rightarrow> Some (Stop, Stop)
           | Panic e \<Rightarrow> Some (Panic e, Panic e)
           | Hang \<Rightarrow> None))"

primcorec expandIterator_cur ::
  "('a \<Rightarrow> 'b Iterator) \<Rightarrow> 'b Iterator option \<Rightarrow> 'a Iterator \<Rightarrow> 'b Iterator" where
  "expandIterator_cur fn current input =
     (case expand_seek fn current input of
        None \<Rightarrow> Hang
      | Some (cur, inp) \<Rightarrow>
          (case cur of
             Yield v it \<Rightarrow> Yield v (expandIterator_cur fn (Some it) inp)
           | Stop \<Rightarrow> Stop
           | Panic e \<Rightarrow> Panic e
           | Hang \<Rightarrow> Hang))"

definition expandIterator :: "'a Iterator \<Rightarrow> ('a \<Rightarrow> 'b Iterator) \<Rightarrow> 'b Iterator" where
  "expandIterator input fn = expandIterator_cur fn None input"

text \<open>\<^verbatim>\<open>ChainIterators\<close>: the iterators from the captured index on.\<close>

fun chain_seek :: "'a Iterator list \<Rightarrow> 'a Iterator \<times> 'a Iterator list" where
  "chain_seek [] = (Stop, [])"
| "chain_seek (it # its) = (if it = Stop then chain_seek its else (it, its))"

primcorec ChainIterators :: "'a Iterator list \<Rightarrow> 'a Iterator" where
  "ChainIterators iters =
     (case fst (chain_seek iters) of
        Yield v it \<Rightarrow> Yield v (ChainIterators (it # snd (chain_seek iters)))
      | Stop \<Rightarrow> Stop
      | Panic e \<Rightarrow> Panic e
      | Hang \<Rightarrow> Hang)"

section \<open>The consuming loops\<close>

partial_function (option) collect_loop ::
  "'a list \<Rightarrow> 'a Iterator \<Rightarrow> 'a list res option" where
  "collect_loop result iter =
     (case iter of
        Yield v it \<Rightarrow> collect_loop (result @ [v]) it
      | Stop \<Rightarrow> Some (Inr result)
      | Panic e \<Rightarrow> Some (Inl e)
      | Hang \<Rightarrow> None)"

definition CollectIterator :: "'a Iterator \<Rightarrow> 'a list res option" where
  "CollectIterator iter = collect_loop [] iter"

partial_function (option) count_loop :: "int64 \<Rightarrow> 'a Iterator \<Rightarrow> int64 res option" where
  "count_loop cnt iter =
     (case iter of
        Yield v it \<Rightarrow> count_loop (cnt + 1) it
      | Stop \<Rightarrow> Some (Inr cnt)
      | Panic e \<Rightarrow> Some (Inl e)
      | Hang \<Rightarrow> None)"

definition CountIterator :: "'a Iterator \<Rightarrow> int64 res option" where
  "CountIterator iter = count_loop 0 iter"

text \<open>The accumulating loop shared by \<^verbatim>\<open>ReduceIterator\<close>, \<^verbatim>\<open>Fold\<close> and \<^verbatim>\<open>TreeAggregate\<close>.\<close>

partial_function (option) fold_loop ::
  "('b \<Rightarrow> 'a \<Rightarrow> 'b) \<Rightarrow> 'b \<Rightarrow> 'a Iterator \<Rightarrow> 'b res option" where
  "fold_loop fn acc iter =
     (case iter of
        Yield v it \<Rightarrow> fold_loop fn (fn acc v) it
      | Stop \<Rightarrow> Some (Inr acc)
      | Panic e \<Rightarrow> Some (Inl e)
      | Hang \<Rightarrow> None)"

text \<open>\<open>None\<close> inside the result is the \<^verbatim>\<open>(zero, false)\<close> of an empty input.\<close>

definition ReduceIterator :: "'a Iterator \<Rightarrow> ('a \<Rightarrow> 'a \<Rightarrow> 'a) \<Rightarrow> 'a option res option" where
  "ReduceIterator iter fn =
     (case iter of
        Yield first it \<Rightarrow> map_option (map_sum id Some) (fold_loop fn first it)
      | Stop \<Rightarrow> Some (Inr None)
      | Panic e \<Rightarrow> Some (Inl e)
      | Hang \<Rightarrow> None)"

text \<open>\<^verbatim>\<open>ForeachIterator\<close> runs the callback for its effect on a caller's state.\<close>

definition ForeachIterator :: "'a Iterator \<Rightarrow> ('a \<Rightarrow> 's \<Rightarrow> 's) \<Rightarrow> 's \<Rightarrow> 's res option" where
  "ForeachIterator iter fn s = fold_loop (\<lambda>st v. fn v st) s iter"

fun take_loop :: "'a list \<Rightarrow> 'a Iterator \<Rightarrow> nat \<Rightarrow> 'a list res option" where
  "take_loop result iter 0 = Some (Inr result)"
| "take_loop result iter (Suc n) =
     (case iter of
        Yield v it \<Rightarrow> take_loop (result @ [v]) it n
      | Stop \<Rightarrow> Some (Inr result)
      | Panic e \<Rightarrow> Some (Inl e)
      | Hang \<Rightarrow> None)"

text \<open>A negative \<open>n\<close> runs the counting loop no time.\<close>

definition TakeIterator :: "'a Iterator \<Rightarrow> int \<Rightarrow> 'a list res option" where
  "TakeIterator iter n = take_loop [] iter (nat n)"

section \<open>What an iterator emits\<close>

text \<open>
  \<open>emits it xs r\<close>: the calls of \<open>it\<close> return the values \<open>xs\<close> in this order and then the
  iterator ends, with false (\<open>r = None\<close>) or with the panic \<open>r = Some e\<close>.
\<close>

inductive emits :: "'a Iterator \<Rightarrow> 'a list \<Rightarrow> goerr option \<Rightarrow> bool" where
  emits_Stop: "emits Stop [] None"
| emits_Panic: "emits (Panic e) [] (Some e)"
| emits_Yield: "emits it xs r \<Longrightarrow> emits (Yield x it) (x # xs) r"

lemma emits_unique:
  "emits it xs r \<Longrightarrow> emits it ys q \<Longrightarrow> ys = xs \<and> q = r"
  by (induction arbitrary: ys q rule: emits.induct) (blast elim: emits.cases)+

inductive_simps emits_Stop_iff [simp]: "emits Stop xs r"
inductive_simps emits_Panic_iff [simp]: "emits (Panic e) xs r"
inductive_simps emits_Yield_iff [simp]: "emits (Yield x it) xs r"
inductive_simps emits_Hang_iff [simp]: "emits Hang xs r"

lemma emits_SliceIterator_at:
  "emits (SliceIterator_at s i) (drop i s) None"
proof (induction "length s - i" arbitrary: i)
  case 0
  then show ?case by (subst SliceIterator_at.code) simp
next
  case (Suc n)
  then have i: "i < length s" by simp
  then have "emits (SliceIterator_at s (Suc i)) (drop (Suc i) s) None"
    using Suc by simp
  with i have "emits (SliceIterator_at s i) (s ! i # drop (Suc i) s) None"
    by (subst SliceIterator_at.code) simp
  with i show ?case by (simp add: Cons_nth_drop_Suc)
qed

lemma emits_SliceIterator [emits_intro]: "emits (SliceIterator s) s None"
  using emits_SliceIterator_at [of s 0] by (simp add: SliceIterator_def)

lemma emits_EmptyIterator [emits_intro]: "emits EmptyIterator [] None"
  by (simp add: EmptyIterator_def)

lemma emits_MapIterator [emits_intro]:
  "emits it xs r \<Longrightarrow> emits (MapIterator it fn) (map fn xs) r"
  by (induction rule: emits.induct) (subst MapIterator.code; simp)+

lemma emits_FilterIterator [emits_intro]:
  "emits it xs r \<Longrightarrow> emits (FilterIterator it fn) (filter fn xs) r"
proof (induction rule: emits.induct)
  case (emits_Yield it xs r x)
  show ?case
  proof (cases "fn x")
    case True
    with emits_Yield.IH show ?thesis
      by (subst FilterIterator.code) (simp add: filter_seek.simps [of fn "Yield x it"])
  next
    case False
    then have "FilterIterator (Yield x it) fn = FilterIterator it fn"
      by (subst (1 2) FilterIterator.code) (simp add: filter_seek.simps [of fn "Yield x it"])
    with False emits_Yield.IH show ?thesis by simp
  qed
qed (subst FilterIterator.code, simp add: filter_seek.simps)+

lemma FlatMapIterator_buf_Cons:
  "FlatMapIterator_buf fn (u # us) it = Yield u (FlatMapIterator_buf fn us it)"
  by (subst FlatMapIterator_buf.code) (simp add: flatmap_fill.simps)

lemma FlatMapIterator_buf_Yield:
  "FlatMapIterator_buf fn [] (Yield v it) = FlatMapIterator_buf fn (fn v) it"
  by (subst (1 2) FlatMapIterator_buf.code)
    (simp add: flatmap_fill.simps [of fn "[]" "Yield v it"])

lemma emits_FlatMapIterator_buf:
  "emits (FlatMapIterator_buf fn [] it) ys r \<Longrightarrow>
   emits (FlatMapIterator_buf fn buf it) (buf @ ys) r"
  by (induction buf) (simp_all add: FlatMapIterator_buf_Cons)

lemma emits_FlatMapIterator [emits_intro]:
  "emits it xs r \<Longrightarrow> emits (FlatMapIterator it fn) (concat (map fn xs)) r"
  unfolding FlatMapIterator_def
proof (induction rule: emits.induct)
  case (emits_Yield it xs r x)
  then show ?case
    by (simp add: FlatMapIterator_buf_Yield emits_FlatMapIterator_buf)
qed (subst FlatMapIterator_buf.code, simp add: flatmap_fill.simps)+

lemma emits_expandIterator_cur:
  assumes "emits cur ys q"
    and "q = None \<Longrightarrow> emits (expandIterator_cur fn None input) zs r"
  shows "emits (expandIterator_cur fn (Some cur) input)
           (ys @ (if q = None then zs else [])) (if q = None then r else q)"
  using assms
proof (induction rule: emits.induct)
  case emits_Stop
  have "expandIterator_cur fn (Some Stop) input = expandIterator_cur fn None input"
    by (subst (1 2) expandIterator_cur.code)
      (simp add: expand_seek.simps [of fn "Some Stop"] expand_seek.simps [of fn None])
  with emits_Stop show ?case by simp
next
  case (emits_Panic e)
  show ?case
    by (subst expandIterator_cur.code) (simp add: expand_seek.simps)
next
  case (emits_Yield it xs r x)
  then show ?case
    by (subst expandIterator_cur.code) (simp add: expand_seek.simps)
qed

lemma emits_expandIterator [emits_intro]:
  assumes "emits it xs r" and "\<And>x. x \<in> set xs \<Longrightarrow> emits (fn x) (g x) None"
  shows "emits (expandIterator it fn) (concat (map g xs)) r"
  unfolding expandIterator_def using assms
proof (induction rule: emits.induct)
  case (emits_Yield it xs r x)
  have "expandIterator_cur fn None (Yield x it) = expandIterator_cur fn (Some (fn x)) it"
    by (subst (1 2) expandIterator_cur.code)
      (simp add: expand_seek.simps [of fn None "Yield x it"])
  moreover have "emits (expandIterator_cur fn (Some (fn x)) it) (g x @ concat (map g xs)) r"
    using emits_expandIterator_cur [of "fn x" "g x" None fn it "concat (map g xs)" r]
      emits_Yield by simp
  ultimately show ?case by simp
qed (subst expandIterator_cur.code, simp add: expand_seek.simps)+

lemma ChainIterators_Nil: "ChainIterators [] = Stop"
  by (subst ChainIterators.code) simp

lemma ChainIterators_Stop: "ChainIterators (Stop # its) = ChainIterators its"
  by (subst (1 2) ChainIterators.code) (simp split: Iterator.splits)

lemma emits_ChainIterators_Cons:
  assumes "emits it xs None" and "emits (ChainIterators its) ys r"
  shows "emits (ChainIterators (it # its)) (xs @ ys) r"
  using assms
proof (induction it xs "None :: goerr option" rule: emits.induct)
  case emits_Stop
  then show ?case by (simp add: ChainIterators_Stop)
next
  case (emits_Yield it xs x)
  then show ?case by (subst ChainIterators.code) simp
qed

lemma emits_ChainIterators [emits_intro]:
  "list_all2 (\<lambda>it xs. emits it xs None) its xss \<Longrightarrow>
   emits (ChainIterators its) (concat xss) None"
  by (induction rule: list_all2_induct)
    (auto simp: ChainIterators_Nil intro: emits_ChainIterators_Cons)

section \<open>What the consuming loops compute\<close>

text \<open>How a loop that returns \<open>x\<close> at the end of its input ends, given the input's end.\<close>

definition ended :: "goerr option \<Rightarrow> 'b \<Rightarrow> 'b res" where
  "ended r x = (case r of None \<Rightarrow> Inr x | Some e \<Rightarrow> Inl e)"

lemma ended_None [simp]: "ended None x = Inr x"
  and ended_Some [simp]: "ended (Some e) x = Inl e"
  by (simp_all add: ended_def)

lemma collect_loop_emits:
  "emits it xs r \<Longrightarrow> collect_loop acc it = Some (ended r (acc @ xs))"
  by (induction arbitrary: acc rule: emits.induct) (subst collect_loop.simps, simp)+

lemma CollectIterator_emits: "emits it xs r \<Longrightarrow> CollectIterator it = Some (ended r xs)"
  by (simp add: CollectIterator_def collect_loop_emits)

lemma fold_loop_emits:
  "emits it xs r \<Longrightarrow> fold_loop fn acc it = Some (ended r (foldl fn acc xs))"
  by (induction arbitrary: acc rule: emits.induct) (subst fold_loop.simps, simp)+

lemma count_loop_emits:
  "emits it xs r \<Longrightarrow> count_loop c it = Some (ended r (c + of_nat (length xs)))"
  by (induction arbitrary: c rule: emits.induct)
    (subst count_loop.simps, simp add: algebra_simps)+

lemma CountIterator_emits:
  "emits it xs r \<Longrightarrow> CountIterator it = Some (ended r (of_nat (length xs)))"
  by (simp add: CountIterator_def count_loop_emits)

lemma ReduceIterator_emits:
  "emits it xs r \<Longrightarrow> ReduceIterator it fn =
     Some (ended r (case xs of [] \<Rightarrow> None | y # ys \<Rightarrow> Some (foldl fn y ys)))"
  by (cases rule: emits.cases)
    (auto simp: ReduceIterator_def fold_loop_emits ended_def split: option.splits)

lemma ForeachIterator_emits:
  "emits it xs r \<Longrightarrow> ForeachIterator it fn s = Some (ended r (fold fn xs s))"
  by (simp add: ForeachIterator_def fold_loop_emits foldl_conv_fold)

lemma take_loop_emits:
  "emits it xs r \<Longrightarrow> take_loop acc it n =
     Some (if n \<le> length xs then Inr (acc @ take n xs) else ended r (acc @ xs))"
  by (induction arbitrary: acc n rule: emits.induct) (case_tac n; simp)+

lemma TakeIterator_emits:
  "emits it xs r \<Longrightarrow> TakeIterator it n =
     Some (if n \<le> int (length xs) then Inr (take (nat n) xs) else ended r xs)"
  by (auto simp: TakeIterator_def take_loop_emits)

lemma CollectIterator_SliceIterator [simp]: "CollectIterator (SliceIterator s) = Some (Inr s)"
  by (simp add: CollectIterator_emits [OF emits_SliceIterator])

section \<open>The contract of an iterator transformer\<close>

text \<open>
  What a narrow transformation promises: whatever finite input it is given, it emits the
  image of the input's list and ends the way the input ends. The consuming loops then
  compute on that image; transformers compose.
\<close>

locale iter_transformer =
  fixes trans :: "'a Iterator \<Rightarrow> 'b Iterator" and image :: "'a list \<Rightarrow> 'b list"
  assumes emits_trans: "emits it xs r \<Longrightarrow> emits (trans it) (image xs) r"
begin

lemma collect_trans: "emits it xs r \<Longrightarrow> CollectIterator (trans it) = Some (ended r (image xs))"
  by (rule CollectIterator_emits) (rule emits_trans)

lemma collect_slice: "CollectIterator (trans (SliceIterator xs)) = Some (Inr (image xs))"
  using collect_trans [OF emits_SliceIterator] by simp

lemma count_slice:
  "CountIterator (trans (SliceIterator xs)) = Some (Inr (of_nat (length (image xs))))"
  using CountIterator_emits [OF emits_trans [OF emits_SliceIterator]] by simp

lemma compose_map:
  "emits it xs r \<Longrightarrow> emits (MapIterator (trans it) f) (map f (image xs)) r"
  by (intro emits_MapIterator emits_trans)

end

interpretation map_it: iter_transformer "\<lambda>it. MapIterator it fn" "map fn"
  by unfold_locales (rule emits_MapIterator)

interpretation filter_it: iter_transformer "\<lambda>it. FilterIterator it fn" "filter fn"
  by unfold_locales (rule emits_FilterIterator)

interpretation flatmap_it: iter_transformer "\<lambda>it. FlatMapIterator it fn" "\<lambda>xs. concat (map fn xs)"
  by unfold_locales (rule emits_FlatMapIterator)

section \<open>Properties\<close>

text \<open>
  A pipeline of Map, Filter and FlatMap over a slice, collected, returns and yields the list
  that the three list functions compute, for every slice and every three functions.
\<close>

lemma pipeline_collect:
  "CollectIterator (FlatMapIterator (FilterIterator (MapIterator (SliceIterator xs) f) P) h)
     = Some (Inr (concat (map h (filter P (map f xs)))))"
  using CollectIterator_emits [OF emits_FlatMapIterator [OF emits_FilterIterator
        [OF emits_MapIterator [OF emits_SliceIterator]]]]
  by simp

end
