(* ===== verification/Keys.thy ===== *)
theory Keys
  imports Prelude "HOL-Library.Char_ord" "HOL-Library.List_Lexorder"
begin

text \<open>
  The values that serve as shuffle keys, and \<^verbatim>\<open>keyToken\<close> of \<^verbatim>\<open>external_aggregate.go\<close>: the
  string by which grouped data is sorted. A key carries its dynamic Go type: the predeclared
  string, boolean and integer types, structs and arrays (with the type's printed name and
  package path), the nil interface, and a type the shuffle refuses. Float keys and string keys
  that hold multi-byte UTF-8 runes are outside the model.
\<close>

datatype intkind = KInt | KInt8 | KInt16 | KInt32 | KInt64
datatype uintkind = KUint | KUint8 | KUint16 | KUint32 | KUint64 | KUintptr

datatype gokey =
    NilKey
  | StringKey string
  | BoolKey bool
  | IntKey intkind int64
  | UintKey uintkind uint64
  | StructKey string string "gokey list"
  | ArrayKey string "gokey list"
  | UnsupportedKey string

section \<open>Formatting\<close>

text \<open>\<^verbatim>\<open>strconv.FormatUint\<close> and \<^verbatim>\<open>strconv.FormatInt\<close> in base 10.\<close>

definition digit_char :: "nat \<Rightarrow> char" where
  "digit_char d = char_of (48 + d)"

fun format_nat :: "nat \<Rightarrow> string" where
  "format_nat n =
     (if n < 10 then [digit_char n] else format_nat (n div 10) @ [digit_char (n mod 10)])"

declare format_nat.simps [simp del]

definition format_int :: "int \<Rightarrow> string" where
  "format_int i = (if i < 0 then CHR ''-'' # format_nat (nat (- i)) else format_nat (nat i))"

text \<open>\<^verbatim>\<open>strconv.Quote\<close> on bytes that are no part of a multi-byte rune.\<close>

definition hex_char :: "nat \<Rightarrow> char" where
  "hex_char d = (if d < 10 then char_of (48 + d) else char_of (87 + d))"

definition quote_char :: "char \<Rightarrow> string" where
  "quote_char c =
     (let n = (of_char c :: nat) in
      if n = 34 \<or> n = 92 then [CHR 0x5C, c]
      else if 32 \<le> n \<and> n < 127 then [c]
      else if n = 7 then [CHR 0x5C, CHR ''a'']
      else if n = 8 then [CHR 0x5C, CHR ''b'']
      else if n = 12 then [CHR 0x5C, CHR ''f'']
      else if n = 10 then [CHR 0x5C, CHR ''n'']
      else if n = 13 then [CHR 0x5C, CHR ''r'']
      else if n = 9 then [CHR 0x5C, CHR ''t'']
      else if n = 11 then [CHR 0x5C, CHR ''v'']
      else [CHR 0x5C, CHR ''x'', hex_char (n div 16), hex_char (n mod 16)])"

definition quote :: "string \<Rightarrow> string" where
  "quote s = CHR 0x22 # concat (map quote_char s) @ [CHR 0x22]"

fun intkind_name :: "intkind \<Rightarrow> string" where
  "intkind_name KInt = ''int''"
| "intkind_name KInt8 = ''int8''"
| "intkind_name KInt16 = ''int16''"
| "intkind_name KInt32 = ''int32''"
| "intkind_name KInt64 = ''int64''"

fun uintkind_name :: "uintkind \<Rightarrow> string" where
  "uintkind_name KUint = ''uint''"
| "uintkind_name KUint8 = ''uint8''"
| "uintkind_name KUint16 = ''uint16''"
| "uintkind_name KUint32 = ''uint32''"
| "uintkind_name KUint64 = ''uint64''"
| "uintkind_name KUintptr = ''uintptr''"

definition format_bool :: "bool \<Rightarrow> string" where
  "format_bool b = (if b then ''true'' else ''false'')"

section \<open>The equality token of a key\<close>

text \<open>
  \<open>visit\<close> appends to the string builder; a key type that cannot be grouped is an error, which
  the caller's \<^verbatim>\<open>must\<close> turns into a panic.
\<close>

fun keyToken :: "gokey \<Rightarrow> string res"
and keyTokens :: "gokey list \<Rightarrow> string res" where
  "keyToken NilKey = Inr ''nil;''"
| "keyToken (StringKey s) = Inr (''string'' @ '':'' @ quote s @ '';'')"
| "keyToken (BoolKey b) = Inr (''bool'' @ '':'' @ format_bool b @ '';'')"
| "keyToken (IntKey kd w) = Inr (intkind_name kd @ '':'' @ format_int (sint w) @ '';'')"
| "keyToken (UintKey kd w) = Inr (uintkind_name kd @ '':'' @ format_int (uint w) @ '';'')"
| "keyToken (StructKey ty pkg fs) =
     bindR (keyTokens fs) (\<lambda>body. Inr (ty @ pkg @ '':'' @ body @ '';''))"
| "keyToken (ArrayKey ty es) =
     bindR (keyTokens es) (\<lambda>body. Inr (ty @ '':'' @ body @ '';''))"
| "keyToken (UnsupportedKey ty) = Inl (Err ''unsupported distributed key type'')"
| "keyTokens [] = Inr []"
| "keyTokens (k # ks) =
     bindR (keyToken k) (\<lambda>t. bindR (keyTokens ks) (\<lambda>ts. Inr (t @ ts)))"

text \<open>
  Two keys of one Go type: the keys of one pair RDD whose key type is not an interface.
\<close>

fun same_type :: "gokey \<Rightarrow> gokey \<Rightarrow> bool"
and same_types :: "gokey list \<Rightarrow> gokey list \<Rightarrow> bool" where
  "same_type NilKey NilKey = True"
| "same_type (StringKey _) (StringKey _) = True"
| "same_type (BoolKey _) (BoolKey _) = True"
| "same_type (IntKey a _) (IntKey b _) = (a = b)"
| "same_type (UintKey a _) (UintKey b _) = (a = b)"
| "same_type (StructKey t p fs) (StructKey t' p' gs) = (t = t' \<and> p = p' \<and> same_types fs gs)"
| "same_type (ArrayKey t fs) (ArrayKey t' gs) = (t = t' \<and> same_types fs gs)"
| "same_type (UnsupportedKey t) (UnsupportedKey t') = (t = t')"
| "same_type _ _ = False"
| "same_types [] [] = True"
| "same_types (a # as) (b # bs) = (same_type a b \<and> same_types as bs)"
| "same_types _ _ = False"

section \<open>Formatting is injective\<close>

lemma digit_char_inject: "d < 10 \<Longrightarrow> e < 10 \<Longrightarrow> digit_char d = digit_char e \<Longrightarrow> d = e"
proof -
  assume "d < 10" "e < 10" "digit_char d = digit_char e"
  then have "(of_char (char_of (48 + d) :: char) :: nat) = of_char (char_of (48 + e) :: char)"
    by (simp add: digit_char_def)
  with \<open>d < 10\<close> \<open>e < 10\<close> show "d = e" by simp
qed

lemma format_nat_nonempty: "format_nat n \<noteq> []"
  by (subst format_nat.simps) simp

lemma format_nat_last: "last (format_nat n) = digit_char (n mod 10)"
  by (subst format_nat.simps) simp

lemma format_nat_butlast:
  "butlast (format_nat n) = (if n < 10 then [] else format_nat (n div 10))"
  by (subst format_nat.simps) simp

lemma format_nat_inject: "format_nat n = format_nat m \<Longrightarrow> n = m"
proof (induction n arbitrary: m rule: format_nat.induct)
  case (1 n)
  have digit: "n mod 10 = m mod 10"
    using arg_cong [OF "1.prems", of last]
    by (simp add: format_nat_last digit_char_inject)
  have rest: "butlast (format_nat n) = butlast (format_nat m)"
    using "1.prems" by simp
  show ?case
  proof (cases "n < 10")
    case True
    then have "m < 10"
      using rest format_nat_nonempty [of "m div 10"]
      by (auto simp: format_nat_butlast split: if_splits)
    with True digit show ?thesis by simp
  next
    case False
    then have "\<not> m < 10"
      using rest format_nat_nonempty [of "n div 10"]
      by (auto simp: format_nat_butlast split: if_splits)
    with False rest "1.IH" [of "m div 10"] have "n div 10 = m div 10"
      by (simp add: format_nat_butlast)
    with digit show ?thesis by (metis div_mult_mod_eq)
  qed
qed

lemma digit_char_range: "d < 10 \<Longrightarrow> of_char (digit_char d) = 48 + d"
  by (simp add: digit_char_def)

lemma format_nat_chars: "c \<in> set (format_nat n) \<Longrightarrow> (48 :: nat) \<le> of_char c \<and> of_char c < (58 :: nat)"
proof (induction n rule: format_nat.induct)
  case (1 n)
  show ?case
  proof (cases "n < 10")
    case True
    with "1.prems" show ?thesis by (subst (asm) format_nat.simps) (simp add: digit_char_range)
  next
    case False
    with "1.prems" have "c \<in> set (format_nat (n div 10)) \<or> c = digit_char (n mod 10)"
      by (subst (asm) format_nat.simps) auto
    with "1.IH" [OF False] show ?thesis by (auto simp: digit_char_range)
  qed
qed

lemma semicolon_notin_format_int: "CHR '';'' \<notin> set (format_int i)"
  using format_nat_chars [of "CHR '';''"] by (auto simp: format_int_def)

lemma minus_notin_format_nat: "CHR ''-'' \<notin> set (format_nat n)"
  using format_nat_chars [of "CHR ''-''"] by auto

lemma format_int_inject: "format_int i = format_int j \<Longrightarrow> i = j"
  using minus_notin_format_nat [of "nat i"] minus_notin_format_nat [of "nat j"]
  by (auto simp: format_int_def split: if_splits dest!: format_nat_inject
      intro: list.set_intros(1)) (metis list.set_intros(1))+

text \<open>A text that ends at the first semicolon can be split off.\<close>

lemma split_at_semicolon:
  assumes "a @ CHR '';'' # r = b @ CHR '';'' # s"
    and "CHR '';'' \<notin> set a" and "CHR '';'' \<notin> set b"
  shows "a = b \<and> r = s"
  using assms
proof (induction a arbitrary: b)
  case Nil
  then show ?case by (cases b) auto
next
  case (Cons x a)
  then show ?case by (cases b) auto
qed


lemma hex_char_inject: "d < 16 \<Longrightarrow> e < 16 \<Longrightarrow> hex_char d = hex_char e \<Longrightarrow> d = e"
proof -
  assume "d < 16" "e < 16" "hex_char d = hex_char e"
  then have "(of_char (hex_char d) :: nat) = of_char (hex_char e)" by simp
  with \<open>d < 16\<close> \<open>e < 16\<close> show "d = e" by (auto simp: hex_char_def split: if_splits)
qed

lemma of_char_bound: "(of_char c :: nat) < 256"
proof -
  have "(of_char c :: nat) \<in> range of_char" by blast
  then show ?thesis by (simp add: range_nat_of_char)
qed

text \<open>The four shapes an escaped byte takes.\<close>

lemma quote_char_cases:
  obtains (plain) "quote_char c = [c]" "c \<noteq> CHR 0x5C" "c \<noteq> CHR 0x22"
  | (escape) "quote_char c = [CHR 0x5C, c]" "c = CHR 0x5C \<or> c = CHR 0x22"
  | (letter) x where "quote_char c = [CHR 0x5C, x]"
      "(c, x) \<in> {(CHR 0x07, CHR ''a''), (CHR 0x08, CHR ''b''), (CHR 0x0C, CHR ''f''),
        (CHR 0x0A, CHR ''n''), (CHR 0x0D, CHR ''r''), (CHR 0x09, CHR ''t''), (CHR 0x0B, CHR ''v'')}"
  | (hex) "quote_char c = [CHR 0x5C, CHR ''x'',
        hex_char (of_char c div 16), hex_char (of_char c mod 16)]"
proof -
  have eq: "c = d" if "(of_char c :: nat) = of_char d" for d
    using that by simp
  consider "of_char c = (34 :: nat)" | "of_char c = (92 :: nat)"
    | "of_char c = (7 :: nat)" | "of_char c = (8 :: nat)" | "of_char c = (12 :: nat)"
    | "of_char c = (10 :: nat)" | "of_char c = (13 :: nat)" | "of_char c = (9 :: nat)"
    | "of_char c = (11 :: nat)"
    | "(32 :: nat) \<le> of_char c \<and> of_char c < (127 :: nat) \<and> of_char c \<noteq> (34 :: nat) \<and> of_char c \<noteq> (92 :: nat)"
    | "of_char c \<notin> {34, 92, 7, 8, 12, 10, 13, 9, 11 :: nat}
        \<and> \<not> ((32 :: nat) \<le> of_char c \<and> of_char c < (127 :: nat))"
    by fastforce
  then show thesis
  proof cases
    case 1 then show ?thesis using eq [of "CHR 0x22"] escape by (simp add: quote_char_def)
  next
    case 2 then show ?thesis using eq [of "CHR 0x5C"] escape by (simp add: quote_char_def)
  next
    case 3 then show ?thesis using eq [of "CHR 0x07"] letter by (simp add: quote_char_def)
  next
    case 4 then show ?thesis using eq [of "CHR 0x08"] letter by (simp add: quote_char_def)
  next
    case 5 then show ?thesis using eq [of "CHR 0x0C"] letter by (simp add: quote_char_def)
  next
    case 6 then show ?thesis using eq [of "CHR 0x0A"] letter by (simp add: quote_char_def)
  next
    case 7 then show ?thesis using eq [of "CHR 0x0D"] letter by (simp add: quote_char_def)
  next
    case 8 then show ?thesis using eq [of "CHR 0x09"] letter by (simp add: quote_char_def)
  next
    case 9 then show ?thesis using eq [of "CHR 0x0B"] letter by (simp add: quote_char_def)
  next
    case 10
    then have "c \<noteq> CHR 0x5C" "c \<noteq> CHR 0x22" by auto
    moreover have "quote_char c = [c]" using 10 by (simp add: quote_char_def)
    ultimately show ?thesis by (intro plain)
  next
    case 11
    then have "quote_char c = [CHR 0x5C, CHR ''x'',
        hex_char (of_char c div 16), hex_char (of_char c mod 16)]"
      unfolding quote_char_def Let_def by auto
    then show ?thesis by (rule hex)
  qed
qed

lemma quote_char_prefix:
  assumes "quote_char c @ r = quote_char d @ s"
  shows "c = d \<and> r = s"
proof -
  have hexeq: "c = d" if "hex_char (of_char c div 16) = hex_char (of_char d div 16)"
    and "hex_char (of_char c mod 16) = hex_char (of_char d mod 16)"
  proof -
    have "(of_char c :: nat) div 16 = of_char d div 16"
      by (rule hex_char_inject)
        (use that of_char_bound [of c] of_char_bound [of d] in \<open>simp_all add: less_mult_imp_div_less\<close>)
    moreover have "(of_char c :: nat) mod 16 = of_char d mod 16"
      by (rule hex_char_inject) (use that in auto)
    ultimately have "(of_char c :: nat) = of_char d" by (metis div_mult_mod_eq)
    then show ?thesis by simp
  qed
  show ?thesis
    using assms
    by (cases c rule: quote_char_cases; cases d rule: quote_char_cases) (auto intro: hexeq)
qed

lemma quote_char_not_quote: "quote_char c \<noteq> [] \<and> hd (quote_char c) \<noteq> CHR 0x22"
  by (cases c rule: quote_char_cases) auto

lemma quote_body_prefix:
  "concat (map quote_char s) @ CHR 0x22 # r = concat (map quote_char t) @ CHR 0x22 # r' \<Longrightarrow>
   s = t \<and> r = r'"
proof (induction s arbitrary: t)
  case Nil
  show ?case
  proof (cases t)
    case (Cons d t')
    with Nil.prems quote_char_not_quote [of d] show ?thesis
      by (cases "quote_char d") simp_all
  qed (use Nil.prems in simp)
next
  case (Cons c s)
  show ?case
  proof (cases t)
    case Nil
    with Cons.prems quote_char_not_quote [of c] show ?thesis
      by (cases "quote_char c") simp_all
  next
    case (Cons d t')
    with Cons.prems have
      "quote_char c @ concat (map quote_char s) @ CHR 0x22 # r
       = quote_char d @ concat (map quote_char t') @ CHR 0x22 # r'" by simp
    from quote_char_prefix [OF this] Cons Cons.IH [of t'] show ?thesis by simp
  qed
qed

lemma quote_prefix: "quote s @ r = quote t @ r' \<Longrightarrow> s = t \<and> r = r'"
  using quote_body_prefix [of s r t r'] by (simp add: quote_def)

lemma format_int_prefix:
  "format_int i @ CHR '';'' # r = format_int j @ CHR '';'' # s \<Longrightarrow> i = j \<and> r = s"
  using split_at_semicolon [of "format_int i" r "format_int j" s]
  by (auto simp: semicolon_notin_format_int dest: format_int_inject)

section \<open>The token of a key determines the key\<close>

text \<open>
  Within one key type a token can be read back, even in front of other tokens: no token is a
  proper prefix of another.
\<close>

lemma keyToken_prefix:
  "same_type a b \<Longrightarrow> keyToken a = Inr s \<Longrightarrow> keyToken b = Inr t \<Longrightarrow> s @ r = t @ r' \<Longrightarrow>
     a = b \<and> r = r'"
  "same_types as bs \<Longrightarrow> keyTokens as = Inr s \<Longrightarrow> keyTokens bs = Inr t \<Longrightarrow> s @ r = t @ r' \<Longrightarrow>
     as = bs \<and> r = r'"
proof (induction a and as arbitrary: b s t r r' and bs s t r r'
    rule: keyToken_keyTokens.induct)
  case (2 x)
  then show ?case
    using quote_prefix [of x "CHR '';'' # r" _ "CHR '';'' # r'"] by (cases b) auto
next
  case (3 x)
  then show ?case by (cases b) (auto simp: format_bool_def split: if_splits)
next
  case (4 kd x)
  then show ?case by (cases b) (auto dest!: format_int_prefix simp: signed_word_eqI)
next
  case (5 kd x)
  then show ?case by (cases b) (auto dest!: format_int_prefix simp: word_uint_eq_iff)
next
  case (6 ty pkg fs)
  from "6.prems" obtain gs u v where b: "b = StructKey ty pkg gs"
    and uv: "same_types fs gs" "keyTokens fs = Inr u" "keyTokens gs = Inr v"
    by (cases b) (auto simp: bindR_Inr_conv)
  have "u @ CHR '';'' # r = v @ CHR '';'' # r'" using "6.prems" b uv by auto
  from "6.IH" [OF uv this] b show ?case by simp
next
  case (7 ty fs)
  from "7.prems" obtain gs u v where b: "b = ArrayKey ty gs"
    and uv: "same_types fs gs" "keyTokens fs = Inr u" "keyTokens gs = Inr v"
    by (cases b) (auto simp: bindR_Inr_conv)
  have "u @ CHR '';'' # r = v @ CHR '';'' # r'" using "7.prems" b uv by auto
  from "7.IH" [OF uv this] b show ?case by simp
next
  case (9)
  then show ?case by (cases bs) auto
next
  case (10 k ks)
  from "10.prems" obtain b bs' where bs: "bs = b # bs'" and ty: "same_type k b" "same_types ks bs'"
    by (cases bs) auto
  from "10.prems" bs obtain u us v vs where
    toks: "keyToken k = Inr u" "keyTokens ks = Inr us" "keyToken b = Inr v" "keyTokens bs' = Inr vs"
    and st: "s = u @ us" "t = v @ vs"
    by (auto simp: bindR_Inr_conv)
  have "u @ (us @ r) = v @ (vs @ r')" using "10.prems" st by simp
  from "10.IH"(1) [OF ty(1) toks(1,3) this] have *: "k = b" "us @ r = vs @ r'" by simp_all
  from "10.IH"(2) [OF ty(2) toks(2,4) *(2)] * bs show ?case by simp
qed (case_tac b; simp)+

lemma keyToken_inject:
  "same_type a b \<Longrightarrow> keyToken a = Inr s \<Longrightarrow> keyToken b = Inr s \<Longrightarrow> a = b"
  using keyToken_prefix(1) [of a b s s "[]" "[]"] by simp

text \<open>
  For keys of one Go type the token separates exactly the different keys, so sorting by token
  puts equal keys next to each other and no others.
\<close>

lemma keyToken_separates:
  assumes "same_type a b" and "keyToken a = Inr s" and "keyToken b = Inr t"
  shows "s = t \<longleftrightarrow> a = b"
  using assms keyToken_inject by auto

end
