(* ===== verification/Partitioners.thy ===== *)
theory Partitioners
  imports Keys
begin

text \<open>
  \<^verbatim>\<open>partition.go\<close> and \<^verbatim>\<open>partitioner.go\<close>: partitions and the three partitioners. The FNV-1a
  hash and the bytes it is fed are computed on words; \<^verbatim>\<open>sort.Search\<close> is the library's binary
  search. The remainder by zero, a run-time panic in Go, is an error value.
\<close>

unbundle bit_operations_syntax

section \<open>Partitions\<close>

datatype Partition =
    basePartition int
  | rangePartition int int int
  | cartesianPartition int int int

fun Index :: "Partition \<Rightarrow> int" where
  "Index (basePartition i) = i"
| "Index (rangePartition i _ _) = i"
| "Index (cartesianPartition i _ _) = i"

definition NewPartitions :: "nat \<Rightarrow> Partition list" where
  "NewPartitions n = map (\<lambda>i. basePartition (int i)) [0..<n]"

definition Indices :: "Partition list \<Rightarrow> int list" where
  "Indices ps = map Index ps"

lemma Indices_NewPartitions: "Indices (NewPartitions n) = map int [0..<n]"
  by (simp add: Indices_def NewPartitions_def)

section \<open>Hashing\<close>

text \<open>\<^verbatim>\<open>hash/fnv.New32a\<close>: xor the byte, multiply by the prime.\<close>

definition fnv_step :: "uint32 \<Rightarrow> byte \<Rightarrow> uint32" where
  "fnv_step h b = (h XOR ucast b) * 16777619"

definition fnv32a :: "byte list \<Rightarrow> uint32" where
  "fnv32a bs = foldl fnv_step 2166136261 bs"

text \<open>\<^verbatim>\<open>buf[i] = byte(k >> (8*i))\<close> for the first \<open>n\<close> bytes.\<close>

definition le_bytes :: "nat \<Rightarrow> int64 \<Rightarrow> byte list" where
  "le_bytes n k = map (\<lambda>i. ucast (signed_drop_bit (8 * i) k)) [0..<n]"

definition string_bytes :: "string \<Rightarrow> byte list" where
  "string_bytes s = map of_char s"

text \<open>\<^verbatim>\<open>fmt.Sprintf("%v", key)\<close> for the keys of the default case.\<close>

fun sprint_v :: "gokey \<Rightarrow> string"
and sprint_vs :: "gokey list \<Rightarrow> string" where
  "sprint_v NilKey = ''<nil>''"
| "sprint_v (StringKey s) = s"
| "sprint_v (BoolKey b) = format_bool b"
| "sprint_v (IntKey _ w) = format_int (sint w)"
| "sprint_v (UintKey _ w) = format_int (uint w)"
| "sprint_v (StructKey _ _ fs) = ''{'' @ sprint_vs fs @ ''}''"
| "sprint_v (ArrayKey _ es) = ''['' @ sprint_vs es @ '']''"
| "sprint_v (UnsupportedKey s) = s"
| "sprint_vs [] = []"
| "sprint_vs [k] = sprint_v k"
| "sprint_vs (k # ks) = sprint_v k @ '' '' @ sprint_vs ks"

text \<open>What \<^verbatim>\<open>GetPartition\<close> writes into the hash, by the dynamic type of the key.\<close>

fun hash_input :: "gokey \<Rightarrow> byte list" where
  "hash_input (StringKey s) = string_bytes s"
| "hash_input (IntKey KInt k) = le_bytes 4 k"
| "hash_input (IntKey KInt32 k) = le_bytes 4 k"
| "hash_input (IntKey KInt64 k) = le_bytes 8 k"
| "hash_input key = string_bytes (sprint_v key)"

section \<open>The partitioners\<close>

datatype Partitioner =
    HashPartitioner int
  | RangePartitioner int "gokey list option" "gokey \<Rightarrow> gokey \<Rightarrow> bool"
  | PartitionIdPassthrough int

fun NumPartitions :: "Partitioner \<Rightarrow> int" where
  "NumPartitions (HashPartitioner n) = n"
| "NumPartitions (RangePartitioner n _ _) = n"
| "NumPartitions (PartitionIdPassthrough n) = n"

definition NewRangePartitioner :: "int \<Rightarrow> (gokey \<Rightarrow> gokey \<Rightarrow> bool) \<Rightarrow> Partitioner" where
  "NewRangePartitioner n lessFunc = RangePartitioner n None lessFunc"

fun SetRangeBounds :: "Partitioner \<Rightarrow> gokey list option \<Rightarrow> Partitioner" where
  "SetRangeBounds (RangePartitioner n _ lessFunc) bounds = RangePartitioner n bounds lessFunc"
| "SetRangeBounds p _ = p"

text \<open>\<^verbatim>\<open>sort.Search\<close>: the least index of \<open>[i, j)\<close> whose predicate holds, else \<open>j\<close>.\<close>

function search_loop :: "(nat \<Rightarrow> bool) \<Rightarrow> nat \<Rightarrow> nat \<Rightarrow> nat" where
  "search_loop f i j =
     (if i < j then
        let h = (i + j) div 2 in
        if \<not> f h then search_loop f (Suc h) j else search_loop f i h
      else i)"
  by pat_completeness auto
termination
  by (relation "measure (\<lambda>(f, i, j). j - i)") auto

declare search_loop.simps [simp del]

definition sort_Search :: "nat \<Rightarrow> (nat \<Rightarrow> bool) \<Rightarrow> nat" where
  "sort_Search n f = search_loop f 0 n"

definition GetPartition_hash :: "int \<Rightarrow> gokey \<Rightarrow> int res" where
  "GetPartition_hash n key =
     (if key = NilKey then Inr 0
      else if n = 0 then Inl (Err ''integer divide by zero'')
      else Inr (uint (fnv32a (hash_input key)) mod \<bar>n\<bar>))"

definition GetPartition_range ::
  "int \<Rightarrow> 'k list option \<Rightarrow> ('k \<Rightarrow> 'k \<Rightarrow> bool) \<Rightarrow> 'k \<Rightarrow> int" where
  "GetPartition_range n bounds lessFunc key =
     (case bounds of
        None \<Rightarrow> 0
      | Some bs \<Rightarrow>
          let idx = int (sort_Search (length bs) (\<lambda>i. lessFunc key (bs ! i)))
          in if idx \<ge> n then n - 1 else idx)"

definition GetPartition_id :: "int \<Rightarrow> gokey \<Rightarrow> int" where
  "GetPartition_id n key =
     (case key of
        IntKey KInt w \<Rightarrow> if sint w \<ge> 0 \<and> sint w < n then sint w else 0
      | _ \<Rightarrow> 0)"

fun GetPartition :: "Partitioner \<Rightarrow> gokey \<Rightarrow> int res" where
  "GetPartition (HashPartitioner n) key = GetPartition_hash n key"
| "GetPartition (RangePartitioner n bounds lessFunc) key = Inr (GetPartition_range n bounds lessFunc key)"
| "GetPartition (PartitionIdPassthrough n) key = Inr (GetPartition_id n key)"

section \<open>Binary search\<close>

lemma search_loop_bounds: "i \<le> j \<Longrightarrow> i \<le> search_loop f i j \<and> search_loop f i j \<le> j"
proof (induction f i j rule: search_loop.induct)
  case (1 f i j)
  define h where "h = (i + j) div 2"
  show ?case
  proof (cases "i < j")
    case True
    then have h: "i \<le> h" "h < j" by (auto simp: h_def)
    show ?thesis
    proof (cases "f h")
      case True
      with "1.IH"(2) [OF \<open>i < j\<close> h_def] h have "i \<le> search_loop f i h" "search_loop f i h \<le> h" by simp_all
      with True \<open>i < j\<close> h show ?thesis by (simp add: search_loop.simps [of f i j] flip: h_def)
    next
      case False
      with "1.IH"(1) [OF \<open>i < j\<close> h_def] h
      have "Suc h \<le> search_loop f (Suc h) j" "search_loop f (Suc h) j \<le> j" by simp_all
      with False \<open>i < j\<close> h show ?thesis by (simp add: search_loop.simps [of f i j] flip: h_def)
    qed
  qed (use "1.prems" in \<open>simp add: search_loop.simps\<close>)
qed

lemma sort_Search_le: "sort_Search n f \<le> n"
  using search_loop_bounds [of 0 n f] by (simp add: sort_Search_def)

text \<open>On a predicate that stays true once it is true, the search finds the boundary.\<close>

lemma search_loop_split:
  assumes "\<And>a b. a \<le> b \<Longrightarrow> b < n \<Longrightarrow> f a \<Longrightarrow> f b"
    and "i \<le> j" "j \<le> n" "\<And>k. k < i \<Longrightarrow> \<not> f k" "\<And>k. j \<le> k \<Longrightarrow> k < n \<Longrightarrow> f k"
  shows "(\<forall>k < search_loop f i j. \<not> f k) \<and> (\<forall>k. search_loop f i j \<le> k \<and> k < n \<longrightarrow> f k)"
  using assms
proof (induction f i j rule: search_loop.induct)
  case (1 f i j)
  define h where "h = (i + j) div 2"
  show ?case
  proof (cases "i < j")
    case True
    then have h: "i \<le> h" "h < j" by (auto simp: h_def)
    show ?thesis
    proof (cases "f h")
      case True
      have "f k" if "h \<le> k" "k < n" for k using "1.prems"(1) [OF that True] .
      with "1.prems"(3) h have "(\<forall>k < search_loop f i h. \<not> f k) \<and> (\<forall>k. search_loop f i h \<le> k \<and> k < n \<longrightarrow> f k)"
        by (intro "1.IH"(2) [OF \<open>i < j\<close> h_def _ "1.prems"(1) _ _ "1.prems"(4)]) (use True in simp_all)
      with True \<open>i < j\<close> show ?thesis
        by (simp add: search_loop.simps [of f i j] flip: h_def)
    next
      case False
      have "h < n" using "1.prems"(3) h by simp
      then have "\<not> f k" if "k < Suc h" for k
        using "1.prems"(1) [of k h] that False by (metis less_Suc_eq_le)
      with "1.prems"(3) h have "(\<forall>k < search_loop f (Suc h) j. \<not> f k)
          \<and> (\<forall>k. search_loop f (Suc h) j \<le> k \<and> k < n \<longrightarrow> f k)"
        by (intro "1.IH"(1) [OF \<open>i < j\<close> h_def _ "1.prems"(1) _ _ _ "1.prems"(5)]) (use False in simp_all)
      with False \<open>i < j\<close> show ?thesis
        by (simp add: search_loop.simps [of f i j] flip: h_def)
    qed
  next
    case False
    then have "search_loop f i j = i" by (simp add: search_loop.simps [of f i j])
    with False "1.prems"(2,4,5) show ?thesis by auto
  qed
qed

lemma sort_Search_split:
  assumes "\<And>a b. a \<le> b \<Longrightarrow> b < n \<Longrightarrow> f a \<Longrightarrow> f b"
  shows "k < sort_Search n f \<Longrightarrow> \<not> f k" and "sort_Search n f \<le> k \<Longrightarrow> k < n \<Longrightarrow> f k"
proof -
  have "(\<forall>k < search_loop f 0 n. \<not> f k) \<and> (\<forall>k. search_loop f 0 n \<le> k \<and> k < n \<longrightarrow> f k)"
    by (rule search_loop_split) (use assms in simp_all)
  then show "k < sort_Search n f \<Longrightarrow> \<not> f k" and "sort_Search n f \<le> k \<Longrightarrow> k < n \<Longrightarrow> f k"
    by (simp_all add: sort_Search_def)
qed

section \<open>The contract of a partitioner\<close>

text \<open>
  What the shuffle writer relies on: with a positive partition count every key has a bucket
  and the bucket is one of the partitions.
\<close>

locale partitioner =
  fixes num :: int and bucket :: "'k \<Rightarrow> int res"
  assumes bucket_in_range: "0 < num \<Longrightarrow> \<exists>p. bucket key = Inr p \<and> 0 \<le> p \<and> p < num"
begin

lemma bucket_total: "0 < num \<Longrightarrow> bucket key \<noteq> Inl e"
  using bucket_in_range [of key] by auto

lemma bucket_index:
  assumes "0 < num" obtains i where "i < nat num" "bucket key = Inr (int i)"
  using bucket_in_range [OF assms, of key]
  by (metis nat_0_le nat_less_eq_zless zless_nat_eq_int_zless int_nat_eq)

lemma bucket_disjoint: "bucket key = Inr p \<Longrightarrow> bucket key = Inr q \<Longrightarrow> p = q"
  by simp

end

lemma GetPartition_hash_range:
  "0 < n \<Longrightarrow> \<exists>p. GetPartition_hash n key = Inr p \<and> 0 \<le> p \<and> p < n"
  by (simp add: GetPartition_hash_def)

lemma GetPartition_range_range:
  "0 < n \<Longrightarrow> 0 \<le> GetPartition_range n bounds lessFunc key \<and> GetPartition_range n bounds lessFunc key < n"
  by (auto simp: GetPartition_range_def Let_def split: option.split)

lemma GetPartition_id_range: "0 < n \<Longrightarrow> 0 \<le> GetPartition_id n key \<and> GetPartition_id n key < n"
  by (auto simp: GetPartition_id_def split: gokey.split intkind.split)

interpretation go_partitioner: partitioner "NumPartitions p" "GetPartition p" for p
  by unfold_locales
    (cases p; simp add: GetPartition_hash_range GetPartition_range_range GetPartition_id_range)

section \<open>Range partitioning respects the order\<close>

text \<open>
  What a Go \<^verbatim>\<open>less\<close> must satisfy for sorting: a strict weak order.
\<close>

definition strict_weak_order :: "('k \<Rightarrow> 'k \<Rightarrow> bool) \<Rightarrow> bool" where
  "strict_weak_order lessFunc \<longleftrightarrow>
     (\<forall>a. \<not> lessFunc a a) \<and> (\<forall>a b c. lessFunc a b \<longrightarrow> lessFunc b c \<longrightarrow> lessFunc a c)
     \<and> (\<forall>a b c. \<not> lessFunc a b \<longrightarrow> \<not> lessFunc b c \<longrightarrow> \<not> lessFunc a c)"

lemma swo_less_trans: "strict_weak_order lessFunc \<Longrightarrow> lessFunc a b \<Longrightarrow> lessFunc b c \<Longrightarrow> lessFunc a c"
  and swo_not_less_trans: "strict_weak_order lessFunc \<Longrightarrow> \<not> lessFunc a b \<Longrightarrow> \<not> lessFunc b c \<Longrightarrow> \<not> lessFunc a c"
  and swo_asym: "strict_weak_order lessFunc \<Longrightarrow> lessFunc a b \<Longrightarrow> \<not> lessFunc b a"
  unfolding strict_weak_order_def by blast+

lemma swo_less_not_less_trans:
  "strict_weak_order lessFunc \<Longrightarrow> lessFunc a b \<Longrightarrow> \<not> lessFunc c b \<Longrightarrow> lessFunc a c"
  unfolding strict_weak_order_def by blast

lemma range_search_mono:
  assumes swo: "strict_weak_order lessFunc"
    and sorted: "sorted_wrt (\<lambda>x y. \<not> lessFunc y x) bs" and ab: "\<not> lessFunc b a"
  shows "sort_Search (length bs) (\<lambda>i. lessFunc a (bs ! i)) \<le> sort_Search (length bs) (\<lambda>i. lessFunc b (bs ! i))"
proof (rule ccontr)
  let ?m = "\<lambda>x. sort_Search (length bs) (\<lambda>i. lessFunc x (bs ! i))"
  have mono: "lessFunc x (bs ! j)" if "i \<le> j" "j < length bs" "lessFunc x (bs ! i)" for x i j
  proof (cases "i = j")
    case False
    then have "\<not> lessFunc (bs ! j) (bs ! i)"
      using sorted that by (auto simp: sorted_wrt_iff_nth_less)
    then show ?thesis using swo_less_not_less_trans [OF swo that(3)] by blast
  qed (use that in simp)
  assume "\<not> ?m a \<le> ?m b"
  then have lt: "?m b < ?m a" by simp
  then have "?m b < length bs" using sort_Search_le [of "length bs" "\<lambda>i. lessFunc a (bs ! i)"] by simp
  then have "lessFunc b (bs ! ?m b)"
    using sort_Search_split(2) [of "length bs" "\<lambda>i. lessFunc b (bs ! i)"] mono by blast
  moreover have "\<not> lessFunc a (bs ! ?m b)"
    using sort_Search_split(1) [of "length bs" "\<lambda>i. lessFunc a (bs ! i)"] mono lt by blast
  ultimately show False
    using swo ab unfolding strict_weak_order_def by blast
qed

lemma GetPartition_range_mono:
  assumes "strict_weak_order lessFunc" and "sorted_wrt (\<lambda>x y. \<not> lessFunc y x) bs" and "\<not> lessFunc b a"
  shows "GetPartition_range n (Some bs) lessFunc a \<le> GetPartition_range n (Some bs) lessFunc b"
  using range_search_mono [OF assms] by (simp add: GetPartition_range_def Let_def)

section \<open>Properties\<close>

text \<open>
  C17: every partitioner with a positive number of partitions returns, for every key, a partition
  in its range.
\<close>

theorem partitioner_in_range:
  assumes "0 < NumPartitions p"
  shows "\<exists>i. GetPartition p key = Inr i \<and> 0 \<le> i \<and> i < NumPartitions p"
  using go_partitioner.bucket_in_range [OF assms] by blast

theorem partitioner_in_range_witness:
  "\<exists>i. GetPartition (HashPartitioner 4) (StringKey ''spark'') = Inr i \<and> 0 \<le> i \<and> i < 4"
  using partitioner_in_range [of "HashPartitioner 4" "StringKey ''spark''"] by simp

text \<open>
  A range partitioner with ascending bounds never sends a smaller key to a later partition:
  if \<open>b\<close> is not less than \<open>a\<close>, the partition of \<open>a\<close> is not after that of \<open>b\<close>.
\<close>

lemma range_partitioner_monotone:
  assumes "strict_weak_order lessFunc" and "sorted_wrt (\<lambda>x y. \<not> lessFunc y x) bs"
    and "\<not> lessFunc b a" and "GetPartition (RangePartitioner n (Some bs) lessFunc) a = Inr i"
    and "GetPartition (RangePartitioner n (Some bs) lessFunc) b = Inr j"
  shows "i \<le> j"
  using GetPartition_range_mono [OF assms(1-3), of n] assms(4,5) by simp

definition int_key_less :: "gokey \<Rightarrow> gokey \<Rightarrow> bool" where
  "int_key_less a b = (case (a, b) of
     (IntKey _ x, IntKey _ y) \<Rightarrow> sint x < sint y
   | (IntKey _ _, _) \<Rightarrow> True | _ \<Rightarrow> False)"

end
