(* ===== verification/Disk_Budget.thy ===== *)
theory Disk_Budget
  imports Prelude
begin

text \<open>
  \<^verbatim>\<open>shuffle_budget.go\<close>: the accounting of a worker's shuffle output and scratch files. A path
  is the list of its cleaned components, so that \<^verbatim>\<open>strings.HasPrefix(path, Clean(dir)+"/")\<close> is
  the proper-prefix relation. The table of tracked files is an association list; a nil budget
  is \<open>None\<close>. Whether the operating system's call succeeds is an argument.
\<close>

type_synonym path = "string list"

record diskBudget =
  limit :: int
  used :: int
  files :: "(path \<times> int) list"

definition MaxInt64 :: int where
  "MaxInt64 = 2 ^ 63 - 1"

definition under :: "path \<Rightarrow> path \<Rightarrow> bool" where
  "under dir p \<longleftrightarrow> length dir < length p \<and> take (length dir) p = dir"

fun lookup_size :: "(path \<times> int) list \<Rightarrow> path \<Rightarrow> int" where
  "lookup_size [] p = 0"
| "lookup_size ((q, n) # fs) p = (if q = p then n else lookup_size fs p)"

text \<open>\<^verbatim>\<open>b.files[path] += n\<close>\<close>

fun add_size :: "path \<Rightarrow> int \<Rightarrow> (path \<times> int) list \<Rightarrow> (path \<times> int) list" where
  "add_size p n [] = [(p, n)]"
| "add_size p n ((q, m) # fs) = (if q = p then (q, m + n) # fs else (q, m) # add_size p n fs)"

text \<open>\<^verbatim>\<open>b.files[path] = n\<close>\<close>

fun set_size :: "path \<Rightarrow> int \<Rightarrow> (path \<times> int) list \<Rightarrow> (path \<times> int) list" where
  "set_size p n [] = [(p, n)]"
| "set_size p n ((q, m) # fs) = (if q = p then (q, n) # fs else (q, m) # set_size p n fs)"

definition delete_path :: "path \<Rightarrow> (path \<times> int) list \<Rightarrow> (path \<times> int) list" where
  "delete_path p fs = filter (\<lambda>(q, _). q \<noteq> p) fs"

text \<open>
  A new worker seeds its usage from the regular files found under the root; the limit comes
  from the environment and must be positive when it is set.
\<close>

definition newDiskBudget :: "int option \<Rightarrow> (path \<times> int) list \<Rightarrow> diskBudget res" where
  "newDiskBudget raw found =
     (let b0 = \<lparr>limit = 0, used = 0, files = []\<rparr> in
      case (case raw of None \<Rightarrow> Inr b0
            | Some l \<Rightarrow> if l \<le> 0 then Inl (Err ''invalid GOSPARK_SHUFFLE_DISK_BYTES'')
                        else Inr (b0\<lparr>limit := l\<rparr>)) of
        Inl e \<Rightarrow> Inl e
      | Inr b \<Rightarrow> Inr (foldl (\<lambda>b (p, sz). b\<lparr>files := set_size p sz (files b), used := used b + sz\<rparr>)
                        b found))"

definition reserve :: "diskBudget \<Rightarrow> path \<Rightarrow> int \<Rightarrow> diskBudget res" where
  "reserve b p n =
     (if n < 0 \<or> n > MaxInt64 - used b \<or> (limit b > 0 \<and> n > limit b - used b)
      then Inl (Err ''shuffle disk budget exceeded'')
      else Inr (b\<lparr>files := add_size p n (files b), used := used b + n\<rparr>))"

text \<open>\<open>removed\<close> is the outcome of \<^verbatim>\<open>os.Remove\<close>; a file that does not exist counts as removed.\<close>

definition removeFile :: "diskBudget \<Rightarrow> unit res \<Rightarrow> path \<Rightarrow> diskBudget res" where
  "removeFile b removed p =
     (case removed of
        Inl e \<Rightarrow> Inl e
      | Inr _ \<Rightarrow> Inr (b\<lparr>used := used b - lookup_size (files b) p,
                        files := delete_path p (files b)\<rparr>))"

text \<open>The loop of \<^verbatim>\<open>removeDir\<close> over the tracked files below the directory.\<close>

fun release_under :: "path \<Rightarrow> (path \<times> int) list \<Rightarrow> diskBudget \<Rightarrow> diskBudget" where
  "release_under dir [] b = b"
| "release_under dir ((p, n) # fs) b =
     release_under dir fs
       (if under dir p then b\<lparr>used := used b - n, files := delete_path p (files b)\<rparr> else b)"

definition removeDir :: "diskBudget \<Rightarrow> unit res \<Rightarrow> path \<Rightarrow> diskBudget res" where
  "removeDir b removed dir =
     (case removed of Inl e \<Rightarrow> Inl e | Inr _ \<Rightarrow> Inr (release_under dir (files b) b))"

text \<open>The loop of \<^verbatim>\<open>renameDir\<close>: move each tracked file below \<open>from\<close> to the same place below \<open>to\<close>.\<close>

fun move_under :: "path \<Rightarrow> path \<Rightarrow> (path \<times> int) list \<Rightarrow> diskBudget \<Rightarrow> diskBudget" where
  "move_under fro to [] b = b"
| "move_under fro to ((p, n) # fs) b =
     move_under fro to fs
       (if under fro p
        then b\<lparr>files := set_size (to @ drop (length fro) p) n (delete_path p (files b))\<rparr>
        else b)"

definition renameDir :: "diskBudget \<Rightarrow> unit res \<Rightarrow> path \<Rightarrow> path \<Rightarrow> diskBudget res" where
  "renameDir b renamed fro to =
     (case renamed of Inl e \<Rightarrow> Inl e | Inr _ \<Rightarrow> Inr (move_under fro to (files b) b))"

text \<open>The methods accept a nil receiver.\<close>

definition reserve_opt :: "diskBudget option \<Rightarrow> path \<Rightarrow> int \<Rightarrow> diskBudget option res" where
  "reserve_opt ob p n =
     (case ob of None \<Rightarrow> Inr None | Some b \<Rightarrow> map_sum id Some (reserve b p n))"

section \<open>The accounting invariant\<close>

definition total :: "(path \<times> int) list \<Rightarrow> int" where
  "total fs = sum_list (map snd fs)"

definition nonneg :: "(path \<times> int) list \<Rightarrow> bool" where
  "nonneg fs \<longleftrightarrow> list_all (\<lambda>(p, n). 0 \<le> n) fs"

text \<open>
  No path is tracked twice, no size is negative, and the counter is the sum of the sizes and
  fits into an \<^verbatim>\<open>int64\<close>.
\<close>

definition budget_ok :: "diskBudget \<Rightarrow> bool" where
  "budget_ok b \<longleftrightarrow> distinct (map fst (files b)) \<and> nonneg (files b)
     \<and> used b = total (files b) \<and> used b \<le> MaxInt64"

lemma total_Nil [simp]: "total [] = 0"
  and total_Cons [simp]: "total ((p, n) # fs) = n + total fs"
  by (simp_all add: total_def)

lemma fst_add_size: "fst ` set (add_size p n fs) = insert p (fst ` set fs)"
  by (induction p n fs rule: add_size.induct) auto

lemma fst_set_size: "fst ` set (set_size p n fs) = insert p (fst ` set fs)"
  by (induction p n fs rule: set_size.induct) auto

lemma distinct_add_size: "distinct (map fst fs) \<Longrightarrow> distinct (map fst (add_size p n fs))"
  by (induction p n fs rule: add_size.induct) (auto simp: fst_add_size image_iff)

lemma distinct_set_size: "distinct (map fst fs) \<Longrightarrow> distinct (map fst (set_size p n fs))"
  by (induction p n fs rule: set_size.induct) (auto simp: fst_set_size image_iff)

lemma total_add_size: "total (add_size p n fs) = total fs + n"
  by (induction p n fs rule: add_size.induct) auto

lemma total_set_size: "p \<notin> fst ` set fs \<Longrightarrow> total (set_size p n fs) = total fs + n"
  by (induction p n fs rule: set_size.induct) auto

lemma nonneg_add_size: "nonneg fs \<Longrightarrow> 0 \<le> n \<Longrightarrow> nonneg (add_size p n fs)"
  by (induction p n fs rule: add_size.induct) (auto simp: nonneg_def)

lemma nonneg_set_size: "nonneg fs \<Longrightarrow> 0 \<le> n \<Longrightarrow> nonneg (set_size p n fs)"
  by (induction p n fs rule: set_size.induct) (auto simp: nonneg_def)

lemma nonneg_delete_path: "nonneg fs \<Longrightarrow> nonneg (delete_path p fs)"
  by (auto simp: nonneg_def delete_path_def list_all_iff)

lemma delete_path_id: "p \<notin> fst ` set fs \<Longrightarrow> delete_path p fs = fs"
  by (force simp: delete_path_def intro: filter_True)

lemma lookup_size_notin: "p \<notin> fst ` set fs \<Longrightarrow> lookup_size fs p = 0"
  by (induction fs p rule: lookup_size.induct) auto

lemma total_delete_path:
  "distinct (map fst fs) \<Longrightarrow> total (delete_path p fs) = total fs - lookup_size fs p"
proof (induction fs p rule: lookup_size.induct)
  case (2 q n fs p)
  then show ?case
    by (cases "q = p") (auto simp: delete_path_id [unfolded delete_path_def] delete_path_def)
qed (simp add: delete_path_def)

lemma lookup_size_in: "distinct (map fst fs) \<Longrightarrow> (p, n) \<in> set fs \<Longrightarrow> lookup_size fs p = n"
  by (induction fs p rule: lookup_size.induct) (auto simp: image_iff)

lemma lookup_size_nonneg: "nonneg fs \<Longrightarrow> 0 \<le> lookup_size fs p"
  by (induction fs p rule: lookup_size.induct) (auto simp: nonneg_def)

lemma total_nonneg: "nonneg fs \<Longrightarrow> 0 \<le> total fs"
  by (induction fs) (auto simp: nonneg_def)

lemma nonnegD: "nonneg fs \<Longrightarrow> (p, n) \<in> set fs \<Longrightarrow> 0 \<le> n"
  by (auto simp: nonneg_def list_all_iff)

lemma distinct_delete_path: "distinct (map fst fs) \<Longrightarrow> distinct (map fst (delete_path p fs))"
  by (simp add: delete_path_def distinct_map_filter)

lemma set_delete_path: "set (delete_path p fs) = {x \<in> set fs. fst x \<noteq> p}"
  by (auto simp: delete_path_def)

section \<open>Every operation keeps the accounting\<close>

text \<open>
  The contract of an operation on a budget: it keeps the accounting and never uses more than
  the limit allows, so that any sequence of such operations does.
\<close>

definition within_limit :: "diskBudget \<Rightarrow> bool" where
  "within_limit b \<longleftrightarrow> (limit b > 0 \<longrightarrow> used b \<le> limit b)"

locale budget_op =
  fixes oper :: "diskBudget \<Rightarrow> diskBudget res" and pre :: "diskBudget \<Rightarrow> bool"
  assumes keeps_ok: "budget_ok b \<Longrightarrow> pre b \<Longrightarrow> oper b = Inr b' \<Longrightarrow> budget_ok b'"
    and keeps_limit: "budget_ok b \<Longrightarrow> pre b \<Longrightarrow> oper b = Inr b' \<Longrightarrow> limit b' = limit b"
    and keeps_within: "budget_ok b \<Longrightarrow> pre b \<Longrightarrow> within_limit b \<Longrightarrow> oper b = Inr b' \<Longrightarrow> within_limit b'"
begin

lemma keeps_all:
  "budget_ok b \<and> within_limit b \<Longrightarrow> pre b \<Longrightarrow> oper b = Inr b' \<Longrightarrow>
     budget_ok b' \<and> within_limit b' \<and> limit b' = limit b"
  using keeps_ok keeps_limit keeps_within by blast

end

interpretation reserve_op: budget_op "\<lambda>b. reserve b p n" "\<lambda>_. True"
  by unfold_locales
    (auto simp: reserve_def budget_ok_def within_limit_def distinct_add_size total_add_size
      nonneg_add_size split: if_splits)

lemma removeFile_keeps:
  assumes "budget_ok b" and "removeFile b os p = Inr b'"
  shows "budget_ok b' \<and> used b' \<le> used b \<and> limit b' = limit b"
  using assms lookup_size_nonneg [of "files b" p]
  by (auto simp: removeFile_def budget_ok_def distinct_delete_path total_delete_path
      nonneg_delete_path split: sum.splits)

interpretation removeFile_op: budget_op "\<lambda>b. removeFile b os p" "\<lambda>_. True"
  by unfold_locales (use removeFile_keeps in \<open>force simp: within_limit_def\<close>)+

lemma release_under_keeps:
  assumes "distinct (map fst fs)" and "\<forall>(p, n) \<in> set fs. under dir p \<longrightarrow> (p, n) \<in> set (files b)"
    and "budget_ok b"
  shows "budget_ok (release_under dir fs b) \<and> used (release_under dir fs b) \<le> used b
    \<and> limit (release_under dir fs b) = limit b
    \<and> files (release_under dir fs b) = filter (\<lambda>(p, n). \<not> (under dir p \<and> p \<in> fst ` set fs)) (files b)"
  using assms
proof (induction dir fs b rule: release_under.induct)
  case (2 dir p n fs b)
  define b' where
    "b' = (if under dir p then b\<lparr>used := used b - n, files := delete_path p (files b)\<rparr> else b)"
  have ok: "budget_ok b' \<and> used b' \<le> used b \<and> limit b' = limit b"
    using "2.prems"
    by (auto simp: b'_def budget_ok_def distinct_delete_path total_delete_path nonneg_delete_path
        lookup_size_in dest: nonnegD)
  have "\<forall>(q, m) \<in> set fs. under dir q \<longrightarrow> (q, m) \<in> set (files b')"
    using "2.prems"(1,2) by (force simp: b'_def set_delete_path)
  with ok "2.IH" "2.prems"(1) have
    "budget_ok (release_under dir fs b') \<and> used (release_under dir fs b') \<le> used b'
     \<and> limit (release_under dir fs b') = limit b'
     \<and> files (release_under dir fs b')
         = filter (\<lambda>(p, n). \<not> (under dir p \<and> p \<in> fst ` set fs)) (files b')"
    unfolding b'_def by auto
  moreover have "filter (\<lambda>(q, m). \<not> (under dir q \<and> q \<in> fst ` set fs)) (files b')
      = filter (\<lambda>(q, m). \<not> (under dir q \<and> q \<in> fst ` set ((p, n) # fs))) (files b)"
    by (auto simp: b'_def delete_path_def intro!: filter_cong)
  ultimately show ?case using ok by (simp flip: b'_def)
qed (auto simp: split_def)

lemma removeDir_keeps:
  assumes "budget_ok b" and "removeDir b os dir = Inr b'"
  shows "budget_ok b' \<and> used b' \<le> used b \<and> limit b' = limit b
    \<and> files b' = filter (\<lambda>(p, n). \<not> under dir p) (files b)"
proof -
  have b': "b' = release_under dir (files b) b"
    using assms(2) by (auto simp: removeDir_def split: sum.splits)
  have "filter (\<lambda>(p, n). \<not> (under dir p \<and> p \<in> fst ` set (files b))) (files b)
      = filter (\<lambda>(p, n). \<not> under dir p) (files b)"
    by (rule filter_cong) force+
  with release_under_keeps [of "files b" dir b] assms(1) b' show ?thesis
    by (auto simp: budget_ok_def)
qed

interpretation removeDir_op: budget_op "\<lambda>b. removeDir b os dir" "\<lambda>_. True"
  by unfold_locales (use removeDir_keeps in \<open>force simp: within_limit_def\<close>)+

section \<open>Renaming a directory\<close>

lemma set_set_size_fresh: "p \<notin> fst ` set fs \<Longrightarrow> set (set_size p n fs) = insert (p, n) (set fs)"
  by (induction p n fs rule: set_size.induct) auto

lemma under_split: "under dir p \<Longrightarrow> p = dir @ drop (length dir) p"
  unfolding under_def by (metis append_take_drop_id)

lemma move_under_keeps:
  assumes "distinct (map fst fs)"
    and "\<And>p n. (p, n) \<in> set fs \<Longrightarrow> under fro p \<Longrightarrow> (p, n) \<in> set (files b)"
    and "\<And>p n. (p, n) \<in> set fs \<Longrightarrow> under fro p \<Longrightarrow> to @ drop (length fro) p \<notin> fst ` set (files b)"
    and "budget_ok b"
  shows "budget_ok (move_under fro to fs b) \<and> used (move_under fro to fs b) = used b
    \<and> limit (move_under fro to fs b) = limit b"
  using assms
proof (induction fro to fs b rule: move_under.induct)
  case (2 fro to p n fs b)
  show ?case
  proof (cases "under fro p")
    case True
    define q where "q = to @ drop (length fro) p"
    define b' where "b' = b\<lparr>files := set_size q n (delete_path p (files b))\<rparr>"
    have pin: "(p, n) \<in> set (files b)" and q: "q \<notin> fst ` set (files b)"
      using "2.prems"(2,3) [of p n] True by (auto simp: q_def)
    then have qd: "q \<notin> fst ` set (delete_path p (files b))" by (auto simp: set_delete_path)
    have "nonneg (set_size q n (delete_path p (files b)))"
      using "2.prems"(4) pin
      by (intro nonneg_set_size nonneg_delete_path) (auto simp: budget_ok_def dest: nonnegD)
    then have ok: "budget_ok b'"
      using "2.prems"(4) pin qd
      by (auto simp: b'_def budget_ok_def distinct_delete_path distinct_set_size
          total_set_size total_delete_path lookup_size_in)
    have later: "under fro p' \<Longrightarrow> (p', m) \<in> set fs \<Longrightarrow> p' \<noteq> p" for p' m
      using "2.prems"(1) by (auto simp: rev_image_eqI)
    have keep: "(p', m) \<in> set (files b')" if "(p', m) \<in> set fs" "under fro p'" for p' m
      using "2.prems"(2) [of p' m] later that qd
      by (auto simp: b'_def set_set_size_fresh set_delete_path)
    have fresh: "to @ drop (length fro) p' \<notin> fst ` set (files b')"
      if "(p', m) \<in> set fs" "under fro p'" for p' m
    proof -
      have "drop (length fro) p' \<noteq> drop (length fro) p"
        using under_split [OF that(2)] under_split [OF True] later [OF that(2,1)] by metis
      then show ?thesis
        using "2.prems"(3) [of p' m] that qd
        by (auto simp: b'_def q_def set_set_size_fresh set_delete_path)
    qed
    have "budget_ok (move_under fro to fs b') \<and> used (move_under fro to fs b') = used b'
        \<and> limit (move_under fro to fs b') = limit b'"
      using "2.IH" "2.prems"(1) keep fresh ok True
      by (simp add: b'_def q_def)
    then show ?thesis using True by (simp add: b'_def q_def)
  next
    case False
    have "budget_ok (move_under fro to fs b) \<and> used (move_under fro to fs b) = used b
        \<and> limit (move_under fro to fs b) = limit b"
      using "2.IH" "2.prems"(1,4) "2.prems"(2,3) [OF list.set_intros(2)] False by simp
    with False show ?thesis by simp
  qed
qed simp

text \<open>
  What the caller guarantees: nothing is tracked below the target, as \<^verbatim>\<open>os.Rename\<close> refuses a
  target directory that is not empty.
\<close>

definition target_free :: "path \<Rightarrow> diskBudget \<Rightarrow> bool" where
  "target_free to b \<longleftrightarrow> list_all (\<lambda>(p, _). \<not> under to p) (files b)"

lemma under_append: "r \<noteq> [] \<Longrightarrow> under dir (dir @ r)"
  by (simp add: under_def)

lemma renameDir_keeps:
  assumes "budget_ok b" and "target_free to b" and "renameDir b os fro to = Inr b'"
  shows "budget_ok b' \<and> used b' = used b \<and> limit b' = limit b"
proof -
  have b': "b' = move_under fro to (files b) b"
    using assms(3) by (auto simp: renameDir_def split: sum.splits)
  have "to @ drop (length fro) p \<notin> fst ` set (files b)" if "under fro p" for p
  proof -
    have "drop (length fro) p \<noteq> []" using that by (simp add: under_def)
    then have "under to (to @ drop (length fro) p)" by (rule under_append)
    with assms(2) show ?thesis by (auto simp: target_free_def list_all_iff)
  qed
  then show ?thesis
    using move_under_keeps [of "files b" fro b to] assms(1) b' by (simp add: budget_ok_def)
qed

interpretation renameDir_op: budget_op "\<lambda>b. renameDir b os fro to" "target_free to"
  by unfold_locales (use renameDir_keeps in \<open>force simp: within_limit_def\<close>)+

section \<open>Runs of the accounting\<close>

text \<open>One operation of a worker on its budget; a refused operation leaves the budget as it was.\<close>

inductive budget_step :: "diskBudget \<Rightarrow> diskBudget \<Rightarrow> bool" where
  step_reserve: "reserve b p n = Inr b' \<Longrightarrow> budget_step b b'"
| step_removeFile: "removeFile b os p = Inr b' \<Longrightarrow> budget_step b b'"
| step_removeDir: "removeDir b os dir = Inr b' \<Longrightarrow> budget_step b b'"
| step_renameDir: "target_free to b \<Longrightarrow> renameDir b os fro to = Inr b' \<Longrightarrow> budget_step b b'"

lemma budget_step_keeps:
  "budget_step b b' \<Longrightarrow> budget_ok b \<and> within_limit b \<Longrightarrow>
     budget_ok b' \<and> within_limit b' \<and> limit b' = limit b"
proof (induction rule: budget_step.induct)
  case (step_reserve b p n b')
  then show ?case by (intro reserve_op.keeps_all) simp_all
next
  case (step_removeFile b os p b')
  then show ?case by (intro removeFile_op.keeps_all) simp_all
next
  case (step_removeDir b os dir b')
  then show ?case by (intro removeDir_op.keeps_all) simp_all
next
  case (step_renameDir to b os fro b')
  then show ?case by (intro renameDir_op.keeps_all) simp_all
qed

lemma budget_steps_keep:
  "budget_step\<^sup>*\<^sup>* b b' \<Longrightarrow> budget_ok b \<and> within_limit b \<Longrightarrow>
     budget_ok b' \<and> within_limit b' \<and> limit b' = limit b"
  by (induction rule: rtranclp_induct) (auto dest: budget_step_keeps)

lemma seed_ok:
  assumes "distinct (map fst found)" and "nonneg found"
    and "fst ` set found \<inter> fst ` set (files b) = {}"
    and "distinct (map fst (files b))" and "nonneg (files b)" and "used b = total (files b)"
  shows "let b' = foldl (\<lambda>b (p, sz). b\<lparr>files := set_size p sz (files b), used := used b + sz\<rparr>) b found
    in distinct (map fst (files b')) \<and> nonneg (files b') \<and> used b' = total (files b')
       \<and> used b' = used b + total found \<and> limit b' = limit b"
  using assms
proof (induction found arbitrary: b)
  case (Cons x found)
  obtain p n where x: "x = (p, n)" by (cases x)
  define b1 where "b1 = b\<lparr>files := set_size p n (files b), used := used b + n\<rparr>"
  have fresh: "p \<notin> fst ` set (files b)" using Cons.prems(3) x by auto
  have "0 \<le> n" using Cons.prems(2) x by (simp add: nonneg_def)
  then have "let b' = foldl (\<lambda>b (p, sz). b\<lparr>files := set_size p sz (files b), used := used b + sz\<rparr>) b1 found
      in distinct (map fst (files b')) \<and> nonneg (files b') \<and> used b' = total (files b')
         \<and> used b' = used b1 + total found \<and> limit b' = limit b1"
    using Cons.prems x fresh
    by (intro Cons.IH)
      (auto simp: b1_def nonneg_def nonneg_set_size [unfolded nonneg_def] distinct_set_size
        total_set_size set_set_size_fresh)
  then show ?case by (simp add: x b1_def Let_def)
qed simp

lemma newDiskBudget_ok:
  assumes "newDiskBudget raw found = Inr b" and "distinct (map fst found)" and "nonneg found"
    and "total found \<le> MaxInt64"
  shows "budget_ok b \<and> used b = total found"
proof -
  have seed: "let b' = foldl (\<lambda>b (p, sz). b\<lparr>files := set_size p sz (files b), used := used b + sz\<rparr>)
      \<lparr>limit = l, used = 0, files = []\<rparr> found
    in distinct (map fst (files b')) \<and> nonneg (files b') \<and> used b' = total (files b')
       \<and> used b' = 0 + total found \<and> limit b' = l" for l
    using seed_ok [of found "\<lparr>limit = l, used = 0, files = []\<rparr>"] assms(2,3)
    by (simp add: nonneg_def)
  obtain l where
    "b = foldl (\<lambda>b (p, sz). b\<lparr>files := set_size p sz (files b), used := used b + sz\<rparr>)
      \<lparr>limit = l, used = 0, files = []\<rparr> found"
    using assms(1) by (auto simp: newDiskBudget_def Let_def split: option.splits if_splits)
  with seed [of l] assms(4) show ?thesis by (simp add: budget_ok_def Let_def)
qed

section \<open>Properties\<close>



end
