(* ===== verification/Bucket_Files.thy ===== *)
theory Bucket_Files
  imports Disk_Budget
begin

text \<open>
  The on-disk format of shuffle buckets, sort runs and checkpoints: \<^verbatim>\<open>record_stream.go\<close> (the
  incremental writer and the reader), the bucket file functions of \<^verbatim>\<open>shuffle_disk.go\<close>, the
  verification of a fetched bucket in \<^verbatim>\<open>shuffle_download.go\<close> and the cancelling codec of
  \<^verbatim>\<open>cancel_codec.go\<close>. A file is its list of bytes. The record codec (gob) is a pair of
  functions; a fault of the operating system below a read or write is not modelled.
\<close>

unbundle bit_operations_syntax

section \<open>Encodings\<close>

text \<open>\<^verbatim>\<open>binary.BigEndian.PutUint32\<close> and \<^verbatim>\<open>Uint32\<close>.\<close>

definition put_uint32 :: "uint32 \<Rightarrow> byte list" where
  "put_uint32 w = [ucast (drop_bit 24 w), ucast (drop_bit 16 w), ucast (drop_bit 8 w), ucast w]"

fun get_uint32 :: "byte list \<Rightarrow> uint32" where
  "get_uint32 [a, b, c, d] =
     push_bit 24 (ucast a) OR push_bit 16 (ucast b) OR push_bit 8 (ucast c) OR ucast d"
| "get_uint32 _ = 0"

text \<open>\<^verbatim>\<open>hash/crc32\<close> with the IEEE polynomial: \<^verbatim>\<open>crc32.Update\<close> one byte, one bit at a time.\<close>

definition crc_bit :: "uint32 \<Rightarrow> uint32" where
  "crc_bit c = (if c AND 1 = 1 then drop_bit 1 c XOR 0xEDB88320 else drop_bit 1 c)"

definition crc_byte :: "uint32 \<Rightarrow> byte \<Rightarrow> uint32" where
  "crc_byte c b = (crc_bit ^^ 8) ((c AND 0xFF) XOR ucast b) XOR drop_bit 8 c"

definition crc_update :: "uint32 \<Rightarrow> byte list \<Rightarrow> uint32" where
  "crc_update c p = NOT (foldl crc_byte (NOT c) p)"

definition crc_checksum :: "byte list \<Rightarrow> uint32" where
  "crc_checksum p = crc_update 0 p"

definition shuffleMagic :: "byte list" where
  "shuffleMagic = [0x47, 0x53, 0x48, 0x31]"

definition defaultRecordBytes :: nat where
  "defaultRecordBytes = 4 * 2 ^ 20"

section \<open>The codec\<close>

text \<open>\<open>enc\<close> and \<open>dec\<close> stand for \<^verbatim>\<open>RecordCodec.Encode\<close> and \<^verbatim>\<open>Decode\<close>; the code relies on this.\<close>

definition codec_ok :: "('v \<Rightarrow> byte list res) \<Rightarrow> (byte list \<Rightarrow> 'v res) \<Rightarrow> bool" where
  "codec_ok enc dec \<longleftrightarrow> (\<forall>v p. enc v = Inr p \<longrightarrow> dec p = Inr v)"

text \<open>\<^verbatim>\<open>cancelCodec\<close>: both directions fail once the task's context is cancelled.\<close>

definition cancel_enc :: "goerr option \<Rightarrow> ('v \<Rightarrow> byte list res) \<Rightarrow> 'v \<Rightarrow> byte list res" where
  "cancel_enc ctx enc v = (case ctx of Some e \<Rightarrow> Inl e | None \<Rightarrow> enc v)"

definition cancel_dec :: "goerr option \<Rightarrow> (byte list \<Rightarrow> 'v res) \<Rightarrow> byte list \<Rightarrow> 'v res" where
  "cancel_dec ctx dec p = (case ctx of Some e \<Rightarrow> Inl e | None \<Rightarrow> dec p)"

section \<open>Bucket metadata\<close>

record ShuffleBucketMeta =
  ReduceID :: int
  Bytes :: int
  Records :: int
  Checksum :: uint32

definition recordLimit :: "nat \<Rightarrow> nat \<Rightarrow> unit res" where
  "recordLimit sz lim =
     (if sz > lim then Inl (Err ''encoded record size exceeds limit'') else Inr ())"

section \<open>The incremental writer\<close>

text \<open>
  \<open>bw_data\<close> is what the file holds once the buffer is flushed; \<open>bw_open\<close> says whether the
  writer holds a file handle.
\<close>

record bucketWriter =
  bw_path :: path
  bw_open :: bool
  bw_data :: "byte list"
  bw_count :: uint32
  bw_size :: int
  bw_checksum :: uint32
  bw_unsynced :: int

definition newBucketWriter ::
  "path \<Rightarrow> diskBudget option \<Rightarrow> (bucketWriter \<times> diskBudget option) res" where
  "newBucketWriter p budget =
     bindR (reserve_opt budget p 8) (\<lambda>budget'.
       Inr (\<lparr>bw_path = p, bw_open = False, bw_data = shuffleMagic @ [0, 0, 0, 0],
             bw_count = 0, bw_size = 8, bw_checksum = 0, bw_unsynced = 0\<rparr>, budget'))"

definition frame :: "byte list \<Rightarrow> byte list" where
  "frame payload =
     put_uint32 (word_of_nat (length payload)) @ put_uint32 (crc_checksum payload) @ payload"

definition bw_append ::
  "bucketWriter \<Rightarrow> diskBudget option \<Rightarrow> byte list \<Rightarrow> (bucketWriter \<times> diskBudget option) res" where
  "bw_append w budget payload =
     (if bw_count w = NOT 0 then Inl (Err ''shuffle bucket record count exceeds GSH1 limit'')
      else
        bindR (reserve_opt budget (bw_path w) (int (length payload) + 8)) (\<lambda>budget'.
          let unsynced = bw_unsynced w + int (length payload) + 8 in
          Inr (w\<lparr>bw_open := True,
                 bw_data := bw_data w @ frame payload,
                 bw_count := bw_count w + 1,
                 bw_size := bw_size w + int (length payload + 8),
                 bw_checksum := crc_update (bw_checksum w) payload,
                 bw_unsynced := (if unsynced \<ge> 2 ^ 20 then 0 else unsynced)\<rparr>, budget')))"

definition bw_suspend :: "bucketWriter \<Rightarrow> bucketWriter" where
  "bw_suspend w = (if \<not> bw_open w then w else w\<lparr>bw_open := False, bw_unsynced := 0\<rparr>)"

text \<open>\<^verbatim>\<open>finish\<close> patches the record count into bytes 4 to 7.\<close>

definition bw_finish :: "bucketWriter \<Rightarrow> ShuffleBucketMeta \<times> bucketWriter" where
  "bw_finish w =
     (let w1 = bw_suspend w;
          w2 = w1\<lparr>bw_data := take 4 (bw_data w1) @ put_uint32 (bw_count w1) @ drop 8 (bw_data w1)\<rparr>
      in (\<lparr>ReduceID = 0, Bytes = bw_size w2, Records = uint (bw_count w2),
           Checksum = bw_checksum w2\<rparr>, w2))"

section \<open>The reader\<close>

record bucketReader =
  br_data :: "byte list"
  br_remaining :: uint32
  br_max :: nat
  br_closed :: bool
  br_checksum :: uint32

text \<open>\<^verbatim>\<open>io.ReadFull\<close>: EOF only when no byte was read.\<close>

definition read_full :: "nat \<Rightarrow> byte list \<Rightarrow> (byte list \<times> byte list) res" where
  "read_full n bs =
     (if n = 0 then Inr ([], bs)
      else if bs = [] then Inl EOF
      else if length bs < n then Inl (Err ''unexpected EOF'')
      else Inr (take n bs, drop n bs))"

definition openBucket :: "byte list \<Rightarrow> nat \<Rightarrow> bucketReader res" where
  "openBucket source mx =
     bindR (read_full 8 source) (\<lambda>(header, rest).
       if take 4 header \<noteq> shuffleMagic then Inl (Err ''invalid shuffle magic'')
       else Inr \<lparr>br_data = rest, br_remaining = get_uint32 (drop 4 header), br_max = mx,
                 br_closed = False, br_checksum = 0\<rparr>)"

definition br_Next :: "(byte list \<Rightarrow> 'v res) \<Rightarrow> bucketReader \<Rightarrow> 'v res \<times> bucketReader" where
  "br_Next dec r =
     (if br_closed r then (Inl EOF, r)
      else if br_remaining r = 0 then
        (if br_data r = [] then (Inl EOF, r\<lparr>br_closed := True\<rparr>)
         else (Inl (Err ''trailing shuffle bytes''), r\<lparr>br_closed := True\<rparr>))
      else
        case read_full 8 (br_data r) of
          Inl e \<Rightarrow> (Inl e, r\<lparr>br_data := []\<rparr>)
        | Inr (hdr, rest) \<Rightarrow>
            let n = unat (get_uint32 (take 4 hdr)) in
            if n > br_max r then (Inl (Err ''shuffle record exceeds limit''), r\<lparr>br_data := rest\<rparr>)
            else
              case read_full n rest of
                Inl e \<Rightarrow> (Inl e, r\<lparr>br_data := []\<rparr>)
              | Inr (p, rest') \<Rightarrow>
                  if crc_checksum p \<noteq> get_uint32 (drop 4 hdr)
                  then (Inl (Err ''shuffle record checksum mismatch''), r\<lparr>br_data := rest'\<rparr>)
                  else (dec p, r\<lparr>br_data := rest', br_remaining := br_remaining r - 1,
                                 br_checksum := crc_update (br_checksum r) p\<rparr>))"

lemma read_full_Inr:
  "read_full n bs = Inr (p, rest) \<Longrightarrow> bs = p @ rest \<and> length p = n"
  by (auto simp: read_full_def split: if_splits)

lemma br_Next_decreases:
  assumes "br_Next dec r = (Inr v, r')"
  shows "length (br_data r') < length (br_data r)"
  using assms
  by (auto simp: br_Next_def Let_def split: if_splits sum.splits prod.splits dest!: read_full_Inr)

text \<open>The loop of \<^verbatim>\<open>readBucketFile\<close> from an open reader.\<close>

function read_records ::
  "(byte list \<Rightarrow> 'v res) \<Rightarrow> bucketReader \<Rightarrow> 'v list \<Rightarrow> 'v list res \<times> bucketReader" where
  "read_records dec r out =
     (case br_Next dec r of
        (Inl e, r') \<Rightarrow> (if e = EOF then Inr out else Inl e, r')
      | (Inr v, r') \<Rightarrow> read_records dec r' (out @ [v]))"
  by pat_completeness auto
termination
  by (relation "measure (\<lambda>(dec, r, out). length (br_data r))") (auto intro: br_Next_decreases dest: sym)

declare read_records.simps [simp del]

lemma read_records_prefix:
  "fst (read_records dec r out) = Inr xs \<Longrightarrow> \<exists>ys. xs = out @ ys"
proof (induction dec r out rule: read_records.induct)
  case (1 dec r out)
  then show ?case
    by (subst (asm) (2) read_records.simps) (fastforce split: prod.splits sum.splits if_splits)
qed

definition readBucketFile :: "(byte list \<Rightarrow> 'v res) \<Rightarrow> byte list \<Rightarrow> 'v list res" where
  "readBucketFile dec source =
     bindR (openBucket source defaultRecordBytes) (\<lambda>r. fst (read_records dec r []))"

text \<open>The one-shot writer.\<close>

fun write_records ::
  "('v \<Rightarrow> byte list res) \<Rightarrow> 'v list \<Rightarrow> byte list \<Rightarrow> byte list \<Rightarrow> (byte list \<times> byte list) res" where
  "write_records enc [] file hashed = Inr (file, hashed)"
| "write_records enc (rec # recs) file hashed =
     bindR (enc rec) (\<lambda>payload. write_records enc recs (file @ frame payload) (hashed @ payload))"

definition writeBucketFile ::
  "('v \<Rightarrow> byte list res) \<Rightarrow> 'v list \<Rightarrow> (ShuffleBucketMeta \<times> byte list) res" where
  "writeBucketFile enc recs =
     bindR (write_records enc recs (shuffleMagic @ put_uint32 (word_of_nat (length recs))) [])
       (\<lambda>(file, hashed).
          Inr (\<lparr>ReduceID = 0, Bytes = int (length file), Records = int (length recs),
                Checksum = crc_checksum hashed\<rparr>, file))"

section \<open>Verification of a fetched bucket\<close>

text \<open>
  \<^verbatim>\<open>cacheShuffleBucket\<close> after the source (a response body or a local file) is open: copy at most
  the announced bytes, insist that there were exactly as many, then read every record and
  compare their number and checksum with the manifest. \<open>scratch\<close> is the temporary file; it is
  removed again when the bucket is refused.
\<close>

definition cacheShuffleBucket ::
  "(byte list \<Rightarrow> 'v res) \<Rightarrow> diskBudget option \<Rightarrow> nat \<Rightarrow> byte list \<Rightarrow> ShuffleBucketMeta \<Rightarrow> path
     \<Rightarrow> byte list res \<times> diskBudget option" where
  "cacheShuffleBucket dec budget mx src meta scratch =
     (case reserve_opt budget scratch (Bytes meta) of
        Inl e \<Rightarrow> (Inl e, budget)
      | Inr budget1 \<Rightarrow>
          let refuse = (case budget1 of None \<Rightarrow> None
                        | Some b \<Rightarrow> (case removeFile b (Inr ()) scratch of
                                       Inl _ \<Rightarrow> Some b | Inr b' \<Rightarrow> Some b'));
              file = take (nat (Bytes meta)) src;
              more = drop (nat (Bytes meta)) src in
          if int (length file) \<noteq> Bytes meta \<or> more \<noteq> []
          then (Inl (Err ''shuffle size mismatch''), refuse)
          else case openBucket file mx of
            Inl e \<Rightarrow> (Inl e, refuse)
          | Inr r \<Rightarrow>
              (case read_records dec r [] of
                 (Inl e, _) \<Rightarrow> (Inl e, refuse)
               | (Inr vs, r') \<Rightarrow>
                   if int (length vs) \<noteq> Records meta \<or> br_checksum r' \<noteq> Checksum meta
                   then (Inl (Err ''shuffle manifest checksum/count mismatch''), refuse)
                   else (Inr file, budget1)))"

text \<open>
  Encode and append a list of records, as the run writer of the external sort, the checkpoint
  writer and the shuffle writer do record by record.
\<close>

fun bw_append_all ::
  "('v \<Rightarrow> byte list res) \<Rightarrow> bucketWriter \<Rightarrow> diskBudget option \<Rightarrow> 'v list
     \<Rightarrow> (bucketWriter \<times> diskBudget option) res" where
  "bw_append_all enc w budget [] = Inr (w, budget)"
| "bw_append_all enc w budget (v # vs) =
     bindR (enc v) (\<lambda>p. bindR (bw_append w budget p) (\<lambda>(w', budget').
       bw_append_all enc w' budget' vs))"

definition write_run ::
  "('v \<Rightarrow> byte list res) \<Rightarrow> path \<Rightarrow> diskBudget option \<Rightarrow> 'v list
     \<Rightarrow> (ShuffleBucketMeta \<times> byte list \<times> diskBudget option) res" where
  "write_run enc p budget vs =
     bindR (newBucketWriter p budget) (\<lambda>(w, budget1).
       bindR (bw_append_all enc w budget1 vs) (\<lambda>(w', budget2).
         let (meta, w'') = bw_finish w' in Inr (meta, bw_data w'', budget2)))"

section \<open>Round trips of the encodings\<close>

lemma length_put_uint32 [simp]: "length (put_uint32 w) = 4"
  by (simp add: put_uint32_def)

lemma get_put_uint32 [simp]: "get_uint32 (put_uint32 w) = w"
proof (rule bit_word_eqI)
  fix n assume "n < LENGTH(32)"
  then consider "n < 8" | "8 \<le> n" "n < 16" | "16 \<le> n" "n < 24" | "24 \<le> n" "n < 32" by fastforce
  then show "bit (get_uint32 (put_uint32 w)) n = bit w n"
    by cases (auto simp: put_uint32_def bit_simps)
qed

lemma crc_update_append: "crc_update c (p @ q) = crc_update (crc_update c p) q"
  by (simp add: crc_update_def)

lemma crc_update_Nil [simp]: "crc_update c [] = c"
  by (simp add: crc_update_def)

lemma length_frame: "length (frame p) = length p + 8"
  by (simp add: frame_def)

lemma length_shuffleMagic [simp]: "length shuffleMagic = 4"
  by (simp add: shuffleMagic_def)

lemma read_full_append: "length p = n \<Longrightarrow> 0 < n \<Longrightarrow> read_full n (p @ rest) = Inr (p, rest)"
  by (auto simp: read_full_def)

lemma read_full_payload: "read_full (length p) (p @ rest) = Inr (p, rest)"
  by (auto simp: read_full_def)

lemma read_full_header:
  "read_full 8 (put_uint32 a @ put_uint32 b @ rest) = Inr (put_uint32 a @ put_uint32 b, rest)"
  using read_full_append [of "put_uint32 a @ put_uint32 b" 8 rest] by simp

text \<open>One record is read back as it was framed.\<close>

lemma br_Next_frame:
  assumes "br_data r = frame p @ rest" and "\<not> br_closed r" and "br_remaining r \<noteq> 0"
    and "length p \<le> br_max r" and "length p < 2 ^ 32"
  shows "br_Next dec r = (dec p, r\<lparr>br_data := rest, br_remaining := br_remaining r - 1,
      br_checksum := crc_update (br_checksum r) p\<rparr>)"
proof -
  have len: "unat (word_of_nat (length p) :: uint32) = length p"
    using assms(5) by (simp add: unat_word32)
  have hdr: "read_full 8 (br_data r)
      = Inr (put_uint32 (word_of_nat (length p)) @ put_uint32 (crc_checksum p), p @ rest)"
    using assms(1) read_full_header by (simp add: frame_def)
  show ?thesis
    using assms(2-4) by (simp add: br_Next_def hdr len read_full_payload)
qed

lemma br_Next_end:
  assumes "br_data r = []" and "\<not> br_closed r" and "br_remaining r = 0"
  shows "br_Next dec r = (Inl EOF, r\<lparr>br_closed := True\<rparr>)"
  using assms by (simp add: br_Next_def)

text \<open>Payloads that fit the reader's limit.\<close>

definition fits :: "nat \<Rightarrow> byte list list \<Rightarrow> bool" where
  "fits mx ps \<longleftrightarrow> (\<forall>p \<in> set ps. length p \<le> mx \<and> length p < 2 ^ 32)"

definition encoded :: "('v \<Rightarrow> byte list res) \<Rightarrow> 'v list \<Rightarrow> byte list list \<Rightarrow> bool" where
  "encoded enc vs ps \<longleftrightarrow> list_all2 (\<lambda>v p. enc v = Inr p) vs ps"

lemma encoded_Nil [simp]: "encoded enc [] ps \<longleftrightarrow> ps = []"
  and encoded_Cons: "encoded enc (v # vs) ps \<longleftrightarrow> (\<exists>p qs. ps = p # qs \<and> enc v = Inr p \<and> encoded enc vs qs)"
  by (auto simp: encoded_def list_all2_Cons1)

lemma encoded_length: "encoded enc vs ps \<Longrightarrow> length ps = length vs"
  by (simp add: encoded_def list_all2_lengthD)

lemma encoded_unique: "encoded enc vs ps \<Longrightarrow> encoded enc vs qs \<Longrightarrow> qs = ps"
  by (induction vs arbitrary: ps qs) (auto simp: encoded_Cons)

lemma encoded_append:
  "encoded enc (us @ vs) ps \<longleftrightarrow> (\<exists>qs rs. ps = qs @ rs \<and> encoded enc us qs \<and> encoded enc vs rs)"
  unfolding encoded_def list_all2_append1 by (metis list_all2_lengthD)

lemma read_records_frames:
  assumes "codec_ok enc dec" and "encoded enc vs ps" and "fits (br_max r) ps"
    and "br_data r = concat (map frame ps)" and "\<not> br_closed r"
    and "br_remaining r = word_of_nat (length ps)" and "length ps < 2 ^ 32"
  shows "read_records dec r out =
    (Inr (out @ vs), r\<lparr>br_data := [], br_remaining := 0, br_closed := True,
       br_checksum := crc_update (br_checksum r) (concat ps)\<rparr>)"
  using assms
proof (induction vs arbitrary: ps r out)
  case Nil
  then show ?case
    by (subst read_records.simps) (simp add: br_Next_end)
next
  case (Cons v vs)
  then obtain p qs where ps: "ps = p # qs" and p: "enc v = Inr p" and qs: "encoded enc vs qs"
    by (auto simp: encoded_Cons)
  have nz: "(word_of_nat (length ps) :: uint32) \<noteq> 0"
    using Cons.prems(7) ps by (simp add: word_of_nat_eq_0_iff nat_dvd_not_less del: of_nat_Suc)
  have dec: "dec p = Inr v" using Cons.prems(1) p by (simp add: codec_ok_def)
  define r' where "r' = r\<lparr>br_data := concat (map frame qs), br_remaining := br_remaining r - 1,
      br_checksum := crc_update (br_checksum r) p\<rparr>"
  have step: "br_Next dec r = (Inr v, r')"
    using br_Next_frame [of r p "concat (map frame qs)" dec] Cons.prems ps nz dec
    by (simp add: r'_def fits_def)
  have rest: "read_records dec r' (out @ [v]) =
      (Inr ((out @ [v]) @ vs), r'\<lparr>br_data := [], br_remaining := 0, br_closed := True,
         br_checksum := crc_update (br_checksum r') (concat qs)\<rparr>)"
    by (rule Cons.IH [OF Cons.prems(1) qs]) (use Cons.prems ps in \<open>auto simp: r'_def fits_def\<close>)
  have "read_records dec r out = read_records dec r' (out @ [v])"
    by (subst read_records.simps) (simp add: step)
  then show ?case unfolding rest by (simp add: r'_def ps crc_update_append)
qed

text \<open>The bytes of a bucket file that holds the payloads \<open>ps\<close>, and the metadata that describes it.\<close>

definition bucket_bytes :: "byte list list \<Rightarrow> byte list" where
  "bucket_bytes ps =
     shuffleMagic @ put_uint32 (word_of_nat (length ps)) @ concat (map frame ps)"

definition bucket_meta :: "byte list list \<Rightarrow> ShuffleBucketMeta" where
  "bucket_meta ps =
     \<lparr>ReduceID = 0, Bytes = int (length (bucket_bytes ps)), Records = int (length ps),
      Checksum = crc_checksum (concat ps)\<rparr>"

lemma openBucket_bytes:
  "openBucket (bucket_bytes ps) mx =
     Inr \<lparr>br_data = concat (map frame ps), br_remaining = word_of_nat (length ps), br_max = mx,
          br_closed = False, br_checksum = 0\<rparr>"
proof -
  have "read_full 8 (bucket_bytes ps)
      = Inr (shuffleMagic @ put_uint32 (word_of_nat (length ps)), concat (map frame ps))"
    using read_full_append [of "shuffleMagic @ put_uint32 (word_of_nat (length ps))" 8]
    by (simp add: bucket_bytes_def)
  then show ?thesis by (simp add: openBucket_def)
qed

lemma write_records_encoded:
  "encoded enc vs ps \<Longrightarrow> write_records enc vs bs h = Inr (bs @ concat (map frame ps), h @ concat ps)"
  by (induction vs arbitrary: ps bs h) (auto simp: encoded_Cons)

lemma write_records_Inr:
  "write_records enc vs bs h = Inr x \<Longrightarrow> \<exists>ps. encoded enc vs ps"
  by (induction vs arbitrary: bs h) (fastforce simp: encoded_Cons bindR_Inr_conv)+

lemma writeBucketFile_encoded:
  assumes "encoded enc vs ps"
  shows "writeBucketFile enc vs = Inr (bucket_meta ps, bucket_bytes ps)"
  using assms encoded_length [OF assms]
  by (simp add: writeBucketFile_def write_records_encoded bucket_bytes_def bucket_meta_def)

lemma writeBucketFile_Inr:
  assumes "writeBucketFile enc vs = Inr (meta, bs)"
  shows "\<exists>ps. encoded enc vs ps \<and> meta = bucket_meta ps \<and> bs = bucket_bytes ps"
proof -
  from assms obtain ps where ps: "encoded enc vs ps"
    by (auto simp: writeBucketFile_def bindR_Inr_conv dest!: write_records_Inr)
  with assms writeBucketFile_encoded [OF ps] show ?thesis by auto
qed

lemma encoded_fits_limit:
  assumes "encoded enc vs ps" and "\<forall>v \<in> set vs. \<forall>p. enc v = Inr p \<longrightarrow> length p \<le> mx"
    and "mx < 2 ^ 32"
  shows "fits mx ps"
  using assms(1,2)
  by (induction vs arbitrary: ps) (use assms(3) in \<open>auto simp: encoded_Cons fits_def\<close>)

lemma readBucketFile_bytes:
  assumes "codec_ok enc dec" and "encoded enc vs ps" and "fits defaultRecordBytes ps"
    and "length vs < 2 ^ 32"
  shows "readBucketFile dec (bucket_bytes ps) = Inr vs"
  using assms encoded_length [OF assms(2)]
  by (simp add: readBucketFile_def openBucket_bytes read_records_frames)

section \<open>The incremental writer produces the same file\<close>

definition bw_holds :: "bucketWriter \<Rightarrow> byte list list \<Rightarrow> bool" where
  "bw_holds w ps \<longleftrightarrow> bw_data w = shuffleMagic @ [0, 0, 0, 0] @ concat (map frame ps)
     \<and> bw_count w = word_of_nat (length ps) \<and> bw_size w = int (length (bucket_bytes ps))
     \<and> bw_checksum w = crc_checksum (concat ps) \<and> length ps < 2 ^ 32"

lemma newBucketWriter_holds:
  "newBucketWriter p budget = Inr (w, budget') \<Longrightarrow> bw_holds w []"
  by (auto simp: newBucketWriter_def bindR_Inr_conv bw_holds_def bucket_bytes_def crc_checksum_def)

text \<open>The count limit keeps the 32-bit counter from wrapping around.\<close>

lemma bw_count_max: "n < 2 ^ 32 \<Longrightarrow> (word_of_nat n :: uint32) \<noteq> NOT 0 \<Longrightarrow> Suc n < 2 ^ 32"
proof (rule ccontr)
  assume n: "n < 2 ^ 32" and ne: "(word_of_nat n :: uint32) \<noteq> NOT 0" and "\<not> Suc n < 2 ^ 32"
  then have "n = 2 ^ 32 - 1" by simp
  then have "unat (word_of_nat n :: uint32) = unat (NOT 0 :: uint32)"
    using n by (simp add: unat_word32 unsigned_minus_1_eq_mask mask_eq_exp_minus_1)
  then have "(word_of_nat n :: uint32) = NOT 0" by (rule word_unat_eq_iff [THEN iffD2])
  with ne show False by blast
qed

lemma bw_append_holds:
  "bw_holds w ps \<Longrightarrow> bw_append w budget p = Inr (w', budget') \<Longrightarrow> bw_holds w' (ps @ [p])"
  using bw_count_max [of "length ps"]
  by (auto simp: bw_append_def bindR_Inr_conv bw_holds_def bucket_bytes_def length_frame Let_def
      crc_checksum_def crc_update_append split: if_splits)

lemma bw_append_all_holds:
  "bw_holds w ps \<Longrightarrow> bw_append_all enc w budget vs = Inr (w', budget') \<Longrightarrow>
     \<exists>qs. encoded enc vs qs \<and> bw_holds w' (ps @ qs)"
proof (induction vs arbitrary: w budget ps)
  case (Cons v vs)
  then obtain p w1 b1 where v: "enc v = Inr p" and w1: "bw_append w budget p = Inr (w1, b1)"
    and rest: "bw_append_all enc w1 b1 vs = Inr (w', budget')"
    by (auto simp: bindR_Inr_conv)
  from Cons.IH [OF bw_append_holds [OF Cons.prems(1) w1] rest] obtain qs where
    "encoded enc vs qs" "bw_holds w' ((ps @ [p]) @ qs)" by blast
  with v show ?case by (intro exI [of _ "p # qs"]) (simp add: encoded_Cons)
qed (auto intro: exI [of _ "[]"])

lemma bw_finish_holds:
  assumes "bw_holds w ps"
  shows "bw_finish w = (bucket_meta ps, (bw_suspend w)\<lparr>bw_data := bucket_bytes ps\<rparr>)"
proof -
  have s: "bw_holds (bw_suspend w) ps" using assms by (simp add: bw_holds_def bw_suspend_def)
  have "uint (word_of_nat (length ps) :: uint32) = int (length ps)"
    using assms by (simp add: uint_nat unat_word32 bw_holds_def)
  with s show ?thesis
    by (simp add: bw_finish_def Let_def bw_holds_def bucket_meta_def bucket_bytes_def)
qed

lemma write_run_eq:
  assumes "write_run enc p budget vs = Inr (meta, file, budget')"
  shows "\<exists>ps. encoded enc vs ps \<and> meta = bucket_meta ps \<and> file = bucket_bytes ps"
proof -
  from assms obtain w b1 w' where nw: "newBucketWriter p budget = Inr (w, b1)"
    and ap: "bw_append_all enc w b1 vs = Inr (w', budget')"
    and fin: "meta = fst (bw_finish w')" "file = bw_data (snd (bw_finish w'))"
    by (auto simp: write_run_def bindR_Inr_conv Let_def split_beta)
  obtain ps where ps: "encoded enc vs ps" "bw_holds w' ([] @ ps)"
    using bw_append_all_holds [OF newBucketWriter_holds [OF nw] ap] by blast
  have "bw_finish w' = (bucket_meta ps, (bw_suspend w')\<lparr>bw_data := bucket_bytes ps\<rparr>)"
    using bw_finish_holds [of w' ps] ps by simp
  with fin ps(1) show ?thesis by auto
qed

text \<open>Without a budget and below the count limit the writer never fails on encodable records.\<close>

lemma bw_append_ok:
  "bw_holds w ps \<Longrightarrow> length ps < 2 ^ 32 - 1 \<Longrightarrow> \<exists>w'. bw_append w None p = Inr (w', None)"
proof -
  assume "bw_holds w ps" and len: "length ps < 2 ^ 32 - 1"
  then have "bw_count w = word_of_nat (length ps)" by (simp add: bw_holds_def)
  moreover have "unat (word_of_nat (length ps) :: uint32) \<noteq> unat (NOT 0 :: uint32)"
    using len by (simp add: unat_word32 unsigned_minus_1_eq_mask mask_eq_exp_minus_1)
  ultimately have "bw_count w \<noteq> NOT 0" by metis
  then show ?thesis by (simp add: bw_append_def reserve_opt_def Let_def)
qed

lemma bw_append_all_ok:
  "bw_holds w ps \<Longrightarrow> encoded enc vs qs \<Longrightarrow> length ps + length vs < 2 ^ 32 \<Longrightarrow>
     \<exists>w'. bw_append_all enc w None vs = Inr (w', None)"
proof (induction vs arbitrary: w ps qs)
  case (Cons v vs)
  then obtain p qs' where p: "enc v = Inr p" "encoded enc vs qs'" by (auto simp: encoded_Cons)
  from Cons.prems obtain w1 where w1: "bw_append w None p = Inr (w1, None)"
    using bw_append_ok [of w ps p] by auto
  with Cons.IH [OF bw_append_holds [OF Cons.prems(1) w1] p(2)] Cons.prems p(1) show ?case by simp
qed simp

lemma write_run_ok:
  assumes "encoded enc vs ps" and "length vs < 2 ^ 32"
  shows "write_run enc p None vs = Inr (bucket_meta ps, bucket_bytes ps, None)"
proof -
  obtain w where nw: "newBucketWriter p None = Inr (w, None)"
    by (simp add: newBucketWriter_def reserve_opt_def)
  obtain w' where w': "bw_append_all enc w None vs = Inr (w', None)"
    using bw_append_all_ok [OF newBucketWriter_holds [OF nw] assms(1)] assms(2) by auto
  then have run: "write_run enc p None vs
      = Inr (fst (bw_finish w'), bw_data (snd (bw_finish w')), None)"
    by (simp add: write_run_def nw Let_def split_beta)
  from write_run_eq [OF run] obtain qs where
    "encoded enc vs qs" "fst (bw_finish w') = bucket_meta qs" "bw_data (snd (bw_finish w')) = bucket_bytes qs"
    by blast
  moreover have "qs = ps" by (rule encoded_unique [OF assms(1) \<open>encoded enc vs qs\<close>])
  ultimately show ?thesis using run by simp
qed

section \<open>A fetched bucket is the announced bucket\<close>

lemma cacheShuffleBucket_genuine:
  assumes "codec_ok enc dec" and "encoded enc vs ps" and "fits mx ps" and "length vs < 2 ^ 32"
  shows "cacheShuffleBucket dec None mx (bucket_bytes ps) (bucket_meta ps) scratch
    = (Inr (bucket_bytes ps), None)"
proof -
  have "read_records dec \<lparr>br_data = concat (map frame ps), br_remaining = word_of_nat (length ps),
      br_max = mx, br_closed = False, br_checksum = 0\<rparr> []
    = (Inr ([] @ vs), \<lparr>br_data = [], br_remaining = 0, br_max = mx, br_closed = True,
        br_checksum = crc_update 0 (concat ps)\<rparr>)"
    using read_records_frames [OF assms(1,2), of
        "\<lparr>br_data = concat (map frame ps), br_remaining = word_of_nat (length ps),
          br_max = mx, br_closed = False, br_checksum = 0\<rparr>" "[]"] assms
    by (simp add: encoded_length)
  then show ?thesis
    using encoded_length [OF assms(2)]
    by (simp add: cacheShuffleBucket_def reserve_opt_def openBucket_bytes bucket_meta_def Let_def
        crc_checksum_def)
qed

lemma cacheShuffleBucket_exact:
  "fst (cacheShuffleBucket dec budget mx src meta scratch) = Inr file \<Longrightarrow>
     file = src \<and> int (length src) = Bytes meta"
  by (auto simp: cacheShuffleBucket_def Let_def split: sum.splits if_splits prod.splits)

section \<open>Truncated files\<close>

text \<open>
  A file cut off right before a record ends its reader with a plain EOF, although the header
  announces more records.
\<close>

lemma read_records_truncated:
  assumes "codec_ok enc dec" and "encoded enc vs ps" and "fits (br_max r) ps"
    and "br_data r = concat (map frame ps)" and "\<not> br_closed r"
    and "length ps < unat (br_remaining r)"
  shows "fst (read_records dec r out) = Inr (out @ vs)"
  using assms
proof (induction vs arbitrary: ps r out)
  case Nil
  then have "br_Next dec r = (Inl EOF, r\<lparr>br_data := []\<rparr>)"
    by (auto simp: br_Next_def read_full_def)
  then show ?case by (subst read_records.simps) simp
next
  case (Cons v vs)
  then obtain p qs where ps: "ps = p # qs" and p: "enc v = Inr p" and qs: "encoded enc vs qs"
    by (auto simp: encoded_Cons)
  have nz: "br_remaining r \<noteq> 0" using Cons.prems(6) by auto
  have dec: "dec p = Inr v" using Cons.prems(1) p by (simp add: codec_ok_def)
  define r' where "r' = r\<lparr>br_data := concat (map frame qs), br_remaining := br_remaining r - 1,
      br_checksum := crc_update (br_checksum r) p\<rparr>"
  have step: "br_Next dec r = (Inr v, r')"
    using br_Next_frame [of r p "concat (map frame qs)" dec] Cons.prems ps nz dec
    by (simp add: r'_def fits_def)
  have "unat (br_remaining r - 1) = unat (br_remaining r) - 1"
    using nz by (simp add: unat_minus_one)
  then have "fst (read_records dec r' (out @ [v])) = Inr ((out @ [v]) @ vs)"
    by (intro Cons.IH [OF Cons.prems(1) qs])
      (use Cons.prems ps in \<open>auto simp: r'_def fits_def\<close>)
  then show ?case by (subst read_records.simps) (simp add: step)
qed

section \<open>Properties\<close>

text \<open>A codec for single bytes, to instantiate the codec in the witnesses.\<close>

definition byteEncode :: "byte \<Rightarrow> byte list res" where
  "byteEncode b = Inr [b]"

definition byteDecode :: "byte list \<Rightarrow> byte res" where
  "byteDecode p = (case p of [b] \<Rightarrow> Inr b | _ \<Rightarrow> Inl (Err ''decode''))"

lemma byte_codec_ok: "codec_ok byteEncode byteDecode"
  by (simp add: codec_ok_def byteEncode_def byteDecode_def)

lemma byte_encoded: "encoded byteEncode bs (map (\<lambda>b. [b]) bs)"
  by (simp add: encoded_def byteEncode_def list_all2_conv_all_nth)

lemma byte_writeBucketFile:
  "writeBucketFile byteEncode bs = Inr (bucket_meta (map (\<lambda>b. [b]) bs), bucket_bytes (map (\<lambda>b. [b]) bs))"
  by (rule writeBucketFile_encoded [OF byte_encoded])

text \<open>
  C13: a bucket file that was written is read back as exactly the records that went in, and its
  metadata gives their number and the size of the file.
\<close>

theorem bucket_roundtrip:
  assumes "codec_ok enc dec" and "writeBucketFile enc recs = Inr (meta, file)"
    and "\<forall>v \<in> set recs. \<forall>p. enc v = Inr p \<longrightarrow> length p \<le> defaultRecordBytes"
    and "length recs < 2 ^ 32"
  shows "readBucketFile dec file = Inr recs \<and> Records meta = int (length recs)
     \<and> Bytes meta = int (length file)"
proof -
  obtain ps where ps: "encoded enc recs ps" "meta = bucket_meta ps" "file = bucket_bytes ps"
    using writeBucketFile_Inr [OF assms(2)] by blast
  have "fits defaultRecordBytes ps"
    by (rule encoded_fits_limit [OF ps(1) assms(3)]) (simp add: defaultRecordBytes_def)
  with readBucketFile_bytes [OF assms(1) ps(1) _ assms(4)] ps encoded_length [OF ps(1)]
  show ?thesis by (simp add: bucket_meta_def)
qed

theorem bucket_roundtrip_witness:
  "\<exists>meta file. writeBucketFile byteEncode [7, 8] = Inr (meta, file) \<and> readBucketFile byteDecode file = Inr [7, 8]"
  using bucket_roundtrip [OF byte_codec_ok byte_writeBucketFile [of "[7, 8]"]]
  by (simp add: byte_writeBucketFile byteEncode_def defaultRecordBytes_def)

text \<open>
  The incremental writer, which appends record by record under a disk budget and patches the
  count in at the end, produces the same bytes and the same metadata as the one-shot writer.
\<close>

lemma incremental_writer_equivalent:
  assumes "write_run enc p budget vs = Inr (meta, file, budget')"
  shows "writeBucketFile enc vs = Inr (meta, file)"
  using write_run_eq [OF assms] writeBucketFile_encoded by fastforce



text \<open>
  When a fetched bucket is refused, the bytes that were reserved for its temporary file are
  released again.
\<close>

lemma refused_bucket_releases:
  assumes "cacheShuffleBucket dec (Some b) mx src meta scratch = (Inl e, Some b')"
    and "budget_ok b" and "lookup_size (files b) scratch = 0"
  shows "used b' = used b"
proof -
  have "lookup_size (add_size p n fs) p = lookup_size fs p + n" for p n fs
    by (induction p n fs rule: add_size.induct) auto
  then show ?thesis
    using assms
    by (auto simp: cacheShuffleBucket_def reserve_opt_def reserve_def removeFile_def Let_def
        split: sum.splits if_splits prod.splits)
qed

text \<open>
  C18: a bucket file that was cut off at a record boundary is read without an error: the reader
  returns the records that are left although the header announces \<open>n\<close> of them.
\<close>

theorem truncated_file_unnoticed:
  assumes "codec_ok enc dec" and "encoded enc vs ps" and "fits defaultRecordBytes ps"
    and "length ps < n" and "n < 2 ^ 32"
  shows "readBucketFile dec (shuffleMagic @ put_uint32 (word_of_nat n) @ concat (map frame ps)) = Inr vs"
proof -
  let ?h = "shuffleMagic @ put_uint32 (word_of_nat n)"
  have "read_full 8 (?h @ concat (map frame ps)) = Inr (?h, concat (map frame ps))"
    by (rule read_full_append) simp_all
  then have "openBucket (?h @ concat (map frame ps)) defaultRecordBytes =
      Inr \<lparr>br_data = concat (map frame ps), br_remaining = word_of_nat n, br_max = defaultRecordBytes,
           br_closed = False, br_checksum = 0\<rparr>"
    by (simp add: openBucket_def)
  then show ?thesis
    using read_records_truncated [OF assms(1,2), of "\<lparr>br_data = concat (map frame ps),
        br_remaining = word_of_nat n, br_max = defaultRecordBytes, br_closed = False, br_checksum = 0\<rparr>" "[]"]
      assms(3-5)
    by (simp add: readBucketFile_def unat_word32)
qed

theorem truncated_file_unnoticed_witness:
  "readBucketFile byteDecode (shuffleMagic @ put_uint32 2 @ concat (map frame [[7]])) = Inr [7]"
  using truncated_file_unnoticed [OF byte_codec_ok byte_encoded [of "[7]"], of 2]
  by (simp add: fits_def defaultRecordBytes_def)

end
