(* ===== verification/External_Sort.thy ===== *)
theory External_Sort
  imports Bucket_Files Partitioners
begin

text \<open>
  \<^verbatim>\<open>external_sort.go\<close>: sorting in budget-sized runs that are written to bucket files and
  compacted by binary merges, level by level like the carries of a binary counter. A run is
  the path and the bytes of its file. The input stream is the list of records it delivers and
  how it ends; \<^verbatim>\<open>sort.SliceStable\<close> is a stable insertion sort. The theory shows that the
  result is the stable sort of the whole input, whatever the memory budget.
\<close>

text \<open>A record stream: its records, then EOF (\<open>None\<close>) or an error.\<close>

type_synonym 'v recordStream = "'v list \<times> goerr option"

section \<open>Sorting and merging\<close>

fun insert_stable :: "('v \<Rightarrow> 'v \<Rightarrow> bool) \<Rightarrow> 'v \<Rightarrow> 'v list \<Rightarrow> 'v list" where
  "insert_stable lt x [] = [x]"
| "insert_stable lt x (y # ys) = (if lt y x then y # insert_stable lt x ys else x # y # ys)"

text \<open>\<^verbatim>\<open>sort.SliceStable\<close>\<close>

definition SliceStable :: "('v \<Rightarrow> 'v \<Rightarrow> bool) \<Rightarrow> 'v list \<Rightarrow> 'v list" where
  "SliceStable lt xs = foldr (insert_stable lt) xs []"

text \<open>
  The loop of \<^verbatim>\<open>merge\<close>: the left record goes first unless the right one is smaller.
\<close>

fun merge_loop :: "('v \<Rightarrow> 'v \<Rightarrow> bool) \<Rightarrow> 'v list \<Rightarrow> 'v list \<Rightarrow> 'v list" where
  "merge_loop lt [] bs = bs"
| "merge_loop lt (a # as) [] = a # as"
| "merge_loop lt (a # as) (b # bs) =
     (if \<not> lt b a then a # merge_loop lt as (b # bs) else b # merge_loop lt (a # as) bs)"

section \<open>The sorter\<close>

type_synonym run = "path \<times> byte list"

text \<open>What the closures of \<^verbatim>\<open>externalSort\<close> share and never change.\<close>

record 'v sorter =
  so_dir :: path
  so_enc :: "'v \<Rightarrow> byte list res"
  so_dec :: "byte list \<Rightarrow> 'v res"
  so_less :: "'v \<Rightarrow> 'v \<Rightarrow> bool"
  so_recordBytes :: nat
  so_memoryBytes :: nat

text \<open>What they update.\<close>

record 'v sort_state =
  ss_seq :: nat
  ss_levels :: "run option list"
  ss_chunk :: "'v list"
  ss_bytes :: nat
  ss_count :: nat
  ss_budget :: "diskBudget option"

definition next_path :: "'v sorter \<Rightarrow> nat \<Rightarrow> path" where
  "next_path so seq = so_dir so @ [format_nat (Suc seq)]"

definition read_run :: "'v sorter \<Rightarrow> byte list \<Rightarrow> 'v list res" where
  "read_run so file =
     bindR (openBucket file (so_recordBytes so)) (\<lambda>r. fst (read_records (so_dec so) r []))"

definition remove_run :: "diskBudget option \<Rightarrow> path \<Rightarrow> diskBudget option res" where
  "remove_run budget p =
     (case budget of None \<Rightarrow> Inr None | Some b \<Rightarrow> map_sum id Some (removeFile b (Inr ()) p))"

definition merge_runs ::
  "'v sorter \<Rightarrow> run \<Rightarrow> run \<Rightarrow> 'v sort_state \<Rightarrow> (run \<times> 'v sort_state) res" where
  "merge_runs so left right st =
     bindR (read_run so (snd left)) (\<lambda>as.
     bindR (read_run so (snd right)) (\<lambda>bs.
       let target = next_path so (ss_seq st) in
       bindR (write_run (so_enc so) target (ss_budget st) (merge_loop (so_less so) as bs))
         (\<lambda>(meta, file, b1).
       bindR (remove_run b1 (fst left)) (\<lambda>b2.
       bindR (remove_run b2 (fst right)) (\<lambda>b3.
         Inr ((target, file), st\<lparr>ss_seq := Suc (ss_seq st), ss_budget := b3\<rparr>))))))"

text \<open>The loop of \<^verbatim>\<open>push\<close>; the list is the levels from the current one up.\<close>

fun push_levels ::
  "'v sorter \<Rightarrow> run \<Rightarrow> run option list \<Rightarrow> 'v sort_state
     \<Rightarrow> (run option list \<times> 'v sort_state) res" where
  "push_levels so run [] st = Inr ([Some run], st)"
| "push_levels so run (None # ls) st = Inr (Some run # ls, st)"
| "push_levels so run (Some l # ls) st =
     bindR (merge_runs so l run st) (\<lambda>(run', st').
     bindR (push_levels so run' ls st') (\<lambda>(ls', st''). Inr (None # ls', st'')))"

definition push :: "'v sorter \<Rightarrow> run \<Rightarrow> 'v sort_state \<Rightarrow> 'v sort_state res" where
  "push so run st =
     bindR (push_levels so run (ss_levels st) st) (\<lambda>(ls, st'). Inr (st'\<lparr>ss_levels := ls\<rparr>))"

definition flush :: "'v sorter \<Rightarrow> 'v sort_state \<Rightarrow> 'v sort_state res" where
  "flush so st =
     (if ss_chunk st = [] then Inr st
      else
        let p = next_path so (ss_seq st) in
        bindR (write_run (so_enc so) p (ss_budget st) (SliceStable (so_less so) (ss_chunk st)))
          (\<lambda>(meta, file, b).
             push so (p, file)
               (st\<lparr>ss_seq := Suc (ss_seq st), ss_budget := b, ss_chunk := [], ss_bytes := 0\<rparr>)))"

definition add_record :: "'v sorter \<Rightarrow> 'v \<Rightarrow> 'v sort_state \<Rightarrow> 'v sort_state res" where
  "add_record so v st =
     bindR (so_enc so v) (\<lambda>p.
     bindR (recordLimit (length p) (so_recordBytes so)) (\<lambda>_.
       let cost = length p + 64 in
       if cost > so_memoryBytes so
       then Inl (Err ''record cannot fit shuffle memory budget'')
       else
         bindR (if ss_bytes st + cost > so_memoryBytes so then flush so st else Inr st) (\<lambda>st'.
           Inr (st'\<lparr>ss_chunk := ss_chunk st' @ [v], ss_bytes := ss_bytes st' + cost,
                    ss_count := Suc (ss_count st')\<rparr>))))"

fun sort_loop ::
  "'v sorter \<Rightarrow> 'v list \<Rightarrow> goerr option \<Rightarrow> 'v sort_state \<Rightarrow> 'v sort_state res" where
  "sort_loop so [] None st = Inr st"
| "sort_loop so [] (Some e) st = Inl e"
| "sort_loop so (v # vs) end st = bindR (add_record so v st) (sort_loop so vs end)"

text \<open>The last merges, from the highest level down.\<close>

fun final_merge ::
  "'v sorter \<Rightarrow> run option list \<Rightarrow> run option \<Rightarrow> 'v sort_state
     \<Rightarrow> (run option \<times> 'v sort_state) res" where
  "final_merge so [] final st = Inr (final, st)"
| "final_merge so (None # ls) final st = final_merge so ls final st"
| "final_merge so (Some l # ls) None st = final_merge so ls (Some l) st"
| "final_merge so (Some l # ls) (Some f) st =
     bindR (merge_runs so f l st) (\<lambda>(f', st'). final_merge so ls (Some f') st')"

definition externalSort ::
  "'v sorter \<Rightarrow> diskBudget option \<Rightarrow> 'v recordStream \<Rightarrow> ('v list \<times> nat \<times> diskBudget option) res" where
  "externalSort so budget input =
     bindR (sort_loop so (fst input) (snd input)
        \<lparr>ss_seq = 0, ss_levels = [], ss_chunk = [], ss_bytes = 0, ss_count = 0,
         ss_budget = budget\<rparr>) (\<lambda>st1.
     bindR (flush so st1) (\<lambda>st2.
     bindR (final_merge so (rev (ss_levels st2)) None st2) (\<lambda>(final, st3).
     bindR (case final of
              Some f \<Rightarrow> Inr (snd f, ss_budget st3)
            | None \<Rightarrow>
                bindR (write_run (so_enc so) (next_path so (ss_seq st3)) (ss_budget st3) [])
                  (\<lambda>(meta, file, b). Inr (file, b)))
       (\<lambda>(file, b).
          bindR (read_run so file) (\<lambda>recs. Inr (recs, ss_count st3, b))))))"

section \<open>The stable sort\<close>

lemma SliceStable_Nil [simp]: "SliceStable lt [] = []"
  and SliceStable_Cons [simp]: "SliceStable lt (x # xs) = insert_stable lt x (SliceStable lt xs)"
  by (simp_all add: SliceStable_def)

lemma mset_insert_stable [simp]: "mset (insert_stable lt x xs) = add_mset x (mset xs)"
  by (induction lt x xs rule: insert_stable.induct) auto

lemma mset_SliceStable [simp]: "mset (SliceStable lt xs) = mset xs"
  by (induction xs) auto

lemma set_insert_stable [simp]: "set (insert_stable lt x xs) = insert x (set xs)"
  by (metis mset_insert_stable set_mset_add_mset_insert set_mset_mset)

lemma set_SliceStable [simp]: "set (SliceStable lt xs) = set xs"
  by (metis mset_SliceStable set_mset_mset)

lemma length_SliceStable [simp]: "length (SliceStable lt xs) = length xs"
  by (metis mset_SliceStable size_mset)

definition ascending :: "('v \<Rightarrow> 'v \<Rightarrow> bool) \<Rightarrow> 'v list \<Rightarrow> bool" where
  "ascending lt xs \<longleftrightarrow> sorted_wrt (\<lambda>a b. \<not> lt b a) xs"

lemma ascending_insert_stable:
  assumes swo: "strict_weak_order lt" and "ascending lt xs"
  shows "ascending lt (insert_stable lt x xs)"
  using assms(2)
proof (induction xs)
  case (Cons y ys)
  then have "\<not> lt y x \<Longrightarrow> z \<in> set ys \<Longrightarrow> \<not> lt z x" for z
    using swo_not_less_trans [OF swo, of z y x] by (auto simp: ascending_def)
  moreover have "lt y x \<Longrightarrow> \<not> lt x y" by (rule swo_asym [OF swo])
  ultimately show ?case using Cons by (auto simp: ascending_def)
qed (simp add: ascending_def)

lemma ascending_SliceStable: "strict_weak_order lt \<Longrightarrow> ascending lt (SliceStable lt xs)"
  by (induction xs) (simp_all add: ascending_def [of _ "[]"] ascending_insert_stable)

text \<open>Stability: records that compare equal keep their order.\<close>

lemma insert_stable_skip: "\<not> P x \<Longrightarrow> filter P (insert_stable lt x xs) = filter P xs"
  by (induction lt x xs rule: insert_stable.induct) auto

lemma insert_stable_first:
  "\<lbrakk>P x; \<And>y. P y \<Longrightarrow> \<not> lt y x\<rbrakk> \<Longrightarrow> filter P (insert_stable lt x xs) = x # filter P xs"
  by (induction lt x xs rule: insert_stable.induct) auto

lemma SliceStable_stable:
  assumes "strict_weak_order lt"
  shows "filter (\<lambda>y. \<not> lt y k \<and> \<not> lt k y) (SliceStable lt xs) = filter (\<lambda>y. \<not> lt y k \<and> \<not> lt k y) xs"
proof (induction xs)
  case (Cons x xs)
  show ?case
  proof (cases "\<not> lt x k \<and> \<not> lt k x")
    case True
    then have "\<not> lt y k \<and> \<not> lt k y \<Longrightarrow> \<not> lt y x" for y
      using assms swo_not_less_trans [of lt] by blast
    with True Cons.IH show ?thesis
      by (simp add: insert_stable_first [where P = "\<lambda>y. \<not> lt y k \<and> \<not> lt k y"])
  next
    case False
    with Cons.IH show ?thesis
      by (simp add: insert_stable_skip [where P = "\<lambda>y. \<not> lt y k \<and> \<not> lt k y"])
  qed
qed simp

section \<open>Merging sorted runs\<close>

lemma merge_loop_Nil2 [simp]: "merge_loop lt xs [] = xs"
  by (cases xs) simp_all

lemma merge_insert_stable:
  assumes "strict_weak_order lt"
  shows "merge_loop lt (insert_stable lt x as) bs = insert_stable lt x (merge_loop lt as bs)"
  using assms
proof (induction lt as bs rule: merge_loop.induct)
  case (1 lt bs)
  then show ?case by (induction bs) simp_all
next
  case (3 lt a as b bs)
  consider "lt a x" | "\<not> lt a x" "\<not> lt b x" | "\<not> lt a x" "lt b x" by blast
  then show ?case
  proof cases
    case 1
    with 3 show ?thesis using swo_less_trans [of lt b a x] by auto
  next
    case 2
    then show ?thesis by simp
  next
    case 3
    then have "lt b a" using swo_less_not_less_trans [OF "3.prems"] by blast
    with 3 "3.IH"(2) "3.prems" show ?thesis by simp
  qed
qed simp

lemma merge_SliceStable:
  "strict_weak_order lt \<Longrightarrow>
     merge_loop lt (SliceStable lt xs) (SliceStable lt ys) = SliceStable lt (xs @ ys)"
  by (induction xs) (simp_all add: merge_insert_stable)

section \<open>Runs hold the sorted segments of the input\<close>

definition sorter_ok :: "'v sorter \<Rightarrow> bool" where
  "sorter_ok so \<longleftrightarrow> codec_ok (so_enc so) (so_dec so) \<and> strict_weak_order (so_less so)
     \<and> so_recordBytes so < 2 ^ 32"

text \<open>A record within the record limit.\<close>

definition small :: "'v sorter \<Rightarrow> 'v \<Rightarrow> bool" where
  "small so v \<longleftrightarrow> (case so_enc so v of Inl _ \<Rightarrow> False | Inr p \<Rightarrow> length p \<le> so_recordBytes so)"

definition run_holds :: "'v sorter \<Rightarrow> 'v list \<Rightarrow> run \<Rightarrow> bool" where
  "run_holds so seg run \<longleftrightarrow> list_all (small so) seg \<and> length seg < 2 ^ 32
     \<and> (\<exists>ps. encoded (so_enc so) (SliceStable (so_less so) seg) ps \<and> snd run = bucket_bytes ps)"

lemma encoded_fits:
  assumes "encoded (so_enc so) vs ps" and "\<forall>v \<in> set vs. small so v" and "so_recordBytes so < 2 ^ 32"
  shows "fits (so_recordBytes so) ps"
  using assms(1,2) by (induction vs arbitrary: ps) (use assms(3) in \<open>auto simp: encoded_Cons small_def fits_def\<close>)

lemma small_encoded: "\<forall>v \<in> set vs. small so v \<Longrightarrow> \<exists>ps. encoded (so_enc so) vs ps"
  by (induction vs) (fastforce simp: encoded_Cons small_def split: sum.splits)+

lemma read_run_holds:
  assumes "sorter_ok so" and "run_holds so seg run"
  shows "read_run so (snd run) = Inr (SliceStable (so_less so) seg)"
proof -
  from assms(2) obtain ps where ps: "encoded (so_enc so) (SliceStable (so_less so) seg) ps"
    and bs: "snd run = bucket_bytes ps" and len: "length seg < 2 ^ 32"
    and small: "list_all (small so) seg"
    by (auto simp: run_holds_def)
  have "fits (so_recordBytes so) ps"
    by (rule encoded_fits [OF ps]) (use small assms(1) in \<open>auto simp: list_all_iff sorter_ok_def\<close>)
  with assms(1) len encoded_length [OF ps] show ?thesis
    by (subst (asm) sorter_ok_def) (simp add: read_run_def bs openBucket_bytes read_records_frames [OF _ ps])
qed

lemma write_run_holds:
  assumes "write_run (so_enc so) p budget (SliceStable (so_less so) seg) = Inr (meta, file, budget')"
    and "list_all (small so) seg" and "length seg < 2 ^ 32"
  shows "run_holds so seg (q, file)"
  using write_run_eq [OF assms(1)] assms(2,3) by (auto simp: run_holds_def)

text \<open>A merge touches the path counter and the disk budget only.\<close>

definition same_input :: "'v sort_state \<Rightarrow> 'v sort_state \<Rightarrow> bool" where
  "same_input st st' \<longleftrightarrow> ss_levels st' = ss_levels st \<and> ss_chunk st' = ss_chunk st
     \<and> ss_bytes st' = ss_bytes st \<and> ss_count st' = ss_count st"

lemma same_input_refl [simp]: "same_input st st"
  and same_input_trans: "same_input st st' \<Longrightarrow> same_input st' st'' \<Longrightarrow> same_input st st''"
  by (simp_all add: same_input_def)

lemma merge_runs_holds:
  assumes ok: "sorter_ok so" and l: "run_holds so us left" and r: "run_holds so vs right"
    and len: "length (us @ vs) < 2 ^ 32" and m: "merge_runs so left right st = Inr (run, st')"
  shows "run_holds so (us @ vs) run"
    and "same_input st st'"
proof -
  have "list_all (small so) (us @ vs)" using l r by (simp add: run_holds_def)
  moreover have "merge_loop (so_less so) (SliceStable (so_less so) us) (SliceStable (so_less so) vs)
      = SliceStable (so_less so) (us @ vs)"
    using ok by (simp add: sorter_ok_def merge_SliceStable)
  ultimately show "run_holds so (us @ vs) run" and "same_input st st'"
    using m len write_run_holds [of so _ _ "us @ vs"]
    by (auto simp: merge_runs_def read_run_holds [OF ok l] read_run_holds [OF ok r] bindR_Inr_conv
        Let_def split_beta same_input_def)
qed

text \<open>The runs of the levels hold consecutive segments; the highest level holds the oldest.\<close>

definition level_holds :: "'v sorter \<Rightarrow> run option \<Rightarrow> 'v list \<Rightarrow> bool" where
  "level_holds so l seg \<longleftrightarrow> (case l of None \<Rightarrow> seg = [] | Some r \<Rightarrow> run_holds so seg r)"

lemma level_holds_simps [simp]:
  "level_holds so None seg \<longleftrightarrow> seg = []"
  "level_holds so (Some r) seg \<longleftrightarrow> run_holds so seg r"
  by (simp_all add: level_holds_def)

definition levels_hold :: "'v sorter \<Rightarrow> run option list \<Rightarrow> 'v list \<Rightarrow> bool" where
  "levels_hold so ls xs \<longleftrightarrow> (\<exists>segs. list_all2 (level_holds so) ls segs \<and> xs = concat (rev segs))"

lemma levels_hold_Nil: "levels_hold so [] xs \<longleftrightarrow> xs = []"
  by (simp add: levels_hold_def)

lemma levels_hold_Cons:
  "levels_hold so (l # ls) xs \<longleftrightarrow>
     (\<exists>us vs. xs = us @ vs \<and> levels_hold so ls us \<and> level_holds so l vs)"
proof
  assume "levels_hold so (l # ls) xs"
  then show "\<exists>us vs. xs = us @ vs \<and> levels_hold so ls us \<and> level_holds so l vs"
    unfolding levels_hold_def list_all2_Cons1 by fastforce
next
  assume "\<exists>us vs. xs = us @ vs \<and> levels_hold so ls us \<and> level_holds so l vs"
  then obtain segs vs where "list_all2 (level_holds so) ls segs" "level_holds so l vs"
    "xs = concat (rev segs) @ vs"
    by (auto simp: levels_hold_def)
  then show "levels_hold so (l # ls) xs"
    unfolding levels_hold_def by (intro exI [of _ "vs # segs"]) simp
qed

lemma push_levels_holds:
  assumes ok: "sorter_ok so"
  shows "\<lbrakk>push_levels so run ls st = Inr (ls', st'); levels_hold so ls us; run_holds so vs run;
     length (us @ vs) < 2 ^ 32\<rbrakk> \<Longrightarrow> levels_hold so ls' (us @ vs) \<and> same_input st st'"
proof (induction ls arbitrary: run st ls' st' us vs)
  case Nil
  then show ?case by (auto simp: levels_hold_Nil levels_hold_Cons)
next
  case (Cons l ls)
  show ?case
  proof (cases l)
    case None
    with Cons.prems show ?thesis by (fastforce simp: levels_hold_Cons)
  next
    case (Some r)
    with Cons.prems(2) obtain us1 us2 where us: "us = us1 @ us2" and lo: "levels_hold so ls us1"
      and r: "run_holds so us2 r"
      by (auto simp: levels_hold_Cons)
    from Cons.prems(1) Some obtain run1 st1 ls1 where m: "merge_runs so r run st = Inr (run1, st1)"
      and p: "push_levels so run1 ls st1 = Inr (ls1, st')" and ls': "ls' = None # ls1"
      by (auto simp: bindR_Inr_conv)
    from Cons.prems(4) us have len: "length (us2 @ vs) < 2 ^ 32" by simp
    note merged = merge_runs_holds [OF ok r Cons.prems(3) len m]
    from Cons.IH [OF p lo merged(1)] Cons.prems(4) us
    have "levels_hold so ls1 (us @ vs) \<and> same_input st1 st'" by simp
    with merged(2) ls' show ?thesis
      by (auto simp: levels_hold_Cons intro: same_input_trans)
  qed
qed

definition sort_inv :: "'v sorter \<Rightarrow> 'v list \<Rightarrow> 'v sort_state \<Rightarrow> bool" where
  "sort_inv so xs st \<longleftrightarrow> (\<exists>us. xs = us @ ss_chunk st \<and> levels_hold so (ss_levels st) us)
     \<and> list_all (small so) (ss_chunk st) \<and> ss_count st = length xs"

lemma flush_inv:
  assumes ok: "sorter_ok so" and inv: "sort_inv so xs st" and len: "length xs < 2 ^ 32"
    and fl: "flush so st = Inr st'"
  shows "sort_inv so xs st' \<and> ss_chunk st' = []"
proof (cases "ss_chunk st = []")
  case True
  with fl inv show ?thesis by (simp add: flush_def)
next
  case False
  from inv obtain us where xs: "xs = us @ ss_chunk st" and lv: "levels_hold so (ss_levels st) us"
    and sm: "list_all (small so) (ss_chunk st)" and cnt: "ss_count st = length xs"
    by (auto simp: sort_inv_def)
  let ?p = "next_path so (ss_seq st)"
  from fl False obtain meta bs b ls st1 where
    w: "write_run (so_enc so) ?p (ss_budget st) (SliceStable (so_less so) (ss_chunk st)) = Inr (meta, bs, b)"
    and p: "push_levels so (?p, bs) (ss_levels st)
      (st\<lparr>ss_seq := Suc (ss_seq st), ss_budget := b, ss_chunk := [], ss_bytes := 0\<rparr>) = Inr (ls, st1)"
    and st': "st' = st1\<lparr>ss_levels := ls\<rparr>"
    by (auto simp: flush_def Let_def bindR_Inr_conv push_def)
  have "run_holds so (ss_chunk st) (?p, bs)"
    by (rule write_run_holds [OF w sm]) (use len xs in simp)
  from push_levels_holds [OF ok p lv this] len xs
  have "levels_hold so ls xs" "ss_chunk st1 = []" "ss_count st1 = ss_count st"
    by (auto simp: same_input_def)
  with st' cnt show ?thesis by (auto simp: sort_inv_def)
qed

lemma add_record_inv:
  assumes ok: "sorter_ok so" and inv: "sort_inv so xs st" and len: "length xs < 2 ^ 32"
    and add: "add_record so v st = Inr st'"
  shows "sort_inv so (xs @ [v]) st'"
proof -
  from add obtain p st1 where p: "so_enc so v = Inr p" "length p \<le> so_recordBytes so"
    and st1: "flush so st = Inr st1 \<or> st1 = st"
    and st': "ss_chunk st' = ss_chunk st1 @ [v]" "ss_levels st' = ss_levels st1"
      "ss_count st' = Suc (ss_count st1)"
    by (fastforce simp: add_record_def bindR_Inr_conv recordLimit_def Let_def split: if_splits)
  have "sort_inv so xs st1" using st1 flush_inv [OF ok inv len] inv by auto
  with st' p show ?thesis by (auto simp: sort_inv_def small_def)
qed

lemma sort_loop_inv:
  assumes ok: "sorter_ok so"
  shows "\<lbrakk>sort_loop so vs end st = Inr st'; sort_inv so xs st; length (xs @ vs) < 2 ^ 32\<rbrakk>
    \<Longrightarrow> sort_inv so (xs @ vs) st' \<and> end = None"
proof (induction vs arbitrary: xs st)
  case Nil
  then show ?case by (cases "end") auto
next
  case (Cons v vs)
  then obtain st1 where st1: "add_record so v st = Inr st1" "sort_loop so vs end st1 = Inr st'"
    by (auto simp: bindR_Inr_conv)
  have "sort_inv so (xs @ [v]) st1"
    by (rule add_record_inv [OF ok Cons.prems(2) _ st1(1)]) (use Cons.prems(3) in simp)
  from Cons.IH [OF st1(2) this] Cons.prems(3) show ?case by simp
qed

lemma final_merge_holds:
  assumes ok: "sorter_ok so"
  shows "\<lbrakk>final_merge so ls final st = Inr (final', st'); list_all2 (level_holds so) ls segs;
     level_holds so final us; length (us @ concat segs) < 2 ^ 32\<rbrakk>
    \<Longrightarrow> level_holds so final' (us @ concat segs) \<and> same_input st st'"
proof (induction ls arbitrary: final st segs us)
  case (Cons l ls)
  then obtain seg segs' where segs: "segs = seg # segs'" "level_holds so l seg"
    "list_all2 (level_holds so) ls segs'"
    by (auto simp: list_all2_Cons1)
  consider "l = None" | r where "l = Some r" "final = None" | r f where "l = Some r" "final = Some f"
    by (cases l; cases final) auto
  then show ?case
  proof cases
    case 1
    with Cons.prems segs Cons.IH [OF _ segs(3)] show ?thesis by simp
  next
    case 2
    with Cons.prems segs Cons.IH [OF _ segs(3), of "Some r" st seg] show ?thesis by simp
  next
    case 3
    with Cons.prems(1) obtain f1 st1 where m: "merge_runs so f r st = Inr (f1, st1)"
      and rest: "final_merge so ls (Some f1) st1 = Inr (final', st')"
      by (auto simp: bindR_Inr_conv)
    have "run_holds so us f" "run_holds so seg r" "length (us @ seg) < 2 ^ 32"
      using Cons.prems segs 3 by simp_all
    note merged = merge_runs_holds [OF ok this m]
    have "level_holds so (Some f1) (us @ seg)" using merged(1) by simp
    from Cons.IH [OF rest segs(3) this] Cons.prems(4) segs(1) merged(2) show ?thesis
      by (auto intro: same_input_trans)
  qed
qed simp

lemma externalSort_result:
  assumes ok: "sorter_ok so" and len: "length xs < 2 ^ 32"
    and run: "externalSort so budget (xs, end) = Inr (recs, n, budget')"
  shows "recs = SliceStable (so_less so) xs" and "n = length xs" and "end = None"
proof -
  let ?st0 = "\<lparr>ss_seq = 0, ss_levels = [], ss_chunk = [], ss_bytes = 0, ss_count = 0,
     ss_budget = budget\<rparr> :: 'a sort_state"
  from run obtain st1 st2 final st3 bs b where loop: "sort_loop so xs end ?st0 = Inr st1"
    and fl: "flush so st1 = Inr st2"
    and fin: "final_merge so (rev (ss_levels st2)) None st2 = Inr (final, st3)"
    and bs: "(case final of Some f \<Rightarrow> Inr (snd f, ss_budget st3) | None \<Rightarrow>
        bindR (write_run (so_enc so) (next_path so (ss_seq st3)) (ss_budget st3) [])
          (\<lambda>(meta, file, b). Inr (file, b))) = Inr (bs, b)"
    and recs: "read_run so bs = Inr recs" and n: "n = ss_count st3"
    by (fastforce simp: externalSort_def bindR_Inr_conv)
  have "sort_inv so [] ?st0" by (simp add: sort_inv_def levels_hold_Nil)
  from sort_loop_inv [OF ok loop this] len have "sort_inv so xs st1" "end = None" by simp_all
  then show "end = None" by simp
  from flush_inv [OF ok \<open>sort_inv so xs st1\<close> len fl] obtain segs where
    segs: "list_all2 (level_holds so) (ss_levels st2) segs" "xs = concat (rev segs)"
    and cnt: "ss_count st2 = length xs"
    by (auto simp: sort_inv_def levels_hold_def)
  have "list_all2 (level_holds so) (rev (ss_levels st2)) (rev segs)" using segs(1) by simp
  from final_merge_holds [OF ok fin this, of "[]"] segs(2) len
  have fin': "level_holds so final xs" "same_input st2 st3" by simp_all
  with n cnt show "n = length xs" by (simp add: same_input_def)
  have "\<exists>q. run_holds so xs (q, bs)"
  proof (cases final)
    case None
    with bs obtain meta where
      "write_run (so_enc so) (next_path so (ss_seq st3)) (ss_budget st3) (SliceStable (so_less so) []) = Inr (meta, bs, b)"
      by (auto simp: bindR_Inr_conv)
    from write_run_holds [OF this] None fin' show ?thesis by auto
  next
    case (Some f)
    with bs fin' show ?thesis by (cases f) auto
  qed
  with recs show "recs = SliceStable (so_less so) xs" using read_run_holds [OF ok] by fastforce
qed

section \<open>Without a disk limit the sort of admissible records succeeds\<close>

text \<open>Each phase returns, with the budget still absent.\<close>

lemma merge_runs_ok:
  assumes ok: "sorter_ok so" and l: "run_holds so us left" and r: "run_holds so vs right"
    and len: "length (us @ vs) < 2 ^ 32" and nb: "ss_budget st = None"
  shows "\<exists>run st'. merge_runs so left right st = Inr (run, st') \<and> ss_budget st' = None"
proof -
  let ?vs = "SliceStable (so_less so) (us @ vs)"
  have "\<forall>v \<in> set ?vs. small so v" using l r by (auto simp: run_holds_def list_all_iff)
  then obtain ps where ps: "encoded (so_enc so) ?vs ps" using small_encoded by blast
  have "merge_loop (so_less so) (SliceStable (so_less so) us) (SliceStable (so_less so) vs) = ?vs"
    using ok by (simp add: sorter_ok_def merge_SliceStable)
  with write_run_ok [OF ps] len nb show ?thesis
    by (simp add: merge_runs_def read_run_holds [OF ok l] read_run_holds [OF ok r] Let_def
        remove_run_def)
qed

lemma push_levels_ok:
  assumes ok: "sorter_ok so"
  shows "\<lbrakk>levels_hold so ls us; run_holds so vs run; length (us @ vs) < 2 ^ 32; ss_budget st = None\<rbrakk>
     \<Longrightarrow> \<exists>ls' st'. push_levels so run ls st = Inr (ls', st') \<and> ss_budget st' = None"
proof (induction ls arbitrary: run st us vs)
  case (Cons l ls)
  show ?case
  proof (cases l)
    case (Some r)
    with Cons.prems(1) obtain us1 us2 where us: "us = us1 @ us2" and lo: "levels_hold so ls us1"
      and r: "run_holds so us2 r"
      by (auto simp: levels_hold_Cons)
    have len: "length (us2 @ vs) < 2 ^ 32" using Cons.prems(3) us by simp
    from merge_runs_ok [OF ok r Cons.prems(2) len Cons.prems(4)] obtain run1 st1
      where m: "merge_runs so r run st = Inr (run1, st1)" "ss_budget st1 = None" by blast
    from Cons.IH [OF lo merge_runs_holds(1) [OF ok r Cons.prems(2) len m(1)] _ m(2)] Cons.prems(3) us
    show ?thesis using Some m(1) by auto
  qed (use Cons.prems in simp)
qed simp

lemma flush_ok:
  assumes ok: "sorter_ok so" and inv: "sort_inv so xs st" and len: "length xs < 2 ^ 32"
    and nb: "ss_budget st = None"
  shows "\<exists>st'. flush so st = Inr st' \<and> ss_budget st' = None"
proof (cases "ss_chunk st = []")
  case False
  from inv obtain us where xs: "xs = us @ ss_chunk st" and lv: "levels_hold so (ss_levels st) us"
    and sm: "list_all (small so) (ss_chunk st)"
    by (auto simp: sort_inv_def)
  let ?c = "SliceStable (so_less so) (ss_chunk st)" and ?p = "next_path so (ss_seq st)"
  obtain ps where ps: "encoded (so_enc so) ?c ps"
    using small_encoded [of ?c so] sm by (auto simp: list_all_iff)
  have w: "write_run (so_enc so) ?p None ?c = Inr (bucket_meta ps, bucket_bytes ps, None)"
    by (rule write_run_ok [OF ps]) (use len xs in simp)
  have "run_holds so (ss_chunk st) (?p, bucket_bytes ps)"
    by (rule write_run_holds [OF w sm]) (use len xs in simp)
  from push_levels_ok [OF ok lv this, of
      "st\<lparr>ss_seq := Suc (ss_seq st), ss_budget := None, ss_chunk := [], ss_bytes := 0\<rparr>"] len xs
  show ?thesis using False nb w by (auto simp: flush_def Let_def push_def)
qed (use nb in \<open>simp add: flush_def\<close>)

definition admissible :: "'v sorter \<Rightarrow> 'v \<Rightarrow> bool" where
  "admissible so v \<longleftrightarrow> (case so_enc so v of Inl _ \<Rightarrow> False
     | Inr p \<Rightarrow> length p \<le> so_recordBytes so \<and> length p + 64 \<le> so_memoryBytes so)"

lemma add_record_ok:
  assumes ok: "sorter_ok so" and inv: "sort_inv so xs st" and len: "length xs < 2 ^ 32"
    and nb: "ss_budget st = None" and v: "admissible so v"
  shows "\<exists>st'. add_record so v st = Inr st' \<and> ss_budget st' = None"
  using flush_ok [OF ok inv len nb] v nb
  by (auto simp: add_record_def admissible_def recordLimit_def Let_def split: sum.splits)

lemma sort_loop_ok:
  assumes ok: "sorter_ok so"
  shows "\<lbrakk>sort_inv so xs st; length (xs @ vs) < 2 ^ 32; ss_budget st = None; list_all (admissible so) vs\<rbrakk>
    \<Longrightarrow> \<exists>st'. sort_loop so vs None st = Inr st' \<and> ss_budget st' = None"
proof (induction vs arbitrary: xs st)
  case (Cons v vs)
  then have len: "length xs < 2 ^ 32" by simp
  from add_record_ok [OF ok Cons.prems(1) len Cons.prems(3)] Cons.prems(4) obtain st1
    where st1: "add_record so v st = Inr st1" "ss_budget st1 = None" by auto
  from Cons.IH [OF add_record_inv [OF ok Cons.prems(1) len st1(1)] _ st1(2)] Cons.prems(2,4) st1(1)
  show ?case by simp
qed simp

lemma final_merge_ok:
  assumes ok: "sorter_ok so"
  shows "\<lbrakk>list_all2 (level_holds so) ls segs; level_holds so final us;
     length (us @ concat segs) < 2 ^ 32; ss_budget st = None\<rbrakk>
    \<Longrightarrow> \<exists>final' st'. final_merge so ls final st = Inr (final', st') \<and> ss_budget st' = None"
proof (induction ls arbitrary: final st segs us)
  case (Cons l ls)
  then obtain seg segs' where segs: "segs = seg # segs'" "level_holds so l seg"
    "list_all2 (level_holds so) ls segs'"
    by (auto simp: list_all2_Cons1)
  consider "l = None" | r where "l = Some r" "final = None" | r f where "l = Some r" "final = Some f"
    by (cases l; cases final) auto
  then show ?case
  proof cases
    case 1
    with Cons.prems segs Cons.IH [OF segs(3)] show ?thesis by simp
  next
    case 2
    with Cons.prems segs Cons.IH [OF segs(3), of "Some r" seg st] show ?thesis by simp
  next
    case 3
    then have h: "run_holds so us f" "run_holds so seg r" "length (us @ seg) < 2 ^ 32"
      using Cons.prems segs by simp_all
    from merge_runs_ok [OF ok h Cons.prems(4)] obtain f1 st1
      where m: "merge_runs so f r st = Inr (f1, st1)" "ss_budget st1 = None" by blast
    from Cons.IH [OF segs(3), of "Some f1" "us @ seg" st1] merge_runs_holds(1) [OF ok h m(1)] m
      Cons.prems(3) segs(1) 3 show ?thesis by simp
  qed
qed simp

lemma externalSort_succeeds:
  assumes ok: "sorter_ok so" and len: "length xs < 2 ^ 32" and adm: "list_all (admissible so) xs"
  shows "externalSort so None (xs, None) = Inr (SliceStable (so_less so) xs, length xs, None)"
proof -
  let ?st0 = "\<lparr>ss_seq = 0, ss_levels = [], ss_chunk = [], ss_bytes = 0, ss_count = 0,
     ss_budget = None\<rparr> :: 'a sort_state"
  have inv0: "sort_inv so [] ?st0" by (simp add: sort_inv_def levels_hold_Nil)
  with sort_loop_ok [OF ok inv0] len adm obtain st1
    where st1: "sort_loop so xs None ?st0 = Inr st1" "ss_budget st1 = None" by auto
  have inv1: "sort_inv so xs st1" using sort_loop_inv [OF ok st1(1) inv0] len by simp
  from flush_ok [OF ok inv1 len st1(2)] obtain st2
    where st2: "flush so st1 = Inr st2" "ss_budget st2 = None" by blast
  from flush_inv [OF ok inv1 len st2(1)] obtain segs where
    segs: "list_all2 (level_holds so) (ss_levels st2) segs" "xs = concat (rev segs)"
    by (auto simp: sort_inv_def levels_hold_def)
  then have segs': "list_all2 (level_holds so) (rev (ss_levels st2)) (rev segs)" by simp
  from final_merge_ok [OF ok this, of None "[]" st2] segs(2) len st2(2) obtain final st3
    where st3: "final_merge so (rev (ss_levels st2)) None st2 = Inr (final, st3)" "ss_budget st3 = None"
    by auto
  from final_merge_holds [OF ok st3(1) segs', of "[]"] segs(2) len
  have fin: "level_holds so final xs" by simp
  have "\<exists>recs n. externalSort so None (xs, None) = Inr (recs, n, None)"
  proof (cases final)
    case None
    have "write_run (so_enc so) (next_path so (ss_seq st3)) None ([] :: 'a list) = Inr (bucket_meta [], bucket_bytes [], None)"
      by (rule write_run_ok) simp_all
    moreover from this have "run_holds so [] ([], bucket_bytes [])"
      by (intro write_run_holds [of so _ _ "[]"]) simp_all
    then have "read_run so (bucket_bytes []) = Inr []" using read_run_holds [OF ok, of "[]"] by force
    ultimately show ?thesis using st1(1) st2(1) st3 None by (simp add: externalSort_def)
  next
    case (Some f)
    then have "read_run so (snd f) = Inr (SliceStable (so_less so) xs)"
      using fin read_run_holds [OF ok] by simp
    then show ?thesis using st1(1) st2(1) st3 Some by (simp add: externalSort_def)
  qed
  then obtain recs n where "externalSort so None (xs, None) = Inr (recs, n, None)" by blast
  with externalSort_result [OF ok len this] show ?thesis by simp
qed

section \<open>Properties\<close>

definition byte_sorter :: "byte sorter" where
  "byte_sorter = \<lparr>so_dir = [''tmp''], so_enc = byteEncode, so_dec = byteDecode, so_less = (<),
     so_recordBytes = 16, so_memoryBytes = 130\<rparr>"

lemma byte_sorter_ok: "sorter_ok byte_sorter"
  by (auto simp: sorter_ok_def byte_sorter_def byte_codec_ok strict_weak_order_def)


text \<open>
  C9: without a disk limit the external sort of records that fit the record limit and the memory
  budget returns, for every memory budget, and yields the stable sort of the whole input.
\<close>

theorem external_sort_total:
  assumes "sorter_ok so" and "length xs < 2 ^ 32" and "list_all (admissible so) xs"
  shows "externalSort so None (xs, None) = Inr (SliceStable (so_less so) xs, length xs, None)"
  by (rule externalSort_succeeds [OF assms])

theorem external_sort_total_witness:
  "externalSort byte_sorter None ([5, 3, 9, 1, 4], None) = Inr ([1, 3, 4, 5, 9], 5, None)"
proof -
  have "list_all (admissible byte_sorter) [5, 3, 9, 1, 4]"
    by (simp add: admissible_def byte_sorter_def byteEncode_def)
  from external_sort_total [OF byte_sorter_ok _ this] show ?thesis by (simp add: byte_sorter_def)
qed


end
