(* ===== verification/Aggregation.thy ===== *)
theory Aggregation
  imports Iterators Keys External_Sort "HOL-Library.List_Lexorder" "HOL-Library.Char_ord"
begin

text \<open>
  \<^verbatim>\<open>external_aggregate.go\<close>, \<^verbatim>\<open>shuffle_combine.go\<close> and \<^verbatim>\<open>aggregator.go\<close>: the map-side combiner and
  the reduce side of the keyed operations. A reducer sorts its records by the token of their
  key (\<^verbatim>\<open>sortedPairs\<close>), so that equal keys are adjacent, and folds each group while it pulls the
  sorted stream. The theory shows that every key of the input is delivered exactly once, with
  its values in the order in which they arrived, and that the combiner of the map side does not
  change the result of an associative and commutative reduction.
\<close>

section \<open>Sorting by key token\<close>

definition token :: "gokey \<Rightarrow> string" where
  "token key = (case keyToken key of Inl _ \<Rightarrow> [] | Inr s \<Rightarrow> s)"

definition token_less :: "gokey \<times> 'v \<Rightarrow> gokey \<times> 'v \<Rightarrow> bool" where
  "token_less a b \<longleftrightarrow> token (fst a) < token (fst b)"

text \<open>
  The comparison panics on a key that has no token. Every record takes part in a comparison as
  soon as there are two of them, so the first such key ends the sort.
\<close>

fun token_error :: "gokey list \<Rightarrow> goerr option" where
  "token_error [] = None"
| "token_error (k # ks) = (case keyToken k of Inl e \<Rightarrow> Some e | Inr _ \<Rightarrow> token_error ks)"

definition sortedPairs ::
  "(gokey \<times> 'v) sorter \<Rightarrow> diskBudget option \<Rightarrow> (gokey \<times> 'v) recordStream
     \<Rightarrow> ((gokey \<times> 'v) list \<times> diskBudget option) res" where
  "sortedPairs so budget input =
     (case (if length (fst input) < 2 then None else token_error (map fst (fst input))) of
        Some e \<Rightarrow> Inl e
      | None \<Rightarrow>
          bindR (externalSort (so\<lparr>so_less := token_less\<rparr>) budget input)
            (\<lambda>(recs, n, b). Inr (recs, b)))"

section \<open>The grouping iterators\<close>

text \<open>
  The body that \<^verbatim>\<open>aggregatePairs\<close> and \<^verbatim>\<open>boundedGroups\<close> share: take the first record of a group
  from \<^verbatim>\<open>pending\<close> or from the stream, then pull records while the key stays the same; the first
  record of the next group becomes pending.
\<close>

definition group_first ::
  "('k \<times> 'v) option \<Rightarrow> ('k \<times> 'v) recordStream \<Rightarrow> (('k \<times> 'v) \<times> ('k \<times> 'v) recordStream) option res" where
  "group_first pending s =
     (case pending of
        Some p \<Rightarrow> Inr (Some (p, s))
      | None \<Rightarrow> (case s of
            (p # rest, r) \<Rightarrow> Inr (Some (p, (rest, r)))
          | ([], None) \<Rightarrow> Inr None
          | ([], Some e) \<Rightarrow> Inl e))"

fun group_loop ::
  "('c \<Rightarrow> 'v \<Rightarrow> 'c res) \<Rightarrow> 'k \<Rightarrow> 'c \<Rightarrow> ('k \<times> 'v) list \<Rightarrow> goerr option
     \<Rightarrow> ('c \<times> ('k \<times> 'v) option \<times> ('k \<times> 'v) recordStream) res" where
  "group_loop step key acc [] None = Inr (acc, None, ([], None))"
| "group_loop step key acc [] (Some e) = Inl e"
| "group_loop step key acc (p # rest) r =
     (if fst p \<noteq> key then Inr (acc, Some p, (rest, r))
      else bindR (step acc (snd p)) (\<lambda>acc'. group_loop step key acc' rest r))"

definition group_next ::
  "('v \<Rightarrow> 'c res) \<Rightarrow> ('c \<Rightarrow> 'v \<Rightarrow> 'c res) \<Rightarrow> ('k \<times> 'v) option \<Rightarrow> ('k \<times> 'v) recordStream
     \<Rightarrow> (('k \<times> 'c) \<times> ('k \<times> 'v) option \<times> ('k \<times> 'v) recordStream) option res" where
  "group_next start step pending s =
     bindR (group_first pending s) (\<lambda>r. case r of
        None \<Rightarrow> Inr None
      | Some ((key, v), (rest, fin)) \<Rightarrow>
          bindR (start v) (\<lambda>acc.
          bindR (group_loop step key acc rest fin) (\<lambda>(acc', pending', s').
            Inr (Some ((key, acc'), pending', s')))))"

primcorec group_iter ::
  "('v \<Rightarrow> 'c res) \<Rightarrow> ('c \<Rightarrow> 'v \<Rightarrow> 'c res) \<Rightarrow> ('k \<times> 'v) option \<Rightarrow> ('k \<times> 'v) recordStream
     \<Rightarrow> ('k \<times> 'c) Iterator" where
  "group_iter start step pending s =
     (case group_next start step pending s of
        Inl e \<Rightarrow> Panic e
      | Inr r \<Rightarrow> (case r of
          None \<Rightarrow> Stop
        | Some (x, pending', s') \<Rightarrow> Yield x (group_iter start step pending' s')))"

text \<open>The closure \<^verbatim>\<open>check\<close>: a combiner may not outgrow the limit once encoded.\<close>

definition check_combiner :: "('c \<Rightarrow> byte list res) \<Rightarrow> nat \<Rightarrow> 'c \<Rightarrow> 'c res" where
  "check_combiner encC lim acc =
     bindR (encC acc) (\<lambda>p.
       if length p > lim then Inl (Err ''group/combiner exceeds encoded bytes'') else Inr acc)"

definition aggregatePairs ::
  "('v \<Rightarrow> 'c) \<Rightarrow> ('c \<Rightarrow> 'v \<Rightarrow> 'c) \<Rightarrow> ('c \<Rightarrow> byte list res) \<Rightarrow> nat \<Rightarrow> ('k \<times> 'v) recordStream
     \<Rightarrow> ('k \<times> 'c) Iterator" where
  "aggregatePairs create merge encC lim s =
     group_iter (\<lambda>v. check_combiner encC lim (create v))
       (\<lambda>acc v. check_combiner encC lim (merge acc v)) None s"

text \<open>The closure \<^verbatim>\<open>add\<close> of \<^verbatim>\<open>boundedGroups\<close>: the values and their accounted size.\<close>

definition add_value ::
  "('v \<Rightarrow> byte list res) \<Rightarrow> nat \<Rightarrow> 'v list \<times> nat \<Rightarrow> 'v \<Rightarrow> ('v list \<times> nat) res" where
  "add_value encV groupBytes acc v =
     bindR (encV v) (\<lambda>p.
       let sz = snd acc + length p + 32 in
       if sz > groupBytes then Inl (Err ''GroupByKey key exceeds MaxGroupBytes'')
       else Inr (fst acc @ [v], sz))"

definition boundedGroups ::
  "('v \<Rightarrow> byte list res) \<Rightarrow> nat \<Rightarrow> ('k \<times> 'v) recordStream \<Rightarrow> ('k \<times> 'v list) Iterator" where
  "boundedGroups encV groupBytes s =
     MapIterator (group_iter (add_value encV groupBytes ([], 0)) (add_value encV groupBytes) None s)
       (\<lambda>(key, values, sz). (key, values))"

section \<open>The map-side combiner\<close>

record ('v, 'c) Aggregator =
  CreateCombiner :: "'v \<Rightarrow> 'c"
  MergeValue :: "'c \<Rightarrow> 'v \<Rightarrow> 'c"
  MergeCombiners :: "'c \<Rightarrow> 'c \<Rightarrow> 'c"

text \<open>
  The table of \<^verbatim>\<open>combineMapOutput\<close> as an association list in order of first insertion. Go
  iterates over the finished table in no particular order: \<open>order\<close> is that choice.
\<close>

fun slot_update :: "('v, 'c) Aggregator \<Rightarrow> 'k \<Rightarrow> 'v \<Rightarrow> ('k \<times> 'c) list \<Rightarrow> ('k \<times> 'c) list" where
  "slot_update agg k v [] = [(k, CreateCombiner agg v)]"
| "slot_update agg k v ((k', c) # slots) =
     (if k' = k then (k', MergeValue agg c v) # slots else (k', c) # slot_update agg k v slots)"

definition combineMapOutput ::
  "(('k \<times> 'v) list \<Rightarrow> ('k \<times> 'v) list) \<Rightarrow> ('v, 'v) Aggregator option \<Rightarrow> bool
     \<Rightarrow> ('k \<times> 'v) list \<Rightarrow> ('k \<times> 'v) list" where
  "combineMapOutput order agg mapSide items =
     (if \<not> mapSide \<or> agg = None \<or> items = [] then items
      else order (foldl (\<lambda>slots (k, v). slot_update (the agg) k v slots) [] items))"

section \<open>What the grouping iterators deliver\<close>

function groups :: "('k \<times> 'v) list \<Rightarrow> ('k \<times> 'v list) list" where
  "groups [] = []"
| "groups ((k, v) # xs) =
     (k, v # map snd (takeWhile (\<lambda>p. fst p = k) xs)) # groups (dropWhile (\<lambda>p. fst p = k) xs)"
  by pat_completeness auto
termination
  by (relation "measure length") (auto simp: le_imp_less_Suc length_dropWhile_le)

text \<open>The fold of one group, and of one group after the other until a fold fails.\<close>

fun fold_res :: "('c \<Rightarrow> 'v \<Rightarrow> 'c res) \<Rightarrow> 'c \<Rightarrow> 'v list \<Rightarrow> 'c res" where
  "fold_res step acc [] = Inr acc"
| "fold_res step acc (v # vs) = bindR (step acc v) (\<lambda>acc'. fold_res step acc' vs)"

definition group_result :: "('v \<Rightarrow> 'c res) \<Rightarrow> ('c \<Rightarrow> 'v \<Rightarrow> 'c res) \<Rightarrow> 'v list \<Rightarrow> 'c res" where
  "group_result start step vs = bindR (start (hd vs)) (\<lambda>acc. fold_res step acc (tl vs))"

fun run_groups ::
  "('v list \<Rightarrow> 'c res) \<Rightarrow> ('k \<times> 'v list) list \<Rightarrow> ('k \<times> 'c) list \<times> goerr option" where
  "run_groups f [] = ([], None)"
| "run_groups f ((k, vs) # gs) =
     (case f vs of
        Inl e \<Rightarrow> ([], Some e)
      | Inr c \<Rightarrow> let (out, r) = run_groups f gs in ((k, c) # out, r))"

lemma group_iter_pending:
  "group_iter start step (Some p) (xs, r) = group_iter start step None (p # xs, r)"
  by (subst (1 2) group_iter.code) (simp add: group_next_def group_first_def)

lemma group_loop_eq:
  "group_loop step key acc xs None =
     bindR (fold_res step acc (map snd (takeWhile (\<lambda>p. fst p = key) xs))) (\<lambda>acc'.
       Inr (case dropWhile (\<lambda>p. fst p = key) xs of
              [] \<Rightarrow> (acc', None, ([], None)) | p # rest \<Rightarrow> (acc', Some p, (rest, None))))"
proof (induction xs arbitrary: acc)
  case (Cons p xs)
  then show ?case by (cases "step acc (snd p)") simp_all
qed simp

lemma emits_group_iter:
  "emits (group_iter start step None (xs, None))
     (fst (run_groups (group_result start step) (groups xs)))
     (snd (run_groups (group_result start step) (groups xs)))"
proof (induction xs rule: groups.induct)
  case 1
  show ?case by (subst group_iter.code) (simp add: group_next_def group_first_def)
next
  case (2 k v xs)
  let ?same = "map snd (takeWhile (\<lambda>p. fst p = k) xs)" and ?rest = "dropWhile (\<lambda>p. fst p = k) xs"
  show ?case
  proof (cases "group_result start step (v # ?same)")
    case (Inl e)
    then have "group_next start step None ((k, v) # xs, None) = Inl e"
      by (auto simp: group_next_def group_first_def group_loop_eq group_result_def bindR_Inl_conv)
    with Inl show ?thesis by (subst group_iter.code) simp
  next
    case (Inr c)
    then obtain acc where acc: "start v = Inr acc" "fold_res step acc ?same = Inr c"
      by (auto simp: group_result_def bindR_Inr_conv)
    have "group_iter start step None ((k, v) # xs, None)
        = Yield (k, c) (group_iter start step None (?rest, None))"
      by (subst group_iter.code)
        (auto simp: group_next_def group_first_def group_loop_eq acc group_iter_pending
          split: list.splits simp del: dropWhile_eq_Nil_conv)
    with 2 Inr show ?thesis by (simp add: split_beta)
  qed
qed

section \<open>Adjacent groups are whole groups\<close>

definition values_of :: "'k \<Rightarrow> ('k \<times> 'v) list \<Rightarrow> 'v list" where
  "values_of k xs = map snd (filter (\<lambda>p. fst p = k) xs)"

lemma values_of_simps [simp]:
  "values_of k [] = []"
  "values_of k ((j, v) # xs) = (if j = k then v # values_of k xs else values_of k xs)"
  "values_of k (xs @ ys) = values_of k xs @ values_of k ys"
  by (simp_all add: values_of_def)

lemma values_of_eq_Nil: "values_of k xs = [] \<longleftrightarrow> k \<notin> fst ` set xs"
  by (auto simp: values_of_def filter_empty_conv)

lemma values_of_takeWhile:
  assumes "\<forall>p \<in> set (dropWhile (\<lambda>p. fst p = k) xs). fst p \<noteq> k"
  shows "values_of k xs = map snd (takeWhile (\<lambda>p. fst p = k) xs)"
    and "j \<noteq> k \<Longrightarrow> values_of j xs = values_of j (dropWhile (\<lambda>p. fst p = k) xs)"
proof -
  let ?P = "\<lambda>p. fst p = k"
  have halves: "filter Q xs = filter Q (takeWhile ?P xs) @ filter Q (dropWhile ?P xs)" for Q
    unfolding filter_append [symmetric] takeWhile_dropWhile_id ..
  have "filter ?P (takeWhile ?P xs) = takeWhile ?P xs"
    unfolding filter_id_conv by (blast dest: set_takeWhileD)
  moreover have "filter ?P (dropWhile ?P xs) = []"
    unfolding filter_empty_conv by (rule assms)
  ultimately show "values_of k xs = map snd (takeWhile ?P xs)" by (simp add: values_of_def halves)
  assume "j \<noteq> k"
  then have "filter (\<lambda>p. fst p = j) (takeWhile ?P xs) = []"
    unfolding filter_empty_conv by (blast dest: set_takeWhileD)
  then show "values_of j xs = values_of j (dropWhile ?P xs)" by (simp add: values_of_def halves)
qed

lemma dropWhile_sorted_keys:
  fixes t :: "'k \<Rightarrow> 'o :: linorder"
  assumes "sorted_wrt (\<lambda>a b. t (fst a) \<le> t (fst b)) ((k, v) # xs)" and "inj_on t (fst ` set ((k, v) # xs))"
  shows "\<forall>p \<in> set (dropWhile (\<lambda>p. fst p = k) xs). fst p \<noteq> k"
proof (cases "dropWhile (\<lambda>p. fst p = k) xs")
  case (Cons q rest)
  let ?d = "dropWhile (\<lambda>p. fst p = k) xs"
  have sub: "set ?d \<subseteq> set xs" by (auto dest: set_dropWhileD)
  have q: "fst q \<noteq> k" "q \<in> set xs" using Cons sub hd_dropWhile [of "\<lambda>p. fst p = k" xs] by auto
  then have "t k < t (fst q)"
    using assms by (auto simp: inj_on_def intro!: order_neq_le_trans)
  moreover have "sorted_wrt (\<lambda>a b. t (fst a) \<le> t (fst b)) ?d"
    using assms(1) sorted_wrt_drop [of _ xs] by (auto simp: dropWhile_eq_drop)
  ultimately show ?thesis using Cons by fastforce
qed (simp del: dropWhile_eq_Nil_conv)

lemma groups_sorted:
  fixes t :: "'k \<Rightarrow> 'o :: linorder"
  assumes "sorted_wrt (\<lambda>a b. t (fst a) \<le> t (fst b)) xs" and "inj_on t (fst ` set xs)"
  shows "groups xs = map (\<lambda>k. (k, values_of k xs)) (map fst (groups xs))
     \<and> distinct (map fst (groups xs)) \<and> set (map fst (groups xs)) = fst ` set xs"
  using assms
proof (induction xs rule: groups.induct)
  case (2 k v xs)
  let ?d = "dropWhile (\<lambda>p. fst p = k) xs"
  have ne: "\<forall>p \<in> set ?d. fst p \<noteq> k" using dropWhile_sorted_keys "2.prems" by metis
  have "sorted_wrt (\<lambda>a b. t (fst a) \<le> t (fst b)) ?d"
    using "2.prems"(1) sorted_wrt_drop [of _ xs] by (auto simp: dropWhile_eq_drop)
  moreover have "inj_on t (fst ` set ?d)"
    by (rule inj_on_subset [OF "2.prems"(2)]) (auto dest: set_dropWhileD)
  ultimately have IH: "groups ?d = map (\<lambda>k. (k, values_of k ?d)) (map fst (groups ?d))"
    "distinct (map fst (groups ?d))" "set (map fst (groups ?d)) = fst ` set ?d"
    using "2.IH" by blast+
  have eq: "values_of j ?d = values_of j ((k, v) # xs)" if "j \<in> set (map fst (groups ?d))" for j
  proof -
    have "j \<in> fst ` set ?d" using that IH(3) by simp
    then have "j \<noteq> k" using ne by blast
    then show ?thesis using values_of_takeWhile(2) [OF ne] by simp
  qed
  have "groups ?d = map (\<lambda>j. (j, values_of j ((k, v) # xs))) (map fst (groups ?d))"
    by (rule trans [OF IH(1)], rule map_cong [OF refl]) (simp only: eq)
  moreover have "(k, v # map snd (takeWhile (\<lambda>p. fst p = k) xs)) = (k, values_of k ((k, v) # xs))"
    using values_of_takeWhile(1) [OF ne] by simp
  ultimately have gs: "groups ((k, v) # xs)
      = map (\<lambda>j. (j, values_of j ((k, v) # xs))) (map fst (groups ((k, v) # xs)))"
    unfolding groups.simps list.map fst_conv by (rule arg_cong2 [of _ _ _ _ Cons, rotated])
  have "set xs = set (takeWhile (\<lambda>p. fst p = k) xs) \<union> set ?d"
    by (metis set_append takeWhile_dropWhile_id)
  then have "insert k (fst ` set xs) = insert k (fst ` set (takeWhile (\<lambda>p. fst p = k) xs) \<union> fst ` set ?d)"
    by (simp add: image_Un)
  also have "\<dots> = insert k (fst ` set ?d)" by (blast dest: set_takeWhileD)
  finally have "insert k (fst ` set xs) = insert k (fst ` set ?d)" .
  then have "set (map fst (groups ((k, v) # xs))) = fst ` set ((k, v) # xs)" using IH(3) by simp
  moreover have "k \<notin> set (map fst (groups ?d))" unfolding IH(3) using ne by blast
  then have "distinct (map fst (groups ((k, v) # xs)))" using IH(2) by simp
  ultimately show ?case using gs by blast
qed simp

lemma run_groups_ok:
  "(\<And>k vs. (k, vs) \<in> set gs \<Longrightarrow> f vs = Inr (c k)) \<Longrightarrow>
     run_groups f gs = (map (\<lambda>(k, vs). (k, c k)) gs, None)"
proof (induction gs)
  case (Cons g gs)
  have "f (snd g) = Inr (c (fst g))" by (cases g) (simp add: Cons.prems)
  moreover have "run_groups f gs = (map (\<lambda>(k, vs). (k, c k)) gs, None)"
    by (rule Cons.IH) (simp add: Cons.prems)
  ultimately show ?case by (cases g) simp
qed simp

section \<open>Sorting by token makes equal keys adjacent\<close>

text \<open>Keys of one Go type that have tokens.\<close>

definition keys_ok :: "gokey list \<Rightarrow> bool" where
  "keys_ok ks \<longleftrightarrow> token_error ks = None \<and> (\<forall>a \<in> set ks. \<forall>b \<in> set ks. same_type a b)"

lemma token_error_None: "token_error ks = None \<longleftrightarrow> (\<forall>k \<in> set ks. \<exists>s. keyToken k = Inr s)"
  by (induction ks) (auto split: sum.splits)

lemma keys_ok_inj: "keys_ok ks \<Longrightarrow> inj_on token (set ks)"
  by (intro inj_onI) (auto simp: keys_ok_def token_error_None token_def dest: keyToken_inject
      split: sum.splits; metis Inr_inject keyToken_inject sum.distinct(1))

lemma token_less_swo: "strict_weak_order token_less"
  by (auto simp: strict_weak_order_def token_less_def)

lemma values_of_SliceStable:
  assumes "inj_on token (fst ` set xs)"
  shows "values_of k (SliceStable token_less xs) = values_of k xs"
proof (cases "k \<in> fst ` set xs")
  case True
  then obtain v where "(k, v) \<in> set xs" by force
  have *: "filter (\<lambda>p. fst p = k) ys = filter (\<lambda>p. \<not> token_less p (k, v) \<and> \<not> token_less (k, v) p) ys"
    if "set ys = set xs" for ys
  proof (rule filter_cong [OF refl])
    fix p assume "p \<in> set ys"
    then have "token (fst p) = token k \<longleftrightarrow> fst p = k"
      using True that assms by (auto dest: inj_onD)
    then show "(fst p = k) = (\<not> token_less p (k, v) \<and> \<not> token_less (k, v) p)"
      by (auto simp: token_less_def)
  qed
  show ?thesis
    by (simp only: values_of_def * [OF set_SliceStable] * [OF refl] SliceStable_stable [OF token_less_swo])
next
  case False
  then have "k \<notin> fst ` set (SliceStable token_less xs)" by simp
  with False show ?thesis using values_of_eq_Nil [of k] by metis
qed

lemma groups_SliceStable:
  assumes "keys_ok (map fst xs)"
  defines "gs \<equiv> groups (SliceStable token_less xs)"
  shows "gs = map (\<lambda>k. (k, values_of k xs)) (map fst gs)
     \<and> distinct (map fst gs) \<and> set (map fst gs) = fst ` set xs"
proof -
  have inj: "inj_on token (fst ` set xs)" using keys_ok_inj [OF assms(1)] by simp
  have "sorted_wrt (\<lambda>a b. token (fst a) \<le> token (fst b)) (SliceStable token_less xs)"
    using ascending_SliceStable [OF token_less_swo, of xs]
    by (simp add: ascending_def token_less_def not_less)
  from groups_sorted [OF this] inj show ?thesis
    unfolding gs_def by (simp add: values_of_SliceStable [OF inj])
qed

text \<open>
  The reduce side as a whole: the sorted stream of the records \<open>xs\<close>, grouped and folded.
\<close>

definition group_keys :: "(gokey \<times> 'v) list \<Rightarrow> gokey list" where
  "group_keys xs = map fst (groups (SliceStable token_less xs))"

lemma grouped_emits:
  assumes "keys_ok (map fst xs)"
    and "\<And>k. k \<in> fst ` set xs \<Longrightarrow> group_result start step (values_of k xs) = Inr (c k)"
  shows "emits (group_iter start step None (SliceStable token_less xs, None)) (map (\<lambda>k. (k, c k)) (group_keys xs)) None"
proof -
  let ?gs = "groups (SliceStable token_less xs)"
  note gs = groups_SliceStable [OF assms(1)]
  have "(k, vs) \<in> set ?gs \<Longrightarrow> group_result start step vs = Inr (c k)" for k vs
  proof -
    assume kv: "(k, vs) \<in> set ?gs"
    then have "k \<in> fst ` set xs" using gs by force
    moreover have "(k, vs) \<in> set (map (\<lambda>k. (k, values_of k xs)) (map fst ?gs))"
      using kv gs by metis
    then have "vs = values_of k xs" by auto
    ultimately show ?thesis using assms(2) by simp
  qed
  then have "run_groups (group_result start step) ?gs = (map (\<lambda>(k, vs). (k, c k)) ?gs, None)"
    by (rule run_groups_ok)
  then show ?thesis
    using emits_group_iter [of start step "SliceStable token_less xs"]
    by (simp add: comp_def case_prod_beta' split_beta group_keys_def)
qed

lemma set_group_keys:
  assumes "keys_ok (map fst xs)"
  shows "distinct (group_keys xs)" and "set (group_keys xs) = fst ` set xs"
  using groups_SliceStable [OF assms] by (simp_all add: group_keys_def)

lemma groups_keys_sorted:
  fixes t :: "'k \<Rightarrow> 'o :: linorder"
  shows "sorted_wrt (\<lambda>a b. t (fst a) \<le> t (fst b)) xs \<Longrightarrow>
    set (map fst (groups xs)) \<subseteq> fst ` set xs \<and> sorted_wrt (\<lambda>a b. t a \<le> t b) (map fst (groups xs))"
proof (induction xs rule: groups.induct)
  case (2 k v xs)
  let ?d = "dropWhile (\<lambda>p. fst p = k) xs"
  have "sorted_wrt (\<lambda>a b. t (fst a) \<le> t (fst b)) ?d"
    using "2.prems" sorted_wrt_drop [of _ xs] by (auto simp: dropWhile_eq_drop)
  note IH = "2.IH" [OF this]
  have "fst ` set ?d \<subseteq> fst ` set xs" using set_dropWhileD by fastforce
  then have sub: "set (map fst (groups ?d)) \<subseteq> fst ` set xs" using IH by blast
  have "\<forall>j \<in> fst ` set xs. t k \<le> t j" using "2.prems" by auto
  then have "\<forall>j \<in> set (map fst (groups ?d)). t k \<le> t j" using sub by blast
  then show ?case using IH sub by (simp add: subset_insertI2)
qed simp

lemma group_keys_sorted:
  assumes "keys_ok (map fst xs)"
  shows "sorted_wrt (\<lambda>a b. token a < token b) (group_keys xs)"
proof -
  have inj: "inj_on token (set (group_keys xs))"
    using keys_ok_inj [OF assms] set_group_keys(2) [OF assms] by simp
  have "sorted_wrt (\<lambda>a b. token (fst a) \<le> token (fst b)) (SliceStable token_less xs)"
    using ascending_SliceStable [OF token_less_swo, of xs] by (simp add: ascending_def token_less_def not_less)
  from groups_keys_sorted [OF this] have "sorted_wrt (\<lambda>a b. token a \<le> token b) (group_keys xs)"
    by (simp add: group_keys_def)
  moreover have "distinct (map token (group_keys xs))" using inj set_group_keys(1) [OF assms] by (simp add: distinct_map)
  ultimately show ?thesis
    by (induction "group_keys xs" rule: list.induct)
      (auto simp: sorted_wrt_iff_nth_less distinct_conv_nth order_le_less nth_eq_iff_index_eq)
qed

lemma grouped_result:
  assumes "keys_ok (map fst xs)"
    and "\<And>k. k \<in> fst ` set xs \<Longrightarrow> group_result start step (values_of k xs) = Inr (c k)"
  shows "\<exists>ks. distinct ks \<and> set ks = fst ` set xs \<and>
     emits (group_iter start step None (SliceStable token_less xs, None)) (map (\<lambda>k. (k, c k)) ks) None"
  using grouped_emits [OF assms] set_group_keys [OF assms(1)] by blast

lemma sortedPairs_result:
  assumes "keys_ok (map fst xs)" and "sorter_ok (so\<lparr>so_less := token_less\<rparr>)" and "length xs < 2 ^ 32"
    and "sortedPairs so budget (xs, r) = Inr (ys, b)"
  shows "ys = SliceStable token_less xs \<and> r = None"
  using assms externalSort_result [of "so\<lparr>so_less := token_less\<rparr>" xs budget r]
  by (auto simp: sortedPairs_def bindR_Inr_conv split: if_splits option.splits)

section \<open>The map-side combiner keeps the reduction\<close>

text \<open>The reduction of a non-empty list, and what the aggregator computes from it.\<close>

definition combine :: "('v, 'c) Aggregator \<Rightarrow> 'v list \<Rightarrow> 'c" where
  "combine agg vs = foldl (MergeValue agg) (CreateCombiner agg (hd vs)) (tl vs)"

lemma combine_snoc: "vs \<noteq> [] \<Longrightarrow> combine agg (vs @ [v]) = MergeValue agg (combine agg vs) v"
  by (cases vs) (simp_all add: combine_def)

lemma slot_update_keys:
  "fst ` set (slot_update agg k v slots) = insert k (fst ` set slots)"
  "distinct (map fst slots) \<Longrightarrow> distinct (map fst (slot_update agg k v slots))"
proof (induction agg k v slots rule: slot_update.induct)
  case (2 agg k v k' c slots)
  have keys: "k' \<noteq> k \<Longrightarrow> fst ` set (slot_update agg k v slots) = insert k (fst ` set slots)"
    by (rule 2)
  { case 1 show ?case using keys by auto }
  { case 2 show ?case using 2 "2.IH" keys by auto }
qed auto

lemma slot_update_values:
  assumes "distinct (map fst slots)"
  shows "values_of j (slot_update agg k v slots) =
     (if j \<noteq> k then values_of j slots
      else case values_of k slots of [] \<Rightarrow> [CreateCombiner agg v] | c # _ \<Rightarrow> [MergeValue agg c v])"
  using assms
proof (induction agg k v slots rule: slot_update.induct)
  case (2 agg k v k' c slots)
  then have "values_of k' slots = []" by (force simp: values_of_eq_Nil)
  with 2 show ?case by auto
qed simp

definition slots_of :: "('v, 'c) Aggregator \<Rightarrow> ('k \<times> 'v) list \<Rightarrow> ('k \<times> 'c) list" where
  "slots_of agg items = foldl (\<lambda>slots (k, v). slot_update agg k v slots) [] items"

lemma slots_of_snoc: "slots_of agg (items @ [p]) = slot_update agg (fst p) (snd p) (slots_of agg items)"
  by (simp add: slots_of_def split_beta)

lemma slots_of_spec:
  "distinct (map fst (slots_of agg items)) \<and> fst ` set (slots_of agg items) = fst ` set items
   \<and> values_of j (slots_of agg items)
       = (if j \<in> fst ` set items then [combine agg (values_of j items)] else [])"
proof (induction items rule: rev_induct)
  case (snoc p items)
  obtain k v where p: "p = (k, v)" by (cases p)
  note keys = slot_update_keys [where slots = "slots_of agg items" and agg = agg and k = k and v = v]
  have vals: "values_of j (slots_of agg (items @ [p])) =
     (if j \<noteq> k then values_of j (slots_of agg items)
      else case values_of k (slots_of agg items) of
        [] \<Rightarrow> [CreateCombiner agg v] | c # _ \<Rightarrow> [MergeValue agg c v])"
    using snoc by (simp add: slots_of_snoc p slot_update_values)
  have "values_of j (slots_of agg (items @ [p])) =
     (if j \<in> fst ` set (items @ [p]) then [combine agg (values_of j (items @ [p]))] else [])"
  proof (cases "j = k")
    case True
    show ?thesis
    proof (cases "k \<in> fst ` set items")
      case in_items: True
      then have "values_of k items \<noteq> []" using values_of_eq_Nil by metis
      with in_items True snoc vals show ?thesis by (simp add: p combine_snoc)
    next
      case False
      then have "values_of k items = []" using values_of_eq_Nil by metis
      with False True snoc vals show ?thesis by (simp add: p combine_def)
    qed
  qed (use snoc vals p in simp)
  with snoc keys show ?case by (simp add: slots_of_snoc p)
qed (simp add: slots_of_def)

text \<open>
  The combiner of an associative reduction: a batch that was combined reduces, with everything
  before and after it, to the same value for every key.
\<close>

definition reduceAggregator :: "('v \<Rightarrow> 'v \<Rightarrow> 'v) \<Rightarrow> ('v, 'v) Aggregator" where
  "reduceAggregator f = \<lparr>CreateCombiner = (\<lambda>v. v), MergeValue = f, MergeCombiners = f\<rparr>"

definition reduce :: "('v \<Rightarrow> 'v \<Rightarrow> 'v) \<Rightarrow> 'v list \<Rightarrow> 'v" where
  "reduce f vs = foldl f (hd vs) (tl vs)"

lemma combine_reduceAggregator [simp]: "combine (reduceAggregator f) vs = reduce f vs"
  by (simp add: combine_def reduceAggregator_def reduce_def)

definition assoc :: "('v \<Rightarrow> 'v \<Rightarrow> 'v) \<Rightarrow> bool" where
  "assoc f \<longleftrightarrow> (\<forall>a b c. f (f a b) c = f a (f b c))"

lemma foldl_assoc: "assoc f \<Longrightarrow> foldl f (f a b) vs = f a (foldl f b vs)"
  by (induction vs arbitrary: b) (simp_all add: assoc_def)

lemma reduce_append:
  "assoc f \<Longrightarrow> us \<noteq> [] \<Longrightarrow> vs \<noteq> [] \<Longrightarrow> reduce f (us @ vs) = f (reduce f us) (reduce f vs)"
  by (cases us; cases vs) (simp_all add: reduce_def foldl_assoc)

lemma values_of_perm:
  assumes "mset ys = mset xs" and "distinct (map fst xs)"
  shows "values_of k ys = values_of k xs"
proof -
  have len: "length (values_of k zs) \<le> 1" if "distinct (map fst zs)" for zs :: "('a \<times> 'b) list"
    using that by (induction zs) (auto simp: values_of_eq_Nil [THEN iffD2])
  have "distinct (map fst ys)"
    using assms by (metis mset_map mset_eq_imp_distinct_iff)
  moreover have "mset (values_of k ys) = mset (values_of k xs)"
    using assms(1) by (simp add: values_of_def)
  ultimately show ?thesis
    using len [of xs] len [of ys] assms(2)
    by (cases "values_of k xs"; cases "values_of k ys") auto
qed

lemma combineMapOutput_values:
  assumes "\<And>zs. mset (order zs) = mset zs"
  shows "values_of k (combineMapOutput order (Some (reduceAggregator f)) True items) =
      (if k \<in> fst ` set items then [reduce f (values_of k items)] else [])"
    and "fst ` set (combineMapOutput order (Some (reduceAggregator f)) True items) = fst ` set items"
proof -
  let ?slots = "slots_of (reduceAggregator f) items"
  have eq: "items \<noteq> [] \<Longrightarrow> combineMapOutput order (Some (reduceAggregator f)) True items = order ?slots"
    by (simp add: combineMapOutput_def slots_of_def)
  have spec: "distinct (map fst ?slots)" "fst ` set ?slots = fst ` set items"
    "values_of k ?slots = (if k \<in> fst ` set items then [reduce f (values_of k items)] else [])"
    using slots_of_spec [of "reduceAggregator f" items k] by auto
  show "values_of k (combineMapOutput order (Some (reduceAggregator f)) True items) =
      (if k \<in> fst ` set items then [reduce f (values_of k items)] else [])"
    using values_of_perm [OF assms spec(1), of k] spec(3) eq
    by (cases "items = []") (simp_all add: combineMapOutput_def)
  have "set (order ?slots) = set ?slots" using assms by (metis set_mset_mset)
  then show "fst ` set (combineMapOutput order (Some (reduceAggregator f)) True items) = fst ` set items"
    using spec(2) eq by (cases "items = []") (simp_all add: combineMapOutput_def)
qed

lemma combine_batches_reduce:
  assumes "assoc f" and "\<And>zs. mset (order zs) = mset zs"
  defines "comb \<equiv> combineMapOutput order (Some (reduceAggregator f)) True"
  shows "values_of k (concat (map comb batches)) = [] \<longleftrightarrow> values_of k (concat batches) = []"
    and "reduce f (values_of k (concat (map comb batches))) = reduce f (values_of k (concat batches))"
proof -
  have head: "values_of k (comb b) = (if values_of k b = [] then [] else [reduce f (values_of k b)])" for b
    using combineMapOutput_values(1) [OF assms(2), of k f b] by (simp add: comb_def values_of_eq_Nil)
  show nil: "values_of k (concat (map comb bs)) = [] \<longleftrightarrow> values_of k (concat bs) = []" for bs
    by (induction bs) (simp_all add: head)
  show "reduce f (values_of k (concat (map comb batches))) = reduce f (values_of k (concat batches))"
  proof (induction batches)
    case (Cons b bs)
    have one: "reduce f [x] = x" for x by (simp add: reduce_def)
    have cons: "reduce f (x # vs) = f x (reduce f vs)" if "vs \<noteq> []" for x vs
      using reduce_append [OF assms(1), of "[x]" vs] that one by simp
    show ?case
      using Cons.IH nil [of bs] reduce_append [OF assms(1)]
      by (cases "values_of k b = []"; cases "values_of k (concat bs) = []") (simp_all add: head one cons)
  qed simp
qed

section \<open>Limits\<close>

lemma fold_res_check:
  assumes "\<And>n. n \<le> length vs \<Longrightarrow> check (foldl merge acc (take n vs)) = Inr (foldl merge acc (take n vs))"
  shows "fold_res (\<lambda>acc v. check (merge acc v)) acc vs = Inr (foldl merge acc vs)"
  using assms
proof (induction vs arbitrary: acc)
  case (Cons v vs)
  have "check (merge acc v) = Inr (merge acc v)" using Cons.prems [of 1] by simp
  moreover have "fold_res (\<lambda>acc v. check (merge acc v)) (merge acc v) vs = Inr (foldl merge (merge acc v) vs)"
    by (rule Cons.IH) (use Cons.prems [of "Suc _"] in simp)
  ultimately show ?case by simp
qed simp

lemma group_result_check:
  assumes "vs \<noteq> []" and "\<And>n. 0 < n \<Longrightarrow> n \<le> length vs \<Longrightarrow> \<exists>p. encC (combine agg (take n vs)) = Inr p \<and> length p \<le> lim"
  shows "group_result (\<lambda>v. check_combiner encC lim (CreateCombiner agg v))
      (\<lambda>acc v. check_combiner encC lim (MergeValue agg acc v)) vs = Inr (combine agg vs)"
proof -
  obtain v ws where vs: "vs = v # ws" using assms(1) by (cases vs) auto
  have ok: "check_combiner encC lim (foldl (MergeValue agg) (CreateCombiner agg v) (take n ws))
      = Inr (foldl (MergeValue agg) (CreateCombiner agg v) (take n ws))" if "n \<le> length ws" for n
    using assms(2) [of "Suc n"] that by (auto simp: vs combine_def check_combiner_def)
  from ok [of 0] fold_res_check [OF ok] show ?thesis
    by (simp add: group_result_def vs combine_def)
qed

text \<open>The accounted size of a group.\<close>

fun group_size :: "('v \<Rightarrow> byte list res) \<Rightarrow> 'v list \<Rightarrow> nat" where
  "group_size encV [] = 0"
| "group_size encV (v # vs) = (case encV v of Inl _ \<Rightarrow> 0 | Inr p \<Rightarrow> length p + 32) + group_size encV vs"

lemma fold_add_value:
  assumes "\<forall>v \<in> set vs. \<exists>p. encV v = Inr p"
  shows "fold_res (add_value encV gb) (us, n) vs =
    (if vs = [] \<or> n + group_size encV vs \<le> gb then Inr (us @ vs, n + group_size encV vs)
     else Inl (Err ''GroupByKey key exceeds MaxGroupBytes''))"
  using assms
proof (induction vs arbitrary: us n)
  case (Cons v vs)
  then obtain p where p: "encV v = Inr p" by auto
  have step: "add_value encV gb (us, n) v = (if n + (length p + 32) > gb
      then Inl (Err ''GroupByKey key exceeds MaxGroupBytes'') else Inr (us @ [v], n + (length p + 32)))"
    by (simp add: add_value_def p Let_def add.assoc)
  have IH: "fold_res (add_value encV gb) (us @ [v], n + (length p + 32)) vs =
    (if vs = [] \<or> n + (length p + 32) + group_size encV vs \<le> gb
     then Inr ((us @ [v]) @ vs, n + (length p + 32) + group_size encV vs)
     else Inl (Err ''GroupByKey key exceeds MaxGroupBytes''))"
    by (rule Cons.IH) (use Cons.prems in simp)
  show ?case
    using p by (cases "n + (length p + 32) > gb"; cases "vs = []") (auto simp: step IH add.assoc)
qed simp

lemma group_result_add_value:
  assumes "vs \<noteq> []" and "\<forall>v \<in> set vs. \<exists>p. encV v = Inr p"
  shows "group_result (add_value encV gb ([], 0)) (add_value encV gb) vs =
    (if group_size encV vs \<le> gb then Inr (vs, group_size encV vs)
     else Inl (Err ''GroupByKey key exceeds MaxGroupBytes''))"
proof -
  have "group_result (add_value encV gb ([], 0)) (add_value encV gb) vs = fold_res (add_value encV gb) ([], 0) vs"
    using assms(1) by (cases vs) (simp_all add: group_result_def)
  with fold_add_value [OF assms(2)] assms(1) show ?thesis by simp
qed

lemma run_groups_fails:
  "(k, vs) \<in> set gs \<Longrightarrow> f vs = Inl e \<Longrightarrow> \<exists>e'. snd (run_groups f gs) = Some e'"
  by (induction gs) (auto split: sum.splits simp: split_beta)

section \<open>Properties\<close>

definition byte_pair_codec_enc :: "gokey \<times> byte \<Rightarrow> byte list res" where
  "byte_pair_codec_enc p = (case fst p of BoolKey b \<Rightarrow> Inr [if b then 1 else 0, snd p] | _ \<Rightarrow> Inl (Err ''key''))"

definition byte_pair_codec_dec :: "byte list \<Rightarrow> (gokey \<times> byte) res" where
  "byte_pair_codec_dec p = (case p of [k, v] \<Rightarrow> Inr (BoolKey (k = 1), v) | _ \<Rightarrow> Inl (Err ''decode''))"

definition byte_pair_sorter :: "(gokey \<times> byte) sorter" where
  "byte_pair_sorter = \<lparr>so_dir = [''tmp''], so_enc = byte_pair_codec_enc, so_dec = byte_pair_codec_dec,
     so_less = token_less, so_recordBytes = 16, so_memoryBytes = 140\<rparr>"

lemma byte_pair_sorter_ok: "sorter_ok (byte_pair_sorter\<lparr>so_less := token_less\<rparr>)"
  by (auto simp: sorter_ok_def byte_pair_sorter_def token_less_swo codec_ok_def byte_pair_codec_enc_def
      byte_pair_codec_dec_def split: gokey.splits)

lemma byte_pair_sorted:
  "\<exists>ys. sortedPairs byte_pair_sorter None ([(BoolKey True, 5), (BoolKey False, 1), (BoolKey True, 7)], None)
     = Inr (ys, None)"
  using externalSort_succeeds [OF byte_pair_sorter_ok,
      of "[(BoolKey True, 5), (BoolKey False, 1), (BoolKey True, 7)]"]
  by (simp add: sortedPairs_def admissible_def byte_pair_sorter_def byte_pair_codec_enc_def)

text \<open>
  The reduce side of a keyed aggregation delivers every key of its input exactly once, with
  the combination of all values of the key in their order of arrival, provided the combiners stay
  within the size limit.
\<close>

lemma aggregate_every_key_once:
  assumes "keys_ok (map fst xs)" and "sorter_ok (so\<lparr>so_less := token_less\<rparr>)" and "length xs < 2 ^ 32"
    and "sortedPairs so budget (xs, r) = Inr (ys, budget')"
    and "\<And>k n. k \<in> fst ` set xs \<Longrightarrow> 0 < n \<Longrightarrow> n \<le> length (values_of k xs) \<Longrightarrow>
      \<exists>p. encC (combine agg (take n (values_of k xs))) = Inr p \<and> length p \<le> lim"
  shows "\<exists>ks. distinct ks \<and> set ks = fst ` set xs \<and>
    emits (aggregatePairs (CreateCombiner agg) (MergeValue agg) encC lim (ys, None))
      (map (\<lambda>k. (k, combine agg (values_of k xs))) ks) None"
proof -
  have "ys = SliceStable token_less xs" using sortedPairs_result [OF assms(1-4)] by simp
  moreover have "group_result (\<lambda>v. check_combiner encC lim (CreateCombiner agg v))
      (\<lambda>acc v. check_combiner encC lim (MergeValue agg acc v)) (values_of k xs)
    = Inr (combine agg (values_of k xs))" if "k \<in> fst ` set xs" for k
    by (rule group_result_check) (use that assms(5) [OF that] values_of_eq_Nil [of k xs] in auto)
  ultimately show ?thesis
    unfolding aggregatePairs_def by (simp add: grouped_result [OF assms(1)])
qed



text \<open>
  Combining map output batch by batch before the shuffle does not change what an associative
  reduction yields for any key, whatever the batches and whatever the order in which the combiner's
  table is enumerated.
\<close>

lemma map_side_combine_transparent:
  assumes "assoc f" and "\<And>zs. mset (order zs) = mset zs"
  defines "comb \<equiv> combineMapOutput order (Some (reduceAggregator f)) True"
  shows "fst ` set (concat (map comb batches)) = fst ` set (concat batches)
    \<and> reduce f (values_of k (concat (map comb batches))) = reduce f (values_of k (concat batches))"
proof -
  have "fst ` set (comb b) = fst ` set b" for b
    unfolding comb_def by (rule combineMapOutput_values(2) [OF assms(2)])
  then have "fst ` set (concat (map comb batches)) = fst ` set (concat batches)"
    by (simp add: image_UN)
  with combine_batches_reduce(2) [OF assms(1,2)] show ?thesis unfolding comb_def by blast
qed

end
