(* ===== verification/Shuffle.thy ===== *)
theory Shuffle
  imports Aggregation
begin

text \<open>
  \<^verbatim>\<open>file_shuffle.go\<close>, \<^verbatim>\<open>shuffle.go\<close> and the \<^verbatim>\<open>DiskShuffleStore\<close> of \<^verbatim>\<open>shuffle_disk.go\<close>: map tasks
  divide their records into one bucket per reducer, the managers remember where the buckets are,
  and a reducer streams its bucket of every map output in map order. The file system is a map
  from paths to bytes. The two managers implement one interface, stated as a locale.
\<close>

type_synonym filesystem = "path \<rightharpoonup> byte list"

definition bucketName :: "nat \<Rightarrow> string" where
  "bucketName reduceID = ''r'' @ format_nat reduceID"

record MapOutputManifest =
  JobID :: string
  ShuffleID :: nat
  MapID :: nat
  Attempt :: nat
  Location :: path
  Buckets :: "ShuffleBucketMeta list"

definition mapDir :: "path \<Rightarrow> string \<Rightarrow> nat \<Rightarrow> nat \<Rightarrow> nat \<Rightarrow> path" where
  "mapDir root job shuffleID mapID attempt =
     root @ [job] @ [''s'' @ format_nat shuffleID]
       @ [''m'' @ format_nat mapID @ ''-a'' @ format_nat attempt]"

text \<open>Creating a file for each bucket of a directory.\<close>

definition put_files :: "path \<Rightarrow> (nat \<times> byte list) list \<Rightarrow> filesystem \<Rightarrow> filesystem" where
  "put_files dir fs store = foldl (\<lambda>m (i, bs). m(dir @ [bucketName i] \<mapsto> bs)) store fs"

section \<open>The disk store\<close>

text \<open>The loop of \<^verbatim>\<open>WriteMap\<close> over the reducers; a reducer without records gets an empty file.\<close>

fun write_buckets ::
  "('r \<Rightarrow> byte list res) \<Rightarrow> (nat \<rightharpoonup> 'r list) \<Rightarrow> nat list
     \<Rightarrow> (ShuffleBucketMeta list \<times> (nat \<times> byte list) list) res" where
  "write_buckets enc buckets [] = Inr ([], [])"
| "write_buckets enc buckets (rid # rids) =
     bindR (writeBucketFile enc (case buckets rid of None \<Rightarrow> [] | Some recs \<Rightarrow> recs))
       (\<lambda>(meta, file).
     bindR (write_buckets enc buckets rids) (\<lambda>(metas, fs).
       Inr (meta\<lparr>ReduceID := int rid\<rparr> # metas, (rid, file) # fs)))"

definition WriteMap ::
  "('r \<Rightarrow> byte list res) \<Rightarrow> path \<Rightarrow> string \<Rightarrow> nat \<Rightarrow> nat \<Rightarrow> nat \<Rightarrow> int \<Rightarrow> (nat \<rightharpoonup> 'r list)
     \<Rightarrow> filesystem \<Rightarrow> (MapOutputManifest \<times> filesystem) res" where
  "WriteMap enc root job shuffleID mapID attempt numReducers buckets store =
     (if numReducers \<le> 0 then Inl (Err ''numReducers must be > 0'')
      else
        let dir = mapDir root job shuffleID mapID attempt in
        bindR (write_buckets enc buckets [0..<nat numReducers]) (\<lambda>(metas, fs).
          Inr (\<lparr>JobID = job, ShuffleID = shuffleID, MapID = mapID, Attempt = attempt,
                Location = dir, Buckets = metas\<rparr>,
               put_files dir fs (\<lambda>p. if under dir p then None else store p))))"

definition ReadBucket ::
  "(byte list \<Rightarrow> 'r res) \<Rightarrow> filesystem \<Rightarrow> MapOutputManifest \<Rightarrow> nat \<Rightarrow> 'r list res" where
  "ReadBucket dec store m reduceID =
     (case store (Location m @ [bucketName reduceID]) of
        None \<Rightarrow> Inl (Err ''read shuffle: no such file'')
      | Some file \<Rightarrow> (case readBucketFile dec file of Inl e \<Rightarrow> Inl (Err ''read shuffle'') | Inr recs \<Rightarrow> Inr recs))"

fun read_reduce_loop ::
  "(byte list \<Rightarrow> 'r res) \<Rightarrow> filesystem \<Rightarrow> nat \<Rightarrow> nat \<Rightarrow> MapOutputManifest list \<Rightarrow> 'r list list \<Rightarrow> nat
     \<Rightarrow> ('r list list \<times> nat) res" where
  "read_reduce_loop dec store sid rid [] out found = Inr (out, found)"
| "read_reduce_loop dec store sid rid (m # ms) out found =
     (if ShuffleID m \<noteq> sid then read_reduce_loop dec store sid rid ms out found
      else bindR (ReadBucket dec store m rid) (\<lambda>recs.
        read_reduce_loop dec store sid rid ms (out @ [recs]) (Suc found)))"

definition ReadReduce ::
  "(byte list \<Rightarrow> 'r res) \<Rightarrow> filesystem \<Rightarrow> nat \<Rightarrow> nat \<Rightarrow> MapOutputManifest list \<Rightarrow> 'r list list res" where
  "ReadReduce dec store sid rid maps =
     bindR (read_reduce_loop dec store sid rid maps [] 0) (\<lambda>(out, found).
       if found = 0 then Inl (Err ''no map outputs for shuffle'') else Inr out)"

section \<open>The streaming map writer\<close>

text \<open>
  A shuffle dependency as the map side uses it; \<open>sd_combine\<close> is \<^verbatim>\<open>combineMapOutput\<close> with the
  dependency's aggregator.
\<close>

record 'r ShuffleDep =
  sd_partitioner :: Partitioner
  sd_key :: "('r \<Rightarrow> gokey) option"
  sd_mapSide :: bool
  sd_combine :: "'r list \<Rightarrow> 'r list"

definition ExtractKey :: "'r ShuffleDep \<Rightarrow> 'r \<Rightarrow> gokey" where
  "ExtractKey dep item = (case sd_key dep of Some f \<Rightarrow> f item | None \<Rightarrow> NilKey)"

record 'r map_task =
  mt_dep :: "'r ShuffleDep"
  mt_enc :: "'r \<Rightarrow> byte list res"
  mt_recordBytes :: nat
  mt_memoryBytes :: nat
  mt_maxBytes :: "int option"
  mt_tmp :: path
  mt_dir :: path

record map_state =
  ms_writers :: "bucketWriter list"
  ms_active :: "nat list"
  ms_usedBytes :: int
  ms_budget :: "diskBudget option"

definition reducer_of :: "'r ShuffleDep \<Rightarrow> 'r \<Rightarrow> int res" where
  "reducer_of dep v =
     (let key = ExtractKey dep v in
      bindR (if sd_key dep \<noteq> None then keyToken key else Inr []) (\<lambda>_.
        if key \<noteq> NilKey then GetPartition (sd_partitioner dep) key else Inr 0))"

text \<open>Opening the writer of bucket \<open>rid\<close>, after suspending the oldest of sixteen open ones.\<close>

definition activate :: "nat \<Rightarrow> map_state \<Rightarrow> map_state" where
  "activate rid st =
     (if bw_open (ms_writers st ! rid) then st
      else
        let st1 =
          (if length (ms_active st) = 16
           then let old = hd (ms_active st) in
             st\<lparr>ms_writers := (ms_writers st)[old := bw_suspend (ms_writers st ! old)],
                ms_active := tl (ms_active st)\<rparr>
           else st) in
        st1\<lparr>ms_active := ms_active st1 @ [rid]\<rparr>)"

definition write_record :: "'r map_task \<Rightarrow> map_state \<Rightarrow> 'r \<Rightarrow> map_state res" where
  "write_record mt st v =
     bindR (reducer_of (mt_dep mt) v) (\<lambda>rid.
     if rid < 0 \<or> rid \<ge> int (length (ms_writers st)) then Inl (Err ''invalid reduce ID'')
     else
     bindR (mt_enc mt v) (\<lambda>p.
     bindR (recordLimit (length p) (mt_recordBytes mt)) (\<lambda>_.
     let cost = int (length p) + 8 in
     if (case mt_maxBytes mt of None \<Rightarrow> False | Some mx \<Rightarrow> cost > mx - ms_usedBytes st)
     then Inl (Err ''shuffle map output exceeds byte limit'')
     else
       let st1 = activate (nat rid) (st\<lparr>ms_usedBytes := ms_usedBytes st + cost\<rparr>) in
       bindR (bw_append (ms_writers st1 ! nat rid) (ms_budget st1) p) (\<lambda>(w, b).
         Inr (st1\<lparr>ms_writers := (ms_writers st1)[nat rid := w], ms_budget := b\<rparr>)))))"

fun write_all :: "'r map_task \<Rightarrow> map_state \<Rightarrow> 'r list \<Rightarrow> map_state res" where
  "write_all mt st [] = Inr st"
| "write_all mt st (v # vs) = bindR (write_record mt st v) (\<lambda>st'. write_all mt st' vs)"

definition flush_batch :: "'r map_task \<Rightarrow> map_state \<Rightarrow> 'r list \<Rightarrow> map_state res" where
  "flush_batch mt st batch = write_all mt st (sd_combine (mt_dep mt) batch)"

text \<open>One record of a map-side combined shuffle joins the batch, which is flushed when it is full.\<close>

definition batch_step ::
  "'r map_task \<Rightarrow> map_state \<Rightarrow> 'r list \<Rightarrow> nat \<Rightarrow> 'r \<Rightarrow> (map_state \<times> 'r list \<times> nat) res" where
  "batch_step mt st batch used' v =
     bindR (mt_enc mt v) (\<lambda>p.
     bindR (recordLimit (length p) (mt_recordBytes mt)) (\<lambda>_.
     bindR (if batch \<noteq> [] \<and> used' + length p + 64 > mt_memoryBytes mt
            then bindR (flush_batch mt st batch) (\<lambda>st1. Inr (st1, [], 0))
            else Inr (st, batch, used')) (\<lambda>(st1, batch1, used1).
       let batch2 = batch1 @ [v];
           used2 = used1 + length p + 64 in
       if used2 \<ge> mt_memoryBytes mt
       then bindR (flush_batch mt st1 batch2) (\<lambda>st2. Inr (st2, [], 0))
       else Inr (st1, batch2, used2))))"

text \<open>The pull loop; \<open>r\<close> is how the parent iterator ends.\<close>

fun map_loop ::
  "'r map_task \<Rightarrow> 'r list \<Rightarrow> goerr option \<Rightarrow> map_state \<Rightarrow> 'r list \<Rightarrow> nat \<Rightarrow> map_state res" where
  "map_loop mt [] (Some e) st batch used' = Inl e"
| "map_loop mt [] None st batch used' = flush_batch mt st batch"
| "map_loop mt (v # vs) r st batch used' =
     (if \<not> sd_mapSide (mt_dep mt)
      then bindR (write_record mt st v) (\<lambda>st'. map_loop mt vs r st' batch used')
      else bindR (batch_step mt st batch used' v) (\<lambda>(st', batch', used'').
        map_loop mt vs r st' batch' used''))"

fun open_writers ::
  "path \<Rightarrow> nat list \<Rightarrow> diskBudget option \<Rightarrow> (bucketWriter list \<times> diskBudget option) res" where
  "open_writers tmp [] b = Inr ([], b)"
| "open_writers tmp (i # is) b =
     bindR (newBucketWriter (tmp @ [bucketName i]) b) (\<lambda>(w, b1).
     bindR (open_writers tmp is b1) (\<lambda>(ws, b2). Inr (w # ws, b2)))"

definition finish_bucket :: "nat \<times> bucketWriter \<Rightarrow> ShuffleBucketMeta \<times> (nat \<times> byte list)" where
  "finish_bucket iw =
     (let (meta, w) = bw_finish (snd iw) in (meta\<lparr>ReduceID := int (fst iw)\<rparr>, (fst iw, bw_data w)))"

text \<open>
  \<open>renamed\<close> is the outcome of the rename. After it nothing is left below the temporary directory,
  and the deferred \<^verbatim>\<open>removeDir\<close> releases what the budget still tracks there.
\<close>

definition publish ::
  "diskBudget option \<Rightarrow> unit res \<Rightarrow> path \<Rightarrow> path \<Rightarrow> diskBudget option res" where
  "publish budget renamed tmp dir =
     (case budget of
        None \<Rightarrow> map_sum id (\<lambda>_. None) renamed
      | Some b \<Rightarrow> bindR (renameDir b renamed tmp dir) (\<lambda>b1.
          map_sum id Some (removeDir b1 (Inr ()) tmp)))"

definition writeStreamMap ::
  "'r map_task \<Rightarrow> diskBudget option \<Rightarrow> unit res \<Rightarrow> 'r recordStream \<Rightarrow> string \<Rightarrow> nat \<Rightarrow> nat \<Rightarrow> nat
     \<Rightarrow> filesystem \<Rightarrow> (MapOutputManifest \<times> filesystem \<times> diskBudget option) res" where
  "writeStreamMap mt budget renamed input job sid mapID attempt store =
     (let n = NumPartitions (sd_partitioner (mt_dep mt)) in
      if n \<le> 0 then Inl (Err ''invalid reducer count'')
      else if (case mt_maxBytes mt of None \<Rightarrow> False | Some mx \<Rightarrow> mx \<le> 0)
      then Inl (Err ''invalid GOSPARK_SHUFFLE_MAP_MAX_BYTES'')
      else if (case mt_maxBytes mt of None \<Rightarrow> False | Some mx \<Rightarrow> n * 8 > mx)
      then Inl (Err ''shuffle map output exceeds byte limit'')
      else
        bindR (open_writers (mt_tmp mt) [0..<nat n] budget) (\<lambda>(ws, b1).
        bindR (map_loop mt (fst input) (snd input)
          \<lparr>ms_writers = ws, ms_active = [], ms_usedBytes = n * 8, ms_budget = b1\<rparr> [] 0) (\<lambda>st.
        let done = map finish_bucket (enumerate 0 (ms_writers st)) in
        bindR (publish (ms_budget st) renamed (mt_tmp mt) (mt_dir mt)) (\<lambda>b2.
          Inr (\<lparr>JobID = job, ShuffleID = sid, MapID = mapID, Attempt = attempt,
                Location = mt_dir mt, Buckets = map fst done\<rparr>,
               put_files (mt_dir mt) (map snd done) store, b2)))))"

section \<open>Reading a chain of files\<close>

record fileChain =
  fc_paths :: "path list"
  fc_index :: nat
  fc_current :: "bucketReader option"
  fc_max :: nat

definition openBucketFile :: "filesystem \<Rightarrow> path \<Rightarrow> nat \<Rightarrow> bucketReader res" where
  "openBucketFile store p mx =
     (case store p of None \<Rightarrow> Inl (Err ''no such file'') | Some file \<Rightarrow> openBucket file mx)"

function fc_Next ::
  "filesystem \<Rightarrow> (byte list \<Rightarrow> 'r res) \<Rightarrow> fileChain \<Rightarrow> 'r res \<times> fileChain" where
  "fc_Next store dec s =
     (case fc_current s of
        None \<Rightarrow>
          if fc_index s \<ge> length (fc_paths s) then (Inl EOF, s)
          else (case openBucketFile store (fc_paths s ! fc_index s) (fc_max s) of
                  Inl e \<Rightarrow> (Inl e, s)
                | Inr r \<Rightarrow> fc_Next store dec
                    (s\<lparr>fc_index := Suc (fc_index s), fc_current := Some r\<rparr>))
      | Some r \<Rightarrow>
          (case br_Next dec r of
             (x, r') \<Rightarrow>
               if x = Inl EOF then fc_Next store dec (s\<lparr>fc_current := None\<rparr>)
               else (x, s\<lparr>fc_current := Some r'\<rparr>)))"
  by pat_completeness auto
termination
  by (relation "measure (\<lambda>(store, dec, s). 2 * (length (fc_paths s) - fc_index s)
        + (if fc_current s = None then 0 else 1))") auto

declare fc_Next.simps [simp del]

lemma fc_Next_progress:
  "fc_Next store dec s = (Inr v, s') \<Longrightarrow> fc_paths s' = fc_paths s \<and>
     (fc_index s < fc_index s' \<and> fc_index s' \<le> length (fc_paths s) \<or>
      fc_index s' = fc_index s \<and> (\<exists>r r'. fc_current s = Some r \<and> fc_current s' = Some r'
        \<and> length (br_data r') < length (br_data r)))"
proof (induction store dec s rule: fc_Next.induct)
  case (1 store dec s)
  show ?case
  proof (cases "fc_current s")
    case None
    with "1.prems" obtain r where r: "fc_index s < length (fc_paths s)"
      "openBucketFile store (fc_paths s ! fc_index s) (fc_max s) = Inr r"
      "fc_Next store dec (s\<lparr>fc_index := Suc (fc_index s), fc_current := Some r\<rparr>) = (Inr v, s')"
      by (subst (asm) fc_Next.simps) (auto split: if_splits sum.splits)
    from "1.IH"(1) [OF None _ r(2) r(3)] r(1) show ?thesis by auto
  next
    case (Some r)
    obtain x r' where n: "br_Next dec r = (x, r')" by fastforce
    show ?thesis
    proof (cases "x = Inl EOF")
      case True
      with "1.prems" Some n have "fc_Next store dec (s\<lparr>fc_current := None\<rparr>) = (Inr v, s')"
        by (subst (asm) fc_Next.simps) simp
      from "1.IH"(2) [OF Some n [symmetric] True this] show ?thesis by simp
    next
      case False
      with "1.prems" Some n have "x = Inr v" "s' = s\<lparr>fc_current := Some r'\<rparr>"
        by (subst (asm) fc_Next.simps, simp)+
      with Some n show ?thesis using br_Next_decreases [of dec r v r'] by auto
    qed
  qed
qed

text \<open>Draining the chain, as \<^verbatim>\<open>ReadReduceOutput\<close> and the consumers of the stream do.\<close>

function chain_stream ::
  "filesystem \<Rightarrow> (byte list \<Rightarrow> 'r res) \<Rightarrow> fileChain \<Rightarrow> 'r recordStream" where
  "chain_stream store dec s =
     (case fc_Next store dec s of
        (Inl e, s') \<Rightarrow> ([], if e = EOF then None else Some e)
      | (Inr v, s') \<Rightarrow> let (vs, r) = chain_stream store dec s' in (v # vs, r))"
  by pat_completeness auto
termination
  by (relation "inv_image (less_than <*lex*> less_than) (\<lambda>(store, dec, s).
        (length (fc_paths s) - fc_index s,
         case fc_current s of None \<Rightarrow> 0 | Some r \<Rightarrow> length (br_data r)))")
    (auto dest!: fc_Next_progress [OF sym])

declare chain_stream.simps [simp del]

section \<open>The managers\<close>

text \<open>\<^verbatim>\<open>fileShuffleManager\<close>: the paths by shuffle, map and reducer.\<close>

record fileShuffleManager =
  fm_paths :: "nat \<rightharpoonup> nat \<rightharpoonup> nat \<rightharpoonup> path"
  fm_store :: filesystem
  fm_root :: path
  fm_temp :: nat
  fm_recordBytes :: nat

definition fm_RegisterShuffle :: "fileShuffleManager \<Rightarrow> nat \<Rightarrow> fileShuffleManager" where
  "fm_RegisterShuffle m sid =
     (if fm_paths m sid = None then m\<lparr>fm_paths := (fm_paths m)(sid \<mapsto> Map.empty)\<rparr> else m)"

definition fm_install ::
  "fileShuffleManager \<Rightarrow> nat \<Rightarrow> nat \<Rightarrow> (nat \<rightharpoonup> path) \<Rightarrow> fileShuffleManager" where
  "fm_install m sid mapID paths =
     (let m1 = fm_RegisterShuffle m sid in
      m1\<lparr>fm_paths := (fm_paths m1)(sid \<mapsto> (the (fm_paths m1 sid))(mapID \<mapsto> paths))\<rparr>)"

definition fm_lookup :: "fileShuffleManager \<Rightarrow> nat \<Rightarrow> nat \<Rightarrow> nat \<Rightarrow> path option" where
  "fm_lookup m sid mapID rid =
     (case fm_paths m sid of None \<Rightarrow> None
      | Some maps \<Rightarrow> (case maps mapID of None \<Rightarrow> None | Some rs \<Rightarrow> rs rid))"

text \<open>
  The buckets of one map output. The directory is new: \<^verbatim>\<open>os.MkdirTemp\<close> numbers it.
\<close>

definition temp_dir :: "path \<Rightarrow> nat \<Rightarrow> path" where
  "temp_dir root k = root @ [''shuffle-'' @ format_nat k]"

fun write_bucket_files ::
  "('r \<Rightarrow> byte list res) \<Rightarrow> (nat \<times> 'r list) list \<Rightarrow> (nat \<times> byte list) list res" where
  "write_bucket_files enc [] = Inr []"
| "write_bucket_files enc ((rid, recs) # bs) =
     bindR (writeBucketFile enc recs) (\<lambda>(meta, file).
     bindR (write_bucket_files enc bs) (\<lambda>fs. Inr ((rid, file) # fs)))"

definition fm_WriteMapOutput ::
  "('r \<Rightarrow> byte list res) \<Rightarrow> fileShuffleManager \<Rightarrow> nat \<Rightarrow> nat \<Rightarrow> (nat \<times> 'r list) list
     \<Rightarrow> fileShuffleManager res" where
  "fm_WriteMapOutput enc m sid mapID buckets =
     (let dir = temp_dir (fm_root m) (fm_temp m) in
      bindR (write_bucket_files enc buckets) (\<lambda>fs.
        Inr (fm_install
          (m\<lparr>fm_store := put_files dir fs (fm_store m), fm_temp := Suc (fm_temp m)\<rparr>)
          sid mapID (map_of (map (\<lambda>(rid, _). (rid, dir @ [bucketName rid])) buckets)))))"

fun fm_collect :: "fileShuffleManager \<Rightarrow> nat \<Rightarrow> nat \<Rightarrow> nat list \<Rightarrow> path list res" where
  "fm_collect m sid rid [] = Inr []"
| "fm_collect m sid rid (i # is) =
     (case fm_lookup m sid i rid of
        None \<Rightarrow> Inl (Err ''missing shuffle map output'')
      | Some p \<Rightarrow> bindR (fm_collect m sid rid is) (\<lambda>ps. Inr (p # ps)))"

definition fm_stream ::
  "(byte list \<Rightarrow> 'r res) \<Rightarrow> fileShuffleManager \<Rightarrow> nat \<Rightarrow> nat \<Rightarrow> nat \<Rightarrow> 'r recordStream res" where
  "fm_stream dec m sid rid numMaps =
     bindR (fm_collect m sid rid [0..<numMaps]) (\<lambda>ps.
       Inr (chain_stream (fm_store m) dec
         \<lparr>fc_paths = ps, fc_index = 0, fc_current = None, fc_max = fm_recordBytes m\<rparr>))"

definition fm_ReadReduceOutput ::
  "(byte list \<Rightarrow> 'r res) \<Rightarrow> fileShuffleManager \<Rightarrow> nat \<Rightarrow> nat \<Rightarrow> nat \<Rightarrow> 'r list list res" where
  "fm_ReadReduceOutput dec m sid rid numMaps =
     bindR (fm_stream dec m sid rid numMaps) (\<lambda>(vs, r).
       case r of None \<Rightarrow> Inr [vs] | Some e \<Rightarrow> Inl e)"

text \<open>\<^verbatim>\<open>LocalShuffleManager\<close>: the buckets by shuffle and map.\<close>

type_synonym 'r shuffleData = "nat \<rightharpoonup> nat \<rightharpoonup> 'r list"
type_synonym 'r LocalShuffleManager = "nat \<rightharpoonup> 'r shuffleData"

definition lm_RegisterShuffle :: "'r LocalShuffleManager \<Rightarrow> nat \<Rightarrow> 'r LocalShuffleManager" where
  "lm_RegisterShuffle m sid = (if m sid = None then m(sid \<mapsto> Map.empty) else m)"

definition sd_Write :: "'r shuffleData \<Rightarrow> nat \<Rightarrow> (nat \<rightharpoonup> 'r list) \<Rightarrow> 'r shuffleData" where
  "sd_Write d mapID buckets = d(mapID \<mapsto> buckets)"

definition sd_Read :: "'r shuffleData \<Rightarrow> nat \<Rightarrow> nat \<Rightarrow> 'r list list" where
  "sd_Read d reduceID numMaps =
     concat (map (\<lambda>mapID. case d mapID of None \<Rightarrow> []
       | Some parts \<Rightarrow> (case parts reduceID of None \<Rightarrow> [] | Some recs \<Rightarrow> [recs])) [0..<numMaps])"

definition lm_WriteMapOutput ::
  "'r LocalShuffleManager \<Rightarrow> nat \<Rightarrow> nat \<Rightarrow> (nat \<times> 'r list) list \<Rightarrow> 'r LocalShuffleManager" where
  "lm_WriteMapOutput m sid mapID buckets =
     m(sid \<mapsto> sd_Write (case m sid of None \<Rightarrow> Map.empty | Some d \<Rightarrow> d) mapID (map_of buckets))"

definition lm_ReadReduceOutput :: "'r LocalShuffleManager \<Rightarrow> nat \<Rightarrow> nat \<Rightarrow> nat \<Rightarrow> 'r list list" where
  "lm_ReadReduceOutput m sid rid numMaps =
     (case m sid of None \<Rightarrow> [] | Some d \<Rightarrow> sd_Read d rid numMaps)"

text \<open>\<^verbatim>\<open>shuffleStream\<close> on the blocks of the local manager.\<close>

definition lm_stream :: "'r LocalShuffleManager \<Rightarrow> nat \<Rightarrow> nat \<Rightarrow> nat \<Rightarrow> 'r recordStream" where
  "lm_stream m sid rid numMaps = (concat (lm_ReadReduceOutput m sid rid numMaps), None)"

text \<open>
  \<^verbatim>\<open>writeShuffleMapOutput\<close>: the buckets in the order of their first record, then the empty ones.
\<close>

fun bucket_append :: "nat \<Rightarrow> 'r \<Rightarrow> (nat \<times> 'r list) list \<Rightarrow> (nat \<times> 'r list) list" where
  "bucket_append rid v [] = [(rid, [v])]"
| "bucket_append rid v ((i, vs) # bs) =
     (if i = rid then (i, vs @ [v]) # bs else (i, vs) # bucket_append rid v bs)"

definition fill_buckets :: "nat \<Rightarrow> (nat \<times> 'r list) list \<Rightarrow> (nat \<times> 'r list) list" where
  "fill_buckets n bs = bs @ map (\<lambda>i. (i, [])) (filter (\<lambda>i. i \<notin> fst ` set bs) [0..<n])"

definition shuffle_map_output :: "('r \<Rightarrow> nat) \<Rightarrow> nat \<Rightarrow> 'r list \<Rightarrow> (nat \<times> 'r list) list" where
  "shuffle_map_output part n recs =
     fill_buckets n (foldl (\<lambda>bs v. bucket_append (part v) v bs) [] recs)"

section \<open>Bucket files in the file system\<close>

lemma bucketName_inject [simp]: "bucketName i = bucketName j \<longleftrightarrow> i = j"
  by (auto simp: bucketName_def dest: format_nat_inject)

lemma put_files_snoc: "put_files dir (fs @ [(i, bs)]) store = (put_files dir fs store)(dir @ [bucketName i] \<mapsto> bs)"
  by (simp add: put_files_def)

lemma put_files_same:
  "distinct (map fst fs) \<Longrightarrow> (i, bs) \<in> set fs \<Longrightarrow> put_files dir fs store (dir @ [bucketName i]) = Some bs"
proof (induction fs rule: rev_induct)
  case (snoc f fs)
  then show ?case by (cases f) (auto simp: put_files_snoc rev_image_eqI)
qed simp

lemma put_files_other: "butlast p \<noteq> dir \<Longrightarrow> put_files dir fs store p = store p"
proof (induction fs rule: rev_induct)
  case (snoc f fs)
  then show ?case by (cases f) (auto simp: put_files_snoc)
qed (simp add: put_files_def)

section \<open>What the chain delivers\<close>

text \<open>The records of a bucket file as a reader sees them.\<close>

definition file_records :: "(byte list \<Rightarrow> 'r res) \<Rightarrow> nat \<Rightarrow> byte list \<Rightarrow> 'r list option" where
  "file_records dec mx file =
     (case bindR (openBucket file mx) (\<lambda>r. fst (read_records dec r [])) of
        Inl _ \<Rightarrow> None | Inr vs \<Rightarrow> Some vs)"

lemma file_records_bucket_bytes:
  assumes "codec_ok enc dec" and "encoded enc vs ps" and "fits mx ps" and "length vs < 2 ^ 32"
  shows "file_records dec mx (bucket_bytes ps) = Some vs"
  using assms encoded_length [OF assms(2)]
  by (simp add: file_records_def openBucket_bytes read_records_frames)

lemma chain_stream_reader:
  assumes "fst (read_records dec r out) = Inr (out @ vs)"
  shows "chain_stream store dec (s\<lparr>fc_current := Some r\<rparr>) =
    (vs @ fst (chain_stream store dec (s\<lparr>fc_current := None\<rparr>)),
     snd (chain_stream store dec (s\<lparr>fc_current := None\<rparr>)))"
  using assms
proof (induction dec r out arbitrary: vs rule: read_records.induct)
  case (1 dec r out)
  obtain x r' where n: "br_Next dec r = (x, r')" by fastforce
  show ?case
  proof (cases x)
    case (Inl e)
    with "1.prems" n have "e = EOF" "vs = []"
      by (subst (asm) read_records.simps, simp split: if_splits)+
    moreover have "fc_Next store dec (s\<lparr>fc_current := Some r\<rparr>)
        = fc_Next store dec (s\<lparr>fc_current := None\<rparr>)"
      using n Inl \<open>e = EOF\<close> by (subst fc_Next.simps) simp
    ultimately show ?thesis by (subst (1 2 3) chain_stream.simps) simp
  next
    case (Inr v)
    with "1.prems" n have rec: "fst (read_records dec r' (out @ [v])) = Inr (out @ vs)"
      by (subst (asm) read_records.simps) simp
    obtain ws where ws: "vs = v # ws"
      using read_records_prefix [OF rec] by auto
    have "fc_Next store dec (s\<lparr>fc_current := Some r\<rparr>) = (Inr v, s\<lparr>fc_current := Some r'\<rparr>)"
      using n Inr by (subst fc_Next.simps) simp
    with "1.IH" [OF n [symmetric] Inr, of ws] rec ws show ?thesis
      by (subst chain_stream.simps) simp
  qed
qed

lemma chain_stream_files:
  assumes "fc_current s = None"
    and "\<And>j. fc_index s \<le> j \<Longrightarrow> j < length (fc_paths s) \<Longrightarrow>
      \<exists>file. store (fc_paths s ! j) = Some file \<and> file_records dec (fc_max s) file = Some (vs j)"
  shows "chain_stream store dec s = (concat (map vs [fc_index s..<length (fc_paths s)]), None)"
  using assms
proof (induction "length (fc_paths s) - fc_index s" arbitrary: s)
  case 0
  then have "fc_Next store dec s = (Inl EOF, s)" by (subst fc_Next.simps) simp
  with 0 show ?case by (subst chain_stream.simps) simp
next
  case (Suc n)
  let ?i = "fc_index s"
  have i: "?i < length (fc_paths s)" using Suc.hyps(2) by simp
  then obtain bs where bs: "store (fc_paths s ! ?i) = Some bs"
    "file_records dec (fc_max s) bs = Some (vs ?i)"
    using Suc.prems(2) by blast
  then obtain r where r: "openBucket bs (fc_max s) = Inr r" "fst (read_records dec r []) = Inr (vs ?i)"
    by (auto simp: file_records_def bindR_Inr_conv split: sum.splits)
  let ?s = "s\<lparr>fc_index := Suc ?i\<rparr>"
  have "fc_Next store dec s = fc_Next store dec (?s\<lparr>fc_current := Some r\<rparr>)"
    using i bs r Suc.prems(1) by (subst fc_Next.simps) (simp add: openBucketFile_def)
  then have "chain_stream store dec s = chain_stream store dec (?s\<lparr>fc_current := Some r\<rparr>)"
    by (subst (1 2) chain_stream.simps) simp
  moreover have "chain_stream store dec (?s\<lparr>fc_current := None\<rparr>)
      = (concat (map vs [Suc ?i..<length (fc_paths s)]), None)"
    using Suc.hyps(1) [of "?s\<lparr>fc_current := None\<rparr>"] Suc.hyps(2) Suc.prems(2) by simp
  ultimately show ?case
    using chain_stream_reader [of dec r "[]" "vs ?i" store ?s] r(2) i by (simp add: upt_conv_Cons)
qed

section \<open>The interface of a shuffle manager\<close>

text \<open>Installing the outputs of the maps \<open>i\<close>, \<open>i + 1\<close>, ... of one shuffle.\<close>

fun write_maps :: "('s \<Rightarrow> nat \<Rightarrow> nat \<Rightarrow> 'b \<Rightarrow> 's res) \<Rightarrow> 's \<Rightarrow> nat \<Rightarrow> nat \<Rightarrow> 'b list \<Rightarrow> 's res" where
  "write_maps wr s sid i [] = Inr s"
| "write_maps wr s sid i (b # bs) =
     bindR (wr s sid i b) (\<lambda>s'. write_maps wr s' sid (Suc i) bs)"

text \<open>
  \<open>block s sid i rid\<close> is what map \<open>i\<close> wrote for reducer \<open>rid\<close>. A write replaces the blocks of its
  map and no others; the stream of a reducer concatenates its blocks in map order.
\<close>

locale shuffle_manager =
  fixes valid :: "'s \<Rightarrow> bool"
    and block :: "'s \<Rightarrow> nat \<Rightarrow> nat \<Rightarrow> nat \<Rightarrow> 'r list option"
    and wr :: "'s \<Rightarrow> nat \<Rightarrow> nat \<Rightarrow> (nat \<times> 'r list) list \<Rightarrow> 's res"
    and stream :: "'s \<Rightarrow> nat \<Rightarrow> nat \<Rightarrow> nat \<Rightarrow> 'r recordStream res"
    and fitting :: "(nat \<times> 'r list) list \<Rightarrow> bool"
  assumes write_returns: "valid s \<Longrightarrow> fitting b \<Longrightarrow> \<exists>s'. wr s sid i b = Inr s'"
    and write_valid: "valid s \<Longrightarrow> fitting b \<Longrightarrow> wr s sid i b = Inr s' \<Longrightarrow> valid s'"
    and write_block: "valid s \<Longrightarrow> fitting b \<Longrightarrow> wr s sid i b = Inr s' \<Longrightarrow>
      block s' sid' j rid = (if sid' = sid \<and> j = i then map_of b rid else block s sid' j rid)"
    and stream_blocks: "valid s \<Longrightarrow> (\<And>i. i < n \<Longrightarrow> block s sid i rid = Some (vs i)) \<Longrightarrow>
      stream s sid rid n = Inr (concat (map vs [0..<n]), None)"
begin

lemma write_maps_blocks:
  assumes "valid s" and "list_all fitting bs"
  shows "\<exists>s'. write_maps wr s sid i bs = Inr s' \<and> valid s' \<and>
    (\<forall>sid' j rid. block s' sid' j rid =
      (if sid' = sid \<and> i \<le> j \<and> j < i + length bs then map_of (bs ! (j - i)) rid
       else block s sid' j rid))"
  using assms
proof (induction bs arbitrary: s i)
  case (Cons b bs)
  then have b: "fitting b" and bs: "list_all fitting bs" by simp_all
  from write_returns [OF Cons.prems(1) b] obtain s1 where s1: "wr s sid i b = Inr s1" by blast
  note v1 = write_valid [OF Cons.prems(1) b s1] and b1 = write_block [OF Cons.prems(1) b s1]
  from Cons.IH [OF v1 bs, of "Suc i"] obtain s' where
    s': "write_maps wr s1 sid (Suc i) bs = Inr s'" "valid s'" and
    blk: "\<And>sid' j rid. block s' sid' j rid =
      (if sid' = sid \<and> Suc i \<le> j \<and> j < Suc i + length bs then map_of (bs ! (j - Suc i)) rid
       else block s1 sid' j rid)"
    by blast
  have "block s' sid' j rid =
      (if sid' = sid \<and> i \<le> j \<and> j < i + length (b # bs) then map_of ((b # bs) ! (j - i)) rid
       else block s sid' j rid)" for sid' j rid
  proof (cases "j = i")
    case False
    then have "i \<le> j \<Longrightarrow> (b # bs) ! (j - i) = bs ! (j - Suc i)"
      by (metis Suc_diff_Suc le_neq_implies_less nth_Cons_Suc)
    with False show ?thesis using blk [of sid' j rid] b1 [of sid' j rid] by auto
  qed (use blk [of sid' j rid] b1 [of sid' j rid] in simp)
  with s1 s' show ?case by auto
qed auto

text \<open>
  The shuffle as a whole: with every map output divided by \<open>part\<close> into \<open>n\<close> buckets, reducer \<open>rid\<close>
  reads exactly the records that belong to it, map after map, in their order.
\<close>

lemma shuffle_delivers:
  assumes "valid s" and outs: "list_all fitting (map split_map parts)"
    and bucket: "\<And>recs. recs \<in> set parts \<Longrightarrow> map_of (split_map recs) rid = Some (mine recs)"
  shows "\<exists>s'. write_maps wr s sid 0 (map split_map parts) = Inr s'
    \<and> stream s' sid rid (length parts) = Inr (concat (map mine parts), None)"
proof -
  from write_maps_blocks [OF assms(1) outs, of sid 0] obtain s' where
    s': "write_maps wr s sid 0 (map split_map parts) = Inr s'" "valid s'" and
    blk: "\<And>i. i < length parts \<Longrightarrow> block s' sid i rid = map_of (split_map (parts ! i)) rid"
    by auto
  have "stream s' sid rid (length parts) = Inr (concat (map (\<lambda>i. mine (parts ! i)) [0..<length parts]), None)"
    by (rule stream_blocks [OF s'(2)]) (simp add: blk bucket)
  moreover have "map (\<lambda>i. mine (parts ! i)) [0..<length parts] = map mine parts"
    by (rule nth_equalityI) simp_all
  ultimately show ?thesis using s'(1) by auto
qed

end

text \<open>The local manager.\<close>

definition lm_block :: "'r LocalShuffleManager \<Rightarrow> nat \<Rightarrow> nat \<Rightarrow> nat \<Rightarrow> 'r list option" where
  "lm_block m sid i rid =
     (case m sid of None \<Rightarrow> None | Some d \<Rightarrow> (case d i of None \<Rightarrow> None | Some parts \<Rightarrow> parts rid))"

lemma lm_stream_blocks:
  assumes "\<And>i. i < n \<Longrightarrow> lm_block m sid i rid = Some (vs i)"
  shows "lm_stream m sid rid n = (concat (map vs [0..<n]), None)"
proof (cases "n = 0")
  case True
  then show ?thesis
    by (simp add: lm_stream_def lm_ReadReduceOutput_def sd_Read_def split: option.splits)
next
  case False
  then obtain d where d: "m sid = Some d"
    using assms [of 0] by (auto simp: lm_block_def split: option.splits)
  have one: "(case d i of None \<Rightarrow> [] | Some parts \<Rightarrow>
      (case parts rid of None \<Rightarrow> [] | Some recs \<Rightarrow> [recs])) = [vs i]" if "i < n" for i
    using assms [OF that] d by (auto simp: lm_block_def split: option.splits)
  have "concat (map (\<lambda>i. case d i of None \<Rightarrow> [] | Some parts \<Rightarrow>
      (case parts rid of None \<Rightarrow> [] | Some recs \<Rightarrow> [recs])) [0..<n]) = concat (map (\<lambda>i. [vs i]) [0..<n])"
    by (intro arg_cong [of _ _ concat] map_cong) (simp_all add: one)
  then show ?thesis by (simp add: lm_stream_def lm_ReadReduceOutput_def sd_Read_def d)
qed

lemma lm_WriteMapOutput_block:
  "lm_block (lm_WriteMapOutput m sid i b) sid' j rid =
     (if sid' = sid \<and> j = i then map_of b rid else lm_block m sid' j rid)"
  by (cases "m sid") (simp_all add: lm_block_def lm_WriteMapOutput_def sd_Write_def)

interpretation local_manager: shuffle_manager
  "\<lambda>_. True" lm_block "\<lambda>m sid i b. Inr (lm_WriteMapOutput m sid i b)"
  "\<lambda>m sid rid n. Inr (lm_stream m sid rid n)" "\<lambda>_. True"
  by unfold_locales (simp_all add: lm_stream_blocks flip: lm_WriteMapOutput_block)

text \<open>The file manager: every installed path lies in a numbered directory that was created before.\<close>

definition fm_valid :: "nat \<Rightarrow> fileShuffleManager \<Rightarrow> bool" where
  "fm_valid rb m \<longleftrightarrow> fm_recordBytes m = rb \<and>
     (\<forall>sid i rid p. fm_lookup m sid i rid = Some p \<longrightarrow>
        (\<exists>k < fm_temp m. butlast p = temp_dir (fm_root m) k))"

definition fm_block ::
  "(byte list \<Rightarrow> 'r res) \<Rightarrow> fileShuffleManager \<Rightarrow> nat \<Rightarrow> nat \<Rightarrow> nat \<Rightarrow> 'r list option" where
  "fm_block dec m sid i rid =
     (case fm_lookup m sid i rid of None \<Rightarrow> None
      | Some p \<Rightarrow> (case fm_store m p of None \<Rightarrow> None
          | Some file \<Rightarrow> file_records dec (fm_recordBytes m) file))"

definition fm_fitting :: "('r \<Rightarrow> byte list res) \<Rightarrow> nat \<Rightarrow> (nat \<times> 'r list) list \<Rightarrow> bool" where
  "fm_fitting enc rb b \<longleftrightarrow> distinct (map fst b) \<and>
     (\<forall>recs \<in> snd ` set b. length recs < 2 ^ 32 \<and> (\<exists>ps. encoded enc recs ps \<and> fits rb ps))"

lemma temp_dir_inject [simp]: "temp_dir root k = temp_dir root j \<longleftrightarrow> k = j"
  by (auto simp: temp_dir_def dest: format_nat_inject)

lemma fm_lookup_install:
  "fm_lookup (fm_install m sid i paths) sid' j rid =
     (if sid' = sid \<and> j = i then paths rid else fm_lookup m sid' j rid)"
  by (simp add: fm_lookup_def fm_install_def fm_RegisterShuffle_def Let_def split: option.split)

lemma fm_install_simps [simp]:
  "fm_store (fm_install m sid i paths) = fm_store m"
  "fm_root (fm_install m sid i paths) = fm_root m"
  "fm_temp (fm_install m sid i paths) = fm_temp m"
  "fm_recordBytes (fm_install m sid i paths) = fm_recordBytes m"
  by (simp_all add: fm_install_def fm_RegisterShuffle_def Let_def)

lemma write_bucket_files_Inr:
  "write_bucket_files enc b = Inr fs \<Longrightarrow>
     map fst fs = map fst b \<and> (\<forall>rid recs. (rid, recs) \<in> set b \<longrightarrow>
       (\<exists>ps. encoded enc recs ps \<and> (rid, bucket_bytes ps) \<in> set fs))"
proof (induction enc b arbitrary: fs rule: write_bucket_files.induct)
  case (2 enc rid recs b)
  then obtain meta bs fs' where w: "writeBucketFile enc recs = Inr (meta, bs)"
    and rest: "write_bucket_files enc b = Inr fs'" and fs: "fs = (rid, bs) # fs'"
    by (auto simp: bindR_Inr_conv)
  have "\<exists>ps. encoded enc recs ps \<and> bs = bucket_bytes ps" using writeBucketFile_Inr [OF w] by blast
  with 2(1) [OF rest] fs show ?case by auto
qed simp

lemma write_bucket_files_ok:
  "fm_fitting enc rb b \<Longrightarrow> \<exists>fs. write_bucket_files enc b = Inr fs"
  by (induction enc b rule: write_bucket_files.induct)
    (auto simp: fm_fitting_def writeBucketFile_encoded)

lemma fm_WriteMapOutput_Inr:
  assumes "fm_WriteMapOutput enc m sid i b = Inr m'"
  defines "dir \<equiv> temp_dir (fm_root m) (fm_temp m)"
  shows "\<exists>fs. write_bucket_files enc b = Inr fs \<and> fm_store m' = put_files dir fs (fm_store m)
    \<and> fm_temp m' = Suc (fm_temp m) \<and> fm_root m' = fm_root m \<and> fm_recordBytes m' = fm_recordBytes m
    \<and> (\<forall>sid' j rid. fm_lookup m' sid' j rid =
        (if sid' = sid \<and> j = i
         then if rid \<in> fst ` set b then Some (dir @ [bucketName rid]) else None
         else fm_lookup m sid' j rid))"
proof -
  have mof: "map_of (map (\<lambda>(rid, _). (rid, dir @ [bucketName rid])) b) rid =
      (if rid \<in> fst ` set b then Some (dir @ [bucketName rid]) else None)" for rid
    by (induction b) auto
  have up: "fm_lookup (m\<lparr>fm_store := a, fm_temp := t\<rparr>) = fm_lookup m" for a t
    by (intro ext) (simp add: fm_lookup_def)
  show ?thesis
    using assms(1)
    by (auto simp: fm_WriteMapOutput_def Let_def bindR_Inr_conv fm_lookup_install mof up
        simp flip: dir_def)
qed

lemma fm_WriteMapOutput_block:
  assumes cod: "codec_ok enc dec" and v: "fm_valid rb m" and fit: "fm_fitting enc rb b"
    and w: "fm_WriteMapOutput enc m sid i b = Inr m'"
  shows "fm_valid rb m'"
    and "fm_block dec m' sid' j rid =
      (if sid' = sid \<and> j = i then map_of b rid else fm_block dec m sid' j rid)"
proof -
  let ?dir = "temp_dir (fm_root m) (fm_temp m)"
  obtain fs where fs: "write_bucket_files enc b = Inr fs"
    and st: "fm_store m' = put_files ?dir fs (fm_store m)"
    and m': "fm_temp m' = Suc (fm_temp m)" "fm_root m' = fm_root m" "fm_recordBytes m' = fm_recordBytes m"
    and lk: "\<And>sid' j rid. fm_lookup m' sid' j rid =
        (if sid' = sid \<and> j = i
         then if rid \<in> fst ` set b then Some (?dir @ [bucketName rid]) else None
         else fm_lookup m sid' j rid)"
    using fm_WriteMapOutput_Inr [OF w] by blast
  show "fm_valid rb m'"
    using v unfolding fm_valid_def m' lk by (fastforce split: if_splits intro: less_SucI)
  have mine: "fm_block dec m' sid i rid = map_of b rid"
  proof (cases "map_of b rid")
    case None
    then have "rid \<notin> fst ` set b" by (simp add: map_of_eq_None_iff)
    with None show ?thesis by (simp add: fm_block_def lk)
  next
    case (Some recs)
    then have in_b: "(rid, recs) \<in> set b" by (rule map_of_SomeD)
    with write_bucket_files_Inr [OF fs] obtain ps where
      ps: "encoded enc recs ps" "(rid, bucket_bytes ps) \<in> set fs" and keys: "map fst fs = map fst b"
      by blast
    from fit in_b obtain qs where len: "length recs < 2 ^ 32" and qs: "encoded enc recs qs" "fits rb qs"
      by (force simp: fm_fitting_def)
    have "qs = ps" using encoded_unique [OF ps(1) qs(1)] by simp
    moreover have "put_files ?dir fs (fm_store m) (?dir @ [bucketName rid]) = Some (bucket_bytes ps)"
      by (rule put_files_same [OF _ ps(2)]) (use fit keys in \<open>simp add: fm_fitting_def\<close>)
    ultimately show ?thesis
      using Some file_records_bucket_bytes [OF cod ps(1) _ len] qs v in_b
      by (auto simp: fm_block_def lk st m' fm_valid_def rev_image_eqI)
  qed
  have old: "fm_store m' p = fm_store m p" if "fm_lookup m sid' j rid = Some p" for sid' j rid p
  proof -
    from v that obtain k where "k < fm_temp m" "butlast p = temp_dir (fm_root m) k"
      unfolding fm_valid_def by blast
    then show ?thesis unfolding st by (intro put_files_other) simp
  qed
  then show "fm_block dec m' sid' j rid =
      (if sid' = sid \<and> j = i then map_of b rid else fm_block dec m sid' j rid)"
    using mine by (auto simp: fm_block_def lk m' split: option.splits)
qed

lemma fm_collect_ok:
  "(\<And>i. i \<in> set is \<Longrightarrow> fm_lookup m sid i rid = Some (p i)) \<Longrightarrow> fm_collect m sid rid is = Inr (map p is)"
  by (induction "is") simp_all

lemma fm_stream_blocks:
  assumes "\<And>i. i < n \<Longrightarrow> fm_block dec m sid i rid = Some (vs i)"
  shows "fm_stream dec m sid rid n = Inr (concat (map vs [0..<n]), None)"
proof -
  have "\<exists>p bs. fm_lookup m sid i rid = Some p \<and> fm_store m p = Some bs
      \<and> file_records dec (fm_recordBytes m) bs = Some (vs i)" if "i < n" for i
    using assms [OF that] by (auto simp: fm_block_def split: option.splits)
  then obtain p bs where p: "\<And>i. i < n \<Longrightarrow> fm_lookup m sid i rid = Some (p i)"
    "\<And>i. i < n \<Longrightarrow> fm_store m (p i) = Some (bs i)"
    "\<And>i. i < n \<Longrightarrow> file_records dec (fm_recordBytes m) (bs i) = Some (vs i)"
    by metis
  have "fm_collect m sid rid [0..<n] = Inr (map p [0..<n])" by (rule fm_collect_ok) (simp add: p)
  moreover have "chain_stream (fm_store m) dec
      \<lparr>fc_paths = map p [0..<n], fc_index = 0, fc_current = None, fc_max = fm_recordBytes m\<rparr>
    = (concat (map vs [0..<n]), None)"
    by (subst chain_stream_files [where vs = vs]) (auto simp: p)
  ultimately show ?thesis by (simp add: fm_stream_def)
qed


text \<open>
  The manager under test: any codec that decodes what it encodes. The interpretation is stated
  for every such codec and record limit.
\<close>

lemma file_manager_laws:
  assumes "codec_ok enc dec"
  shows "shuffle_manager (fm_valid rb) (fm_block dec) (fm_WriteMapOutput enc) (fm_stream dec) (fm_fitting enc rb)"
proof
  fix s b sid i assume "fm_fitting enc rb b"
  then show "\<exists>s'. fm_WriteMapOutput enc s sid i b = Inr s'"
    using write_bucket_files_ok by (force simp: fm_WriteMapOutput_def Let_def)
next
  fix s n sid rid vs
  assume "\<And>i. i < n \<Longrightarrow> fm_block dec s sid i rid = Some (vs i)"
  then show "fm_stream dec s sid rid n = Inr (concat (map vs [0..<n]), None)"
    by (rule fm_stream_blocks)
qed (rule fm_WriteMapOutput_block [OF assms]; assumption)+

section \<open>The disk store returns what was written\<close>

lemma write_buckets_Inr:
  "write_buckets enc buckets rids = Inr (metas, fs) \<Longrightarrow>
     map fst fs = rids \<and> length metas = length rids \<and>
     (\<forall>rid \<in> set rids. \<exists>ps. encoded enc (case buckets rid of None \<Rightarrow> [] | Some recs \<Rightarrow> recs) ps
        \<and> (rid, bucket_bytes ps) \<in> set fs \<and> (bucket_meta ps)\<lparr>ReduceID := int rid\<rparr> \<in> set metas)"
proof (induction enc buckets rids arbitrary: metas fs rule: write_buckets.induct)
  case (2 enc buckets rid rids)
  let ?recs = "case buckets rid of None \<Rightarrow> [] | Some recs \<Rightarrow> recs"
  from 2(2) obtain meta bs ms fs' where w: "writeBucketFile enc ?recs = Inr (meta, bs)"
    and rest: "write_buckets enc buckets rids = Inr (ms, fs')"
    and eq: "metas = meta\<lparr>ReduceID := int rid\<rparr> # ms" "fs = (rid, bs) # fs'"
    by (auto simp: bindR_Inr_conv)
  obtain ps where ps: "encoded enc ?recs ps" "meta = bucket_meta ps" "bs = bucket_bytes ps"
    using writeBucketFile_Inr [OF w] by blast
  with 2(1) [OF rest] eq show ?case by fastforce
qed simp

lemma WriteMap_ReadBucket:
  assumes cod: "codec_ok enc dec"
    and w: "WriteMap enc root job sid mapID attempt n buckets store = Inr (m, store')"
    and rid: "int rid < n"
    and fit: "\<And>recs. buckets rid = Some recs \<Longrightarrow> length recs < 2 ^ 32 \<and>
      (\<forall>v \<in> set recs. \<forall>p. enc v = Inr p \<longrightarrow> length p \<le> defaultRecordBytes)"
  shows "ReadBucket dec store' m rid = Inr (case buckets rid of None \<Rightarrow> [] | Some recs \<Rightarrow> recs)"
proof -
  let ?recs = "case buckets rid of None \<Rightarrow> [] | Some recs \<Rightarrow> recs"
  let ?dir = "mapDir root job sid mapID attempt"
  from w obtain metas fs where wb: "write_buckets enc buckets [0..<nat n] = Inr (metas, fs)"
    and m: "Location m = ?dir"
    and st: "store' = put_files ?dir fs (\<lambda>p. if under ?dir p then None else store p)"
    by (auto simp: WriteMap_def Let_def bindR_Inr_conv split: if_splits)
  from write_buckets_Inr [OF wb] rid obtain ps where
    ps: "encoded enc ?recs ps" "(rid, bucket_bytes ps) \<in> set fs" and keys: "map fst fs = [0..<nat n]"
    by (force simp: zless_nat_conj)
  have "store' (?dir @ [bucketName rid]) = Some (bucket_bytes ps)"
    unfolding st by (rule put_files_same) (simp_all add: keys ps(2))
  moreover have small: "\<forall>v \<in> set ?recs. \<forall>p. enc v = Inr p \<longrightarrow> length p \<le> defaultRecordBytes"
    by (cases "buckets rid") (use fit in auto)
  have "readBucketFile dec (bucket_bytes ps) = Inr ?recs"
  proof (rule readBucketFile_bytes [OF cod ps(1)])
    show "fits defaultRecordBytes ps"
      by (rule encoded_fits_limit [OF ps(1) small]) (simp add: defaultRecordBytes_def)
    show "length ?recs < 2 ^ 32" using fit by (simp split: option.split)
  qed
  ultimately show ?thesis by (simp add: ReadBucket_def m)
qed

section \<open>The streaming writer puts every record into its bucket\<close>

definition for_reducer :: "'r ShuffleDep \<Rightarrow> nat \<Rightarrow> 'r list \<Rightarrow> 'r list" where
  "for_reducer dep i xs = filter (\<lambda>v. reducer_of dep v = Inr (int i)) xs"

lemma for_reducer_simps [simp]:
  "for_reducer dep i [] = []"
  "for_reducer dep i (xs @ ys) = for_reducer dep i xs @ for_reducer dep i ys"
  by (simp_all add: for_reducer_def)

text \<open>After the records \<open>xs\<close>: every bucket holds its share, at most sixteen writers are open and
  they are the active ones, and the size counter is the sum of the file sizes.\<close>

definition map_inv :: "'r map_task \<Rightarrow> nat \<Rightarrow> 'r list \<Rightarrow> map_state \<Rightarrow> bool" where
  "map_inv mt n xs st \<longleftrightarrow> length (ms_writers st) = n
     \<and> (\<forall>i < n. \<exists>ps. encoded (mt_enc mt) (for_reducer (mt_dep mt) i xs) ps \<and> bw_holds (ms_writers st ! i) ps)
     \<and> (\<forall>v \<in> set xs. \<forall>p. mt_enc mt v = Inr p \<longrightarrow> length p \<le> mt_recordBytes mt)
     \<and> (\<forall>v \<in> set xs. \<exists>i < n. reducer_of (mt_dep mt) v = Inr (int i))
     \<and> distinct (ms_active st) \<and> length (ms_active st) \<le> 16
     \<and> (\<forall>i. i \<in> set (ms_active st) \<longleftrightarrow> i < n \<and> bw_open (ms_writers st ! i))
     \<and> sum_list (map bw_size (ms_writers st)) = ms_usedBytes st
     \<and> (\<forall>mx. mt_maxBytes mt = Some mx \<longrightarrow> ms_usedBytes st \<le> mx)"

lemma bw_suspend_simps [simp]:
  "bw_holds (bw_suspend w) ps = bw_holds w ps" "bw_size (bw_suspend w) = bw_size w"
  "\<not> bw_open (bw_suspend w)"
  by (simp_all add: bw_suspend_def bw_holds_def)

text \<open>Opening a writer changes no file and keeps the table of open writers.\<close>

lemma activate_keeps:
  assumes "rid < length (ms_writers st)" and "distinct (ms_active st)" and "length (ms_active st) \<le> 16"
    and act: "\<forall>i. i \<in> set (ms_active st) \<longleftrightarrow> i < length (ms_writers st) \<and> bw_open (ms_writers st ! i)"
  defines "st' \<equiv> activate rid st"
  shows "length (ms_writers st') = length (ms_writers st)"
    and "map bw_size (ms_writers st') = map bw_size (ms_writers st)"
    and "i < length (ms_writers st) \<Longrightarrow> bw_holds (ms_writers st' ! i) ps = bw_holds (ms_writers st ! i) ps"
    and "ms_usedBytes st' = ms_usedBytes st" and "ms_budget st' = ms_budget st"
    and "distinct (ms_active st')" and "length (ms_active st') \<le> 16"
    and "\<forall>i. i \<in> set (ms_active st') \<longleftrightarrow>
      i = rid \<or> i < length (ms_writers st) \<and> bw_open (ms_writers st' ! i)"
proof -
  show "length (ms_writers st') = length (ms_writers st)" "ms_usedBytes st' = ms_usedBytes st"
    "ms_budget st' = ms_budget st"
    by (simp_all add: st'_def activate_def Let_def)
  have old: "length (ms_active st) = 16 \<Longrightarrow> hd (ms_active st) < length (ms_writers st)"
    using act hd_in_set [of "ms_active st"] by fastforce
  have notin: "\<not> bw_open (ms_writers st ! rid) \<Longrightarrow> rid \<notin> set (ms_active st)" using act by blast
  show "map bw_size (ms_writers st') = map bw_size (ms_writers st)"
    by (simp add: st'_def activate_def Let_def map_list_update_same)
  show "i < length (ms_writers st) \<Longrightarrow> bw_holds (ms_writers st' ! i) ps = bw_holds (ms_writers st ! i) ps"
    using old by (auto simp: st'_def activate_def Let_def nth_list_update)
  show "distinct (ms_active st')" "length (ms_active st') \<le> 16"
    using assms(2,3) notin
    by (cases "ms_active st"; force simp: st'_def activate_def Let_def)+
  show "\<forall>i. i \<in> set (ms_active st') \<longleftrightarrow>
      i = rid \<or> i < length (ms_writers st) \<and> bw_open (ms_writers st' ! i)"
  proof (cases "bw_open (ms_writers st ! rid) \<or> length (ms_active st) \<noteq> 16")
    case True
    then show ?thesis using act assms(1) by (auto simp: st'_def activate_def Let_def)
  next
    case False
    then obtain x xs where xs: "ms_active st = x # xs" by (cases "ms_active st") auto
    from False xs have ws: "ms_writers st' = (ms_writers st)[x := bw_suspend (ms_writers st ! x)]"
      "set (ms_active st') = insert rid (set xs)"
      by (auto simp: st'_def activate_def Let_def)
    have "x < length (ms_writers st)" "x \<notin> set xs" using xs act assms(2) by auto
    moreover have "i \<in> set xs \<longleftrightarrow> i < length (ms_writers st) \<and> bw_open (ms_writers st ! i)" if "i \<noteq> x" for i
      using act [rule_format, of i] xs that by simp
    ultimately show ?thesis
      unfolding ws by (metis bw_suspend_simps(3) insert_iff nth_list_update_eq nth_list_update_neq)
  qed
qed

lemma write_record_inv:
  assumes inv: "map_inv mt n xs st" and wr: "write_record mt st v = Inr st'"
  shows "map_inv mt n (xs @ [v]) st'"
proof -
  from inv have n: "length (ms_writers st) = n" by (simp add: map_inv_def)
  from wr n obtain rid p w b st1 where rid: "reducer_of (mt_dep mt) v = Inr rid" "0 \<le> rid" "rid < int n"
    and p: "mt_enc mt v = Inr p" "length p \<le> mt_recordBytes mt"
    and mx: "\<forall>mx. mt_maxBytes mt = Some mx \<longrightarrow> ms_usedBytes st + (int (length p) + 8) \<le> mx"
    and st1: "st1 = activate (nat rid) (st\<lparr>ms_usedBytes := ms_usedBytes st + (int (length p) + 8)\<rparr>)"
    and app: "bw_append (ms_writers st1 ! nat rid) (ms_budget st1) p = Inr (w, b)"
    and st': "st' = st1\<lparr>ms_writers := (ms_writers st1)[nat rid := w], ms_budget := b\<rparr>"
    by (auto simp: write_record_def bindR_Inr_conv recordLimit_def Let_def split: if_splits option.splits)
  define st0 where "st0 = st\<lparr>ms_usedBytes := ms_usedBytes st + (int (length p) + 8)\<rparr>"
  have r: "nat rid < length (ms_writers st0)" using rid n by (simp add: st0_def)
  have pre: "distinct (ms_active st0)" "length (ms_active st0) \<le> 16"
    "\<forall>i. i \<in> set (ms_active st0) \<longleftrightarrow> i < length (ms_writers st0) \<and> bw_open (ms_writers st0 ! i)"
    using inv n by (simp_all add: map_inv_def st0_def)
  note ak = activate_keeps [OF r pre, folded st1 [folded st0_def], unfolded st0_def, simplified]
  have len1: "length (ms_writers st1) = n" using ak(1) n by simp
  from app have w: "bw_open w" "bw_size w = bw_size (ms_writers st1 ! nat rid) + (int (length p) + 8)"
    by (auto simp: bw_append_def bindR_Inr_conv Let_def split: if_splits)
  have holds: "\<exists>ps. encoded (mt_enc mt) (for_reducer (mt_dep mt) i (xs @ [v])) ps \<and> bw_holds (ms_writers st' ! i) ps"
    if "i < n" for i
  proof -
    from inv that obtain ps where ps: "encoded (mt_enc mt) (for_reducer (mt_dep mt) i xs) ps"
      "bw_holds (ms_writers st ! i) ps"
      by (auto simp: map_inv_def)
    then have ps1: "bw_holds (ms_writers st1 ! i) ps" using ak(3) that n by simp
    show ?thesis
    proof (cases "i = nat rid")
      case True
      have "bw_holds w (ps @ [p])" using bw_append_holds [OF _ app] ps1 True by simp
      moreover have "encoded (mt_enc mt) (for_reducer (mt_dep mt) i (xs @ [v])) (ps @ [p])"
        using ps(1) p(1) rid True by (auto simp: encoded_append for_reducer_def encoded_Cons)
      ultimately show ?thesis using True st' len1 that by auto
    next
      case False
      then have "for_reducer (mt_dep mt) i (xs @ [v]) = for_reducer (mt_dep mt) i xs"
        using rid by (auto simp: for_reducer_def)
      with False ps(1) ps1 st' show ?thesis by auto
    qed
  qed
  have "bw_size (ms_writers st1 ! nat rid) = bw_size (ms_writers st ! nat rid)"
    using arg_cong [OF ak(2), of "\<lambda>l. l ! nat rid"] len1 n rid by simp
  then have "sum_list (map bw_size (ms_writers st')) = ms_usedBytes st'"
    using ak(2,4) inv st' w(2) len1 rid
    by (simp add: map_update sum_list_list_update map_inv_def)
  moreover have "\<forall>i. i \<in> set (ms_active st') \<longleftrightarrow> i < n \<and> bw_open (ms_writers st' ! i)"
    using ak(8) st' w(1) len1 rid n by (auto simp: nth_list_update)
  moreover have "\<exists>i < n. reducer_of (mt_dep mt) v = Inr (int i)"
    using rid by (intro exI [of _ "nat rid"]) auto
  ultimately show ?thesis
    using inv holds len1 p mx ak(4,6,7) st' by (auto simp: map_inv_def)
qed

lemma write_all_inv:
  "map_inv mt n xs st \<Longrightarrow> write_all mt st vs = Inr st' \<Longrightarrow> map_inv mt n (xs @ vs) st'"
proof (induction vs arbitrary: xs st)
  case (Cons v vs)
  then obtain st1 where "write_record mt st v = Inr st1" "write_all mt st1 vs = Inr st'"
    by (auto simp: bindR_Inr_conv)
  with Cons.IH [OF write_record_inv] Cons.prems(1) show ?case by fastforce
qed simp

lemma flush_batch_inv:
  "map_inv mt n xs st \<Longrightarrow> flush_batch mt st batch = Inr st' \<Longrightarrow>
     map_inv mt n (xs @ sd_combine (mt_dep mt) batch) st'"
  by (simp add: flush_batch_def write_all_inv)

lemma batch_step_inv:
  assumes inv: "map_inv mt n xs st" and step: "batch_step mt st batch used' v = Inr (st', batch', used'')"
  shows "\<exists>pre. concat pre @ batch' = batch @ [v]
    \<and> map_inv mt n (xs @ concat (map (sd_combine (mt_dep mt)) pre)) st'"
proof -
  let ?comb = "sd_combine (mt_dep mt)"
  from step obtain st1 b1 u1 where
    one: "flush_batch mt st batch = Inr st1 \<and> b1 = [] \<or> st1 = st \<and> b1 = batch"
    and two: "flush_batch mt st1 (b1 @ [v]) = Inr st' \<and> batch' = [] \<or> st' = st1 \<and> batch' = b1 @ [v]"
    by (fastforce simp: batch_step_def bindR_Inr_conv Let_def split: if_splits)
  from one obtain pre where pre: "concat pre @ b1 = batch" "map_inv mt n (xs @ concat (map ?comb pre)) st1"
  proof (elim disjE conjE)
    assume "flush_batch mt st batch = Inr st1" "b1 = []"
    then show ?thesis using flush_batch_inv [OF inv] by (intro that [of "[batch]"]) auto
  next
    assume "st1 = st" "b1 = batch"
    then show ?thesis using inv by (intro that [of "[]"]) auto
  qed
  from two show ?thesis
  proof (elim disjE conjE)
    assume "flush_batch mt st1 (b1 @ [v]) = Inr st'" "batch' = []"
    then show ?thesis
      using flush_batch_inv [OF pre(2)] pre(1) by (intro exI [of _ "pre @ [b1 @ [v]]"]) auto
  qed (use pre in auto)
qed

lemma map_loop_combined:
  assumes side: "sd_mapSide (mt_dep mt)"
  shows "map_inv mt n xs st \<Longrightarrow> map_loop mt vs r st batch used' = Inr st' \<Longrightarrow>
    r = None \<and> (\<exists>batches. concat batches = batch @ vs
      \<and> map_inv mt n (xs @ concat (map (sd_combine (mt_dep mt)) batches)) st')"
proof (induction vs arbitrary: xs st batch used')
  case Nil
  then have "r = None" "flush_batch mt st batch = Inr st'" by (cases r; simp)+
  with flush_batch_inv [OF Nil.prems(1)] show ?case by (auto intro!: exI [of _ "[batch]"])
next
  case (Cons v vs)
  let ?comb = "sd_combine (mt_dep mt)"
  from Cons.prems(2) side obtain st1 b1 u1 where step: "batch_step mt st batch used' v = Inr (st1, b1, u1)"
    and rest: "map_loop mt vs r st1 b1 u1 = Inr st'"
    by (auto simp: bindR_Inr_conv)
  from batch_step_inv [OF Cons.prems(1) step] obtain pre where
    pre: "concat pre @ b1 = batch @ [v]" "map_inv mt n (xs @ concat (map ?comb pre)) st1" by blast
  from Cons.IH [OF pre(2) rest] obtain bs where bs: "r = None" "concat bs = b1 @ vs"
    "map_inv mt n ((xs @ concat (map ?comb pre)) @ concat (map ?comb bs)) st'" by blast
  have "concat (pre @ bs) = batch @ v # vs" using pre(1) bs(2) by (metis append.assoc append_Cons append_Nil concat_append)
  with bs show ?case by (intro conjI exI [of _ "pre @ bs"]) auto
qed

lemma map_loop_plain:
  assumes side: "\<not> sd_mapSide (mt_dep mt)" and "sd_combine (mt_dep mt) [] = []"
  shows "map_inv mt n xs st \<Longrightarrow> map_loop mt vs r st [] used' = Inr st' \<Longrightarrow>
    r = None \<and> map_inv mt n (xs @ vs) st'"
proof (induction vs arbitrary: xs st)
  case Nil
  then show ?case using assms by (cases r) (auto simp: flush_batch_def)
next
  case (Cons v vs)
  then obtain st1 where "write_record mt st v = Inr st1" "map_loop mt vs r st1 [] used' = Inr st'"
    using side by (auto simp: bindR_Inr_conv)
  with Cons.IH [OF write_record_inv] Cons.prems(1) show ?case by fastforce
qed

lemma open_writers_inv:
  "open_writers tmp is b = Inr (ws, b') \<Longrightarrow> length ws = length is \<and>
     (\<forall>w \<in> set ws. bw_holds w [] \<and> \<not> bw_open w \<and> bw_size w = 8)"
proof (induction tmp "is" b arbitrary: ws b' rule: open_writers.induct)
  case (2 tmp i "is" b)
  then obtain w b1 ws' where w: "newBucketWriter (tmp @ [bucketName i]) b = Inr (w, b1)"
    and rest: "open_writers tmp is b1 = Inr (ws', b')" and ws: "ws = w # ws'"
    by (auto simp: bindR_Inr_conv)
  from w have "\<not> bw_open w" "bw_size w = 8" by (auto simp: newBucketWriter_def bindR_Inr_conv)
  with 2(1) [OF rest] newBucketWriter_holds [OF w] ws show ?case by auto
qed simp

text \<open>What the map side hands to the buckets: the records, combined batch by batch.\<close>

definition map_output :: "'r ShuffleDep \<Rightarrow> 'r list \<Rightarrow> 'r list \<Rightarrow> bool" where
  "map_output dep xs out \<longleftrightarrow>
     (if sd_mapSide dep then \<exists>batches. concat batches = xs \<and> out = concat (map (sd_combine dep) batches)
      else out = xs)"

lemma map_loop_inv:
  assumes "sd_combine (mt_dep mt) [] = []" and "map_inv mt n [] st"
    and "map_loop mt vs r st [] 0 = Inr st'"
  shows "r = None \<and> (\<exists>out. map_output (mt_dep mt) vs out \<and> map_inv mt n out st')"
proof (cases "sd_mapSide (mt_dep mt)")
  case True
  then show ?thesis using map_loop_combined [OF True assms(2,3)] by (auto simp: map_output_def)
next
  case False
  then show ?thesis using map_loop_plain [OF False assms] by (simp add: map_output_def)
qed

lemma writeStreamMap_spec:
  assumes comb: "sd_combine (mt_dep mt) [] = []"
    and run: "writeStreamMap mt budget renamed (xs, r) job sid mapID attempt store = Inr (m, store', b')"
  defines "n \<equiv> nat (NumPartitions (sd_partitioner (mt_dep mt)))"
  shows "r = None" and "Location m = mt_dir mt" and "length (Buckets m) = n"
    and "\<exists>out. map_output (mt_dep mt) xs out
      \<and> (\<forall>v \<in> set out. \<exists>i < n. reducer_of (mt_dep mt) v = Inr (int i))
      \<and> (\<forall>v \<in> set out. \<forall>p. mt_enc mt v = Inr p \<longrightarrow> length p \<le> mt_recordBytes mt)
      \<and> (\<forall>i < n. \<exists>ps. encoded (mt_enc mt) (for_reducer (mt_dep mt) i out) ps \<and> length ps < 2 ^ 32
          \<and> store' (mt_dir mt @ [bucketName i]) = Some (bucket_bytes ps)
          \<and> Buckets m ! i = (bucket_meta ps)\<lparr>ReduceID := int i\<rparr>)"
    and "\<forall>p. butlast p \<noteq> mt_dir mt \<longrightarrow> store' p = store p"
    and "\<forall>mx. mt_maxBytes mt = Some mx \<longrightarrow> sum_list (map Bytes (Buckets m)) \<le> mx"
proof -
  from run obtain ws b1 st where pos: "0 < NumPartitions (sd_partitioner (mt_dep mt))"
    and mx: "\<And>mx. mt_maxBytes mt = Some mx \<Longrightarrow> NumPartitions (sd_partitioner (mt_dep mt)) * 8 \<le> mx"
    and ws: "open_writers (mt_tmp mt) [0..<n] budget = Inr (ws, b1)"
    and loop: "map_loop mt xs r \<lparr>ms_writers = ws, ms_active = [],
        ms_usedBytes = NumPartitions (sd_partitioner (mt_dep mt)) * 8, ms_budget = b1\<rparr> [] 0 = Inr st"
    and m: "Location m = mt_dir mt" "Buckets m = map fst (map finish_bucket (enumerate 0 (ms_writers st)))"
    and store': "store' = put_files (mt_dir mt) (map snd (map finish_bucket (enumerate 0 (ms_writers st)))) store"
    by (auto simp: writeStreamMap_def Let_def bindR_Inr_conv n_def split: if_splits option.splits)
  note ow = open_writers_inv [OF ws]
  have "map bw_size ws = replicate n 8" using ow by (intro nth_equalityI) auto
  then have "map_inv mt n [] \<lparr>ms_writers = ws, ms_active = [],
      ms_usedBytes = NumPartitions (sd_partitioner (mt_dep mt)) * 8, ms_budget = b1\<rparr>"
    using ow pos mx by (auto simp: map_inv_def n_def sum_list_replicate)
  from map_loop_inv [OF comb this loop] obtain out where r: "r = None"
    and out: "map_output (mt_dep mt) xs out" and inv: "map_inv mt n out st" by blast
  show "r = None" by (rule r)
  show "Location m = mt_dir mt" by (rule m)
  have len: "length (ms_writers st) = n" using inv by (simp add: map_inv_def)
  then show "length (Buckets m) = n" by (simp add: m)
  show "\<forall>p. butlast p \<noteq> mt_dir mt \<longrightarrow> store' p = store p" by (simp add: store' put_files_other)
  have fin: "finish_bucket (i, ms_writers st ! i)
      = ((bucket_meta ps)\<lparr>ReduceID := int i\<rparr>, (i, bucket_bytes ps))"
    if "bw_holds (ms_writers st ! i) ps" for i ps
    by (simp add: finish_bucket_def bw_finish_holds [OF that])
  have en: "map finish_bucket (enumerate 0 (ms_writers st))
      = map (\<lambda>i. finish_bucket (i, ms_writers st ! i)) [0..<n]"
    by (rule nth_equalityI) (simp_all add: len nth_enumerate_eq)
  have keys: "map fst (map snd (map finish_bucket (enumerate 0 (ms_writers st)))) = [0..<n]"
    unfolding en by (rule nth_equalityI) (simp_all add: finish_bucket_def split_beta)
  have files: "\<exists>ps. encoded (mt_enc mt) (for_reducer (mt_dep mt) i out) ps \<and> length ps < 2 ^ 32
          \<and> store' (mt_dir mt @ [bucketName i]) = Some (bucket_bytes ps)
          \<and> Buckets m ! i = (bucket_meta ps)\<lparr>ReduceID := int i\<rparr>" if i: "i < n" for i
  proof -
    from inv i obtain ps where ps: "encoded (mt_enc mt) (for_reducer (mt_dep mt) i out) ps"
      "bw_holds (ms_writers st ! i) ps" by (auto simp: map_inv_def)
    have "(i, bucket_bytes ps) \<in> set (map snd (map finish_bucket (enumerate 0 (ms_writers st))))"
      unfolding en using i fin [OF ps(2)] by force
    then have "store' (mt_dir mt @ [bucketName i]) = Some (bucket_bytes ps)"
      unfolding store' by (intro put_files_same) (simp_all only: keys distinct_upt)
    moreover have "Buckets m ! i = (bucket_meta ps)\<lparr>ReduceID := int i\<rparr>"
      unfolding m en using i by (simp add: fin [OF ps(2)])
    ultimately show ?thesis using ps by (auto simp: bw_holds_def)
  qed
  with out inv show "\<exists>out. map_output (mt_dep mt) xs out
      \<and> (\<forall>v \<in> set out. \<exists>i < n. reducer_of (mt_dep mt) v = Inr (int i))
      \<and> (\<forall>v \<in> set out. \<forall>p. mt_enc mt v = Inr p \<longrightarrow> length p \<le> mt_recordBytes mt)
      \<and> (\<forall>i < n. \<exists>ps. encoded (mt_enc mt) (for_reducer (mt_dep mt) i out) ps \<and> length ps < 2 ^ 32
          \<and> store' (mt_dir mt @ [bucketName i]) = Some (bucket_bytes ps)
          \<and> Buckets m ! i = (bucket_meta ps)\<lparr>ReduceID := int i\<rparr>)"
    by (intro exI [of _ out]) (auto simp: map_inv_def)
  have "map Bytes (Buckets m) = map bw_size (ms_writers st)"
    using inv fin len by (intro nth_equalityI) (auto simp: m en map_inv_def bw_holds_def bucket_meta_def)
  then show "\<forall>mx. mt_maxBytes mt = Some mx \<longrightarrow> sum_list (map Bytes (Buckets m)) \<le> mx"
    using inv by (simp add: map_inv_def)
qed

section \<open>The buckets of a map output\<close>

lemma map_of_bucket_append:
  "map_of (bucket_append rid v bs) j =
     (if j = rid then Some ((case map_of bs rid of None \<Rightarrow> [] | Some vs \<Rightarrow> vs) @ [v]) else map_of bs j)"
  by (induction rid v bs rule: bucket_append.induct) auto

lemma bucket_append_keys: "fst ` set (bucket_append rid v bs) = insert rid (fst ` set bs)"
  by (induction rid v bs rule: bucket_append.induct) auto

lemma distinct_bucket_append: "distinct (map fst bs) \<Longrightarrow> distinct (map fst (bucket_append rid v bs))"
  by (induction rid v bs rule: bucket_append.induct) (auto simp: bucket_append_keys)

definition filled_buckets :: "('r \<Rightarrow> nat) \<Rightarrow> 'r list \<Rightarrow> (nat \<times> 'r list) list" where
  "filled_buckets part recs = foldl (\<lambda>bs v. bucket_append (part v) v bs) [] recs"

lemma filled_buckets_spec:
  "distinct (map fst (filled_buckets part recs)) \<and> fst ` set (filled_buckets part recs) = part ` set recs
   \<and> map_of (filled_buckets part recs) j =
       (if j \<in> part ` set recs then Some (filter (\<lambda>v. part v = j) recs) else None)"
proof (induction recs rule: rev_induct)
  case (snoc v recs)
  have step: "filled_buckets part (recs @ [v]) = bucket_append (part v) v (filled_buckets part recs)"
    by (simp add: filled_buckets_def)
  have none: "part v \<notin> part ` set recs \<Longrightarrow> filter (\<lambda>u. part u = part v) recs = []"
    unfolding filter_empty_conv by (metis image_eqI)
  have "map_of (filled_buckets part recs) (part v)
      = (if part v \<in> part ` set recs then Some (filter (\<lambda>u. part u = part v) recs) else None)" if "j = part v"
    using snoc that by blast
  with snoc none show ?case
    by (simp add: step bucket_append_keys distinct_bucket_append map_of_bucket_append)
qed (simp add: filled_buckets_def)

lemma map_of_const: "map_of (map (\<lambda>i. (i, c)) is) k = (if k \<in> set is then Some c else None)"
  by (induction "is") auto

lemma map_of_shuffle_map_output:
  assumes "rid < n"
  shows "map_of (shuffle_map_output part n recs) rid = Some (filter (\<lambda>v. part v = rid) recs)"
proof -
  let ?bs = "filled_buckets part recs"
  have "rid \<notin> part ` set recs \<Longrightarrow> filter (\<lambda>v. part v = rid) recs = []"
    unfolding filter_empty_conv by (metis image_eqI)
  then show ?thesis
    using filled_buckets_spec [of part recs rid] assms
    by (simp add: shuffle_map_output_def fill_buckets_def map_add_def map_of_const flip: filled_buckets_def)
qed

section \<open>Properties\<close>

definition parity_dep :: "byte ShuffleDep" where
  "parity_dep = \<lparr>sd_partitioner = PartitionIdPassthrough 2,
     sd_key = Some (\<lambda>b. IntKey KInt (ucast (b AND 1))), sd_mapSide = False, sd_combine = id\<rparr>"

definition parity_task :: "byte map_task" where
  "parity_task = \<lparr>mt_dep = parity_dep, mt_enc = byteEncode, mt_recordBytes = 16, mt_memoryBytes = 100,
     mt_maxBytes = Some 64, mt_tmp = [''tmp''], mt_dir = [''out'']\<rparr>"

lemma parity_task_runs:
  "\<exists>m store b. writeStreamMap parity_task None (Inr ()) ([3, 4], None) ''job'' 0 0 1 Map.empty = Inr (m, store, b)"
  by (simp add: writeStreamMap_def parity_task_def parity_dep_def upt_conv_Cons newBucketWriter_def
      reserve_opt_def write_record_def reducer_of_def ExtractKey_def GetPartition_id_def byteEncode_def
      recordLimit_def activate_def bw_append_def Let_def flush_batch_def publish_def split_beta
      format_int_def)

text \<open>
  C5: a map task that succeeds has put every record that the map side produced (the records
  themselves, or their combined batches) into the bucket file of its reducer: reading file
  \<open>r<i>\<close> yields exactly the records of reducer \<open>i\<close>, in their order, and every record belongs to one
  of the reducers.
\<close>

theorem stream_map_fills_buckets:
  assumes "codec_ok (mt_enc mt) dec" and "sd_combine (mt_dep mt) [] = []" and "mt_recordBytes mt < 2 ^ 32"
    and "writeStreamMap mt budget renamed (xs, r) job sid mapID attempt store = Inr (m, store', b')"
  shows "\<exists>out. map_output (mt_dep mt) xs out
    \<and> (\<forall>v \<in> set out. \<exists>i < length (Buckets m). reducer_of (mt_dep mt) v = Inr (int i))
    \<and> (\<forall>i < length (Buckets m). \<exists>file. store' (Location m @ [bucketName i]) = Some file
        \<and> file_records dec (mt_recordBytes mt) file = Some (for_reducer (mt_dep mt) i out))"
proof -
  note spec = writeStreamMap_spec [OF assms(2,4)]
  obtain out where out: "map_output (mt_dep mt) xs out"
    "\<forall>v \<in> set out. \<exists>i < length (Buckets m). reducer_of (mt_dep mt) v = Inr (int i)"
    "\<forall>v \<in> set out. \<forall>p. mt_enc mt v = Inr p \<longrightarrow> length p \<le> mt_recordBytes mt"
    "\<forall>i < length (Buckets m). \<exists>ps. encoded (mt_enc mt) (for_reducer (mt_dep mt) i out) ps
       \<and> length ps < 2 ^ 32 \<and> store' (mt_dir mt @ [bucketName i]) = Some (bucket_bytes ps)"
    using spec(4) unfolding spec(3) by metis
  have "\<exists>file. store' (Location m @ [bucketName i]) = Some file
      \<and> file_records dec (mt_recordBytes mt) file = Some (for_reducer (mt_dep mt) i out)"
    if i: "i < length (Buckets m)" for i
  proof -
    from out(4) i obtain ps where ps: "encoded (mt_enc mt) (for_reducer (mt_dep mt) i out) ps"
      "length ps < 2 ^ 32" "store' (mt_dir mt @ [bucketName i]) = Some (bucket_bytes ps)" by blast
    have "fits (mt_recordBytes mt) ps"
      by (rule encoded_fits_limit [OF ps(1) _ assms(3)]) (use out(3) in \<open>auto simp: for_reducer_def\<close>)
    with file_records_bucket_bytes [OF assms(1) ps(1)] ps encoded_length [OF ps(1)] spec(2)
    show ?thesis by auto
  qed
  with out(1,2) show ?thesis by blast
qed

theorem stream_map_fills_buckets_witness:
  "\<exists>m store b out. writeStreamMap parity_task None (Inr ()) ([3, 4], None) ''job'' 0 0 1 Map.empty = Inr (m, store, b)
     \<and> map_output parity_dep [3, 4] out"
proof -
  obtain m store b where run:
    "writeStreamMap parity_task None (Inr ()) ([3, 4], None) ''job'' 0 0 1 Map.empty = Inr (m, store, b)"
    using parity_task_runs by blast
  have "codec_ok (mt_enc parity_task) byteDecode" "sd_combine (mt_dep parity_task) [] = []"
    "mt_recordBytes parity_task < 2 ^ 32"
    by (simp_all add: parity_task_def parity_dep_def byte_codec_ok)
  from stream_map_fills_buckets [OF this run] obtain out where "map_output (mt_dep parity_task) [3, 4] out" by blast
  then have "map_output parity_dep [3, 4] out" by (simp add: parity_task_def)
  with run show ?thesis by blast
qed



text \<open>
  However many reducers a shuffle has and whatever records it writes, the map side never holds
  more than sixteen bucket files open.
\<close>

lemma open_files_bounded:
  assumes "open_writers tmp [0..<n] b = Inr (ws, b1)"
    and "\<forall>mx. mt_maxBytes mt = Some mx \<longrightarrow> int n * 8 \<le> mx"
    and "write_all mt \<lparr>ms_writers = ws, ms_active = [], ms_usedBytes = int n * 8, ms_budget = b1\<rparr> vs = Inr st"
  shows "card {i. i < n \<and> bw_open (ms_writers st ! i)} \<le> 16"
proof -
  note ow = open_writers_inv [OF assms(1)]
  have "map bw_size ws = replicate n 8" using ow by (intro nth_equalityI) auto
  then have "map_inv mt n [] \<lparr>ms_writers = ws, ms_active = [], ms_usedBytes = int n * 8, ms_budget = b1\<rparr>"
    using ow assms(2) by (auto simp: map_inv_def sum_list_replicate)
  from write_all_inv [OF this assms(3)] have "map_inv mt n vs st" by simp
  then have "{i. i < n \<and> bw_open (ms_writers st ! i)} = set (ms_active st)" "length (ms_active st) \<le> 16"
    by (auto simp: map_inv_def)
  then show ?thesis using card_length [of "ms_active st"] by simp
qed

text \<open>
  C11: after every map output was written through the file shuffle manager, the stream of a reducer
  delivers exactly the records of all maps that belong to it, map after map and in their order.
\<close>

theorem file_shuffle_delivers:
  assumes "codec_ok enc dec" and "fm_valid rb s"
    and "list_all (\<lambda>recs. fm_fitting enc rb (shuffle_map_output part n recs)) parts" and "rid < n"
  shows "\<exists>s'. write_maps (fm_WriteMapOutput enc) s sid 0 (map (shuffle_map_output part n) parts) = Inr s'
    \<and> fm_stream dec s' sid rid (length parts)
        = Inr (concat (map (filter (\<lambda>v. part v = rid)) parts), None)"
  by (rule shuffle_manager.shuffle_delivers [OF file_manager_laws [OF assms(1)] assms(2)])
    (use assms(3,4) in \<open>simp_all add: list_all_iff map_of_shuffle_map_output\<close>)

definition empty_file_manager :: fileShuffleManager where
  "empty_file_manager = \<lparr>fm_paths = Map.empty, fm_store = Map.empty, fm_root = [''disk''],
     fm_temp = 0, fm_recordBytes = 16\<rparr>"

theorem file_shuffle_delivers_witness:
  "\<exists>s'. write_maps (fm_WriteMapOutput byteEncode) empty_file_manager 7 0
      (map (shuffle_map_output (\<lambda>b. unat b mod 2) 2) [[1, 2, 3], [4, 5]]) = Inr s'
    \<and> fm_stream byteDecode s' 7 1 (Suc (Suc 0)) = Inr ([1, 3, 5], None)"
proof -
  have "fm_valid 16 empty_file_manager"
    by (simp add: fm_valid_def empty_file_manager_def fm_lookup_def)
  moreover have "list_all (\<lambda>recs. fm_fitting byteEncode 16 (shuffle_map_output (\<lambda>b. unat b mod 2) 2 recs))
      [[1, 2, 3], [4, 5]]"
    using byte_encoded
    by (auto simp: fm_fitting_def shuffle_map_output_def fill_buckets_def upt_conv_Cons fits_def
        encoded_Cons byteEncode_def)
  ultimately show ?thesis
    using file_shuffle_delivers [OF byte_codec_ok, of 16 empty_file_manager "\<lambda>b. unat b mod 2" 2
        "[[1, 2, 3], [4, 5]]" 1 7] by simp
qed

text \<open>
  The in-memory shuffle manager delivers to each reducer exactly the records of all maps that
  belong to it, map after map and in their order.
\<close>

lemma local_shuffle_delivers:
  assumes "rid < n"
  shows "\<exists>s'. write_maps (\<lambda>m sid i b. Inr (lm_WriteMapOutput m sid i b)) s sid 0
      (map (shuffle_map_output part n) parts) = Inr s'
    \<and> lm_stream s' sid rid (length parts) = (concat (map (filter (\<lambda>v. part v = rid)) parts), None)"
  using local_manager.shuffle_delivers [of "shuffle_map_output part n" parts rid
      "filter (\<lambda>v. part v = rid)" s sid] assms
  by (simp add: list_all_iff map_of_shuffle_map_output)

end
