(* ===== verification/Range_Sort.thy ===== *)
theory Range_Sort
  imports Shuffle
begin

text \<open>
  \<^verbatim>\<open>range_sort.go\<close>: the deterministic samples from which the boundaries of a range sort are
  chosen. Each map keeps a reservoir of at most 64 keys, the driver one of at most 4096; the
  arithmetic is the 64-bit arithmetic of the code. The boundaries are ascending whatever the
  samples are, so the sort is globally ordered; the samples only affect balance.
\<close>

definition sortSamplesPerMap :: nat where
  "sortSamplesPerMap = 64"

definition maxSortSampleBytes :: nat where
  "maxSortSampleBytes = 4 * 2 ^ 10"

definition sortGlobalSamples :: nat where
  "sortGlobalSamples = 4096"

section \<open>Sampling\<close>

text \<open>The loop over the keys of one partition; \<open>r\<close> is how the parent iterator ends.\<close>

fun sample_loop ::
  "('k \<Rightarrow> byte list res) \<Rightarrow> 'k list \<Rightarrow> goerr option \<Rightarrow> 'k list \<Rightarrow> uint64 \<Rightarrow> uint64 \<Rightarrow> 'k list res" where
  "sample_loop enc [] None samples seen seed = Inr samples"
| "sample_loop enc [] (Some e) samples seen seed = Inl e"
| "sample_loop enc (key # ks) r samples seen seed =
     bindR (enc key) (\<lambda>payload.
       if length payload > maxSortSampleBytes then sample_loop enc ks r samples seen seed
       else
         let seen' = seen + 1 in
         if length samples < sortSamplesPerMap
         then sample_loop enc ks r (samples @ [key]) seen' seed
         else
           let seed' = seed * 6364136223846793005 + 1442695040888963407;
               slot = seed' mod seen' in
           sample_loop enc ks r
             (if unat slot < sortSamplesPerMap then samples[unat slot := key] else samples) seen' seed')"

definition sampleSortPartition ::
  "('k \<Rightarrow> byte list res) \<Rightarrow> nat \<Rightarrow> 'k list \<Rightarrow> goerr option \<Rightarrow> 'k list res" where
  "sampleSortPartition enc index keys r =
     sample_loop enc keys r [] 0 (word_of_nat (index + 1) * 0x9e3779b97f4a7c15 + 1)"

definition mix :: "uint64 \<Rightarrow> uint64" where
  "mix seen =
     (let h0 = seen + 0x9e3779b97f4a7c15;
          h1 = (h0 XOR drop_bit 30 h0) * 0xbf58476d1ce4e5b9;
          h2 = (h1 XOR drop_bit 27 h1) * 0x94d049bb133111eb
      in h2 XOR drop_bit 31 h2)"

fun appendSortSamples :: "'k list \<Rightarrow> 'k list \<Rightarrow> uint64 \<Rightarrow> 'k list \<times> uint64" where
  "appendSortSamples samples [] seen = (samples, seen)"
| "appendSortSamples samples (key # ks) seen =
     (let seen' = seen + 1 in
      if length samples < sortGlobalSamples then appendSortSamples (samples @ [key]) ks seen'
      else
        let slot = mix seen' mod seen' in
        appendSortSamples
          (if unat slot < sortGlobalSamples then samples[unat slot := key] else samples) ks seen')"

section \<open>Boundaries\<close>

definition selectRangeBounds :: "'k list \<Rightarrow> int \<Rightarrow> ('k \<Rightarrow> 'k \<Rightarrow> bool) \<Rightarrow> 'k list option" where
  "selectRangeBounds samples reducers lt =
     (if samples = [] \<or> reducers \<le> 1 then None
      else
        let sorted' = SliceStable lt samples in
        Some (map (\<lambda>p. sorted' ! (p * length samples div nat reducers)) [1..<nat reducers]))"

section \<open>The samples are bounded and taken from the input\<close>

lemma sample_loop_bound:
  "sample_loop enc ks r samples seen seed = Inr out \<Longrightarrow> length samples \<le> sortSamplesPerMap \<Longrightarrow>
     length out \<le> sortSamplesPerMap \<and> set out \<subseteq> set samples \<union> set ks"
proof (induction enc ks r samples seen seed rule: sample_loop.induct)
  case (3 enc key ks r samples seen seed)
  then obtain p where p: "enc key = Inr p" by (auto simp: bindR_Inr_conv)
  note IH = 3(1,2,3)
  show ?case
  proof (cases "length p > maxSortSampleBytes")
    case True
    with 3(4,5) IH(1) [OF True] p show ?thesis by auto
  next
    case small: False
    show ?thesis
    proof (cases "length samples < sortSamplesPerMap")
      case True
      with small 3(4,5) IH(2) [OF small refl True] p show ?thesis by (auto simp: Let_def)
    next
      case False
      let ?s = "seed * 6364136223846793005 + 1442695040888963407"
      let ?new = "if unat (?s mod (seen + 1)) < sortSamplesPerMap
        then samples[unat (?s mod (seen + 1)) := key] else samples"
      have "sample_loop enc ks r ?new (seen + 1) ?s = Inr out"
        using 3(4) p small False by (simp add: Let_def)
      from IH(3) [OF small refl False refl refl this] 3(5)
      have "length out \<le> sortSamplesPerMap" "set out \<subseteq> set ?new \<union> set ks" by auto
      then show ?thesis using set_update_subset_insert [of samples] by (fastforce split: if_splits)
    qed
  qed
qed auto

lemma appendSortSamples_bound:
  "length samples \<le> sortGlobalSamples \<Longrightarrow>
     length (fst (appendSortSamples samples ks seen)) \<le> sortGlobalSamples
     \<and> set (fst (appendSortSamples samples ks seen)) \<subseteq> set samples \<union> set ks"
proof (induction samples ks seen rule: appendSortSamples.induct)
  case (2 samples key ks seen)
  show ?case
  proof (cases "length samples < sortGlobalSamples")
    case True
    with 2 show ?thesis by (auto simp: Let_def)
  next
    case False
    let ?k = "unat (mix (seen + 1) mod (seen + 1))"
    let ?new = "if ?k < sortGlobalSamples then samples[?k := key] else samples"
    have "appendSortSamples samples (key # ks) seen = appendSortSamples ?new ks (seen + 1)"
      using False by (simp add: Let_def)
    moreover have "length (fst (appendSortSamples ?new ks (seen + 1))) \<le> sortGlobalSamples"
      "set (fst (appendSortSamples ?new ks (seen + 1))) \<subseteq> set ?new \<union> set ks"
      using 2(2) [OF refl False refl] 2(3) by auto
    ultimately show ?thesis using set_update_subset_insert [of samples] by (fastforce split: if_splits)
  qed
qed simp

section \<open>The boundaries are ascending\<close>

lemma selectRangeBounds_sorted:
  assumes "strict_weak_order lt" and "selectRangeBounds samples reducers lt = Some bs"
  shows "sorted_wrt (\<lambda>a b. \<not> lt b a) bs" and "int (length bs) = reducers - 1" and "set bs \<subseteq> set samples"
proof -
  let ?s = "SliceStable lt samples" and ?n = "nat reducers"
  have bs: "bs = map (\<lambda>p. ?s ! (p * length samples div ?n)) [1..<?n]" and n: "1 < reducers"
    and ne: "samples \<noteq> []"
    using assms(2) by (auto simp: selectRangeBounds_def Let_def split: if_splits)
  then show "int (length bs) = reducers - 1" by simp
  have idx: "p * length samples div ?n < length samples" if "p < ?n" for p
    using that ne by (simp add: div_less_iff_less_mult)
  have asc: "sorted_wrt (\<lambda>a b. \<not> lt b a) ?s"
    using ascending_SliceStable [OF assms(1)] by (simp add: ascending_def)
  have refl': "\<not> lt a a" for a using assms(1) by (auto simp: strict_weak_order_def)
  have mono: "\<not> lt (?s ! j) (?s ! i)" if "i \<le> j" "j < length samples" for i j
    using that asc refl' by (cases "i = j") (auto simp: sorted_wrt_iff_nth_less)
  show "sorted_wrt (\<lambda>a b. \<not> lt b a) bs"
    unfolding bs sorted_wrt_iff_nth_less
  proof (intro allI impI)
    fix i j assume ij: "i < j" "j < length (map (\<lambda>p. ?s ! (p * length samples div ?n)) [1..<?n])"
    have "\<not> lt (?s ! (Suc j * length samples div ?n)) (?s ! (Suc i * length samples div ?n))"
      by (rule mono) (use ij idx [of "Suc j"] in \<open>auto intro!: div_le_mono mult_le_mono\<close>)
    with ij show "\<not> lt (map (\<lambda>p. ?s ! (p * length samples div ?n)) [1..<?n] ! j)
        (map (\<lambda>p. ?s ! (p * length samples div ?n)) [1..<?n] ! i)"
      by simp
  qed
  show "set bs \<subseteq> set samples"
  proof
    fix k assume "k \<in> set bs"
    then obtain p where p: "p < ?n" "k = ?s ! (p * length samples div ?n)" by (auto simp: bs)
    have "?s ! (p * length samples div ?n) \<in> set ?s" using idx [OF p(1)] by (intro nth_mem) simp
    with p(2) show "k \<in> set samples" by simp
  qed
qed

section \<open>Sorted ranges make a sorted whole\<close>

text \<open>Reducer \<open>i\<close> of a range sort: its records, stably sorted by key.\<close>

definition range_reducer ::
  "int \<Rightarrow> 'k list option \<Rightarrow> ('k \<Rightarrow> 'k \<Rightarrow> bool) \<Rightarrow> ('k \<times> 'v) list \<Rightarrow> nat \<Rightarrow> ('k \<times> 'v) list" where
  "range_reducer n bounds lt recs i =
     SliceStable (\<lambda>a b. lt (fst a) (fst b))
       (filter (\<lambda>p. GetPartition_range n bounds lt (fst p) = int i) recs)"

lemma strict_weak_order_fst:
  "strict_weak_order lt \<Longrightarrow> strict_weak_order (\<lambda>a b. lt (fst a) (fst b))"
  unfolding strict_weak_order_def by blast

lemma mset_concat_filter:
  assumes "\<forall>x \<in> set xs. \<exists>i < n. f x = i"
  shows "mset (concat (map (\<lambda>i. filter (\<lambda>x. f x = i) xs) [0..<n])) = mset xs"
  using assms
proof (induction n arbitrary: xs)
  case (Suc n)
  let ?lo = "filter (\<lambda>x. f x \<noteq> n) xs"
  have "\<forall>x \<in> set ?lo. \<exists>i < n. f x = i" using Suc.prems less_Suc_eq by auto
  from Suc.IH [OF this]
  have "mset (concat (map (\<lambda>i. filter (\<lambda>x. f x = i) ?lo) [0..<n])) = mset ?lo" .
  moreover have "map (\<lambda>i. filter (\<lambda>x. f x = i) ?lo) [0..<n] = map (\<lambda>i. filter (\<lambda>x. f x = i) xs) [0..<n]"
    by (rule map_cong [OF refl]) (auto intro: filter_cong)
  ultimately have "mset (concat (map (\<lambda>i. filter (\<lambda>x. f x = i) xs) [0..<n])) = mset ?lo"
    by (simp only:)
  then show ?case using multiset_partition [of "mset xs" "\<lambda>x. f x = n"] by (simp add: ac_simps)
qed simp

lemma range_sort_global:
  fixes recs :: "('k \<times> 'v) list"
  assumes swo: "strict_weak_order lt" and n: "0 < n"
    and bounds: "\<And>bs. bounds = Some bs \<Longrightarrow> sorted_wrt (\<lambda>a b. \<not> lt b a) bs"
  defines "out \<equiv> concat (map (range_reducer n bounds lt recs) [0..<nat n])"
  shows "ascending (\<lambda>a b. lt (fst a) (fst b)) out" and "mset out = mset recs"
proof -
  let ?lt = "\<lambda>a b. lt (fst a) (fst b)" and ?part = "\<lambda>p. GetPartition_range n bounds lt (fst p)"
  have asc: "sorted_wrt (\<lambda>a b. \<not> ?lt b a) (range_reducer n bounds lt recs i)" for i
    using ascending_SliceStable [OF strict_weak_order_fst [OF swo]]
    by (simp add: range_reducer_def ascending_def)
  have cross: "\<not> ?lt b a" if "?part a < ?part b" for a b
  proof
    assume "?lt b a"
    then have "\<not> lt (fst a) (fst b)" by (rule swo_asym [OF swo])
    then have "?part b \<le> ?part a"
      using GetPartition_range_mono [OF swo bounds] by (cases bounds) (auto simp: GetPartition_range_def)
    with that show False by simp
  qed
  have "sorted_wrt (\<lambda>a b. \<not> ?lt b a) (concat (map (range_reducer n bounds lt recs) [0..<k]))" for k
  proof (induction k)
    case (Suc k)
    have "\<not> ?lt b a" if "a \<in> set (range_reducer n bounds lt recs i)" "i < k"
      "b \<in> set (range_reducer n bounds lt recs k)" for a b i
      using that by (intro cross) (simp add: range_reducer_def)
    with Suc asc show ?case by (auto simp: sorted_wrt_append)
  qed simp
  then show "ascending ?lt out" by (simp add: ascending_def out_def)
  have "mset out = mset (concat (map (\<lambda>i. filter (\<lambda>p. nat (?part p) = i) recs) [0..<nat n]))"
  proof -
    have "filter (\<lambda>p. ?part p = int i) recs = filter (\<lambda>p. nat (?part p) = i) recs" for i
      by (rule filter_cong [OF refl]) (use GetPartition_range_range [OF n, of bounds lt] in \<open>auto simp: nat_eq_iff\<close>)
    then show ?thesis by (simp add: out_def range_reducer_def mset_concat comp_def)
  qed
  also have "\<dots> = mset recs"
    by (rule mset_concat_filter) (use GetPartition_range_range [OF n, of bounds lt] n in auto)
  finally show "mset out = mset recs" .
qed

section \<open>Properties\<close>

text \<open>
  A range sort is correct whatever samples its boundaries were chosen from: the reducers'
  outputs, concatenated in partition order, are ascending by key and a permutation of the input.
\<close>

lemma range_sort_correct:
  fixes recs :: "('k \<times> 'v) list" and samples :: "'k list"
  assumes "strict_weak_order lt" and "0 < n"
  defines "out \<equiv> concat (map (range_reducer n (selectRangeBounds samples n lt) lt recs) [0..<nat n])"
  shows "ascending (\<lambda>a b. lt (fst a) (fst b)) out \<and> mset out = mset recs"
  using range_sort_global [OF assms(1,2), of "selectRangeBounds samples n lt" recs]
    selectRangeBounds_sorted(1) [OF assms(1)] by (simp add: out_def)

text \<open>
  Sampling is bounded: a map contributes at most 64 keys, all of them keys of its partition,
  and the driver never holds more than 4096 samples.
\<close>

lemma samples_bounded:
  assumes "sampleSortPartition enc index keys r = Inr out" and "length samples \<le> 4096"
  shows "length out \<le> 64 \<and> set out \<subseteq> set keys \<and> length (fst (appendSortSamples samples out seen)) \<le> 4096"
  using sample_loop_bound [of enc keys r "[]"] appendSortSamples_bound [of samples out seen] assms
  by (auto simp: sampleSortPartition_def sortSamplesPerMap_def sortGlobalSamples_def)

end
