(* ===== verification/Text_Input.thy ===== *)
theory Text_Input
  imports Iterators
begin

text \<open>
  The input side: \<^verbatim>\<open>sliceData\<close> and \<^verbatim>\<open>newParallelCollectionRDD\<close>, text files cut into byte ranges
  and read line by line (\<^verbatim>\<open>rdd_creators.go\<close>), and the input splits that ship the planned ranges
  to the executors (\<^verbatim>\<open>input_splits.go\<close>). A partition reads the lines that start in its range:
  it skips a line that began in the previous range and finishes one that ends in the next. The
  theory shows that the partitions of a file together deliver every line exactly once.
\<close>

section \<open>Parallel collections\<close>

definition sliceData :: "'a list \<Rightarrow> int \<Rightarrow> 'a list list" where
  "sliceData data numSlices =
     (if data = [] then [[]]
      else
        let n1 = (if numSlices \<le> 0 then 1 else numSlices);
            n = nat (if n1 > int (length data) then int (length data) else n1) in
        map (\<lambda>i. let start = i * length data div n; stop = (i + 1) * length data div n in
                 take (stop - start) (drop start data)) [0..<n])"

text \<open>The partition indices of a parallel collection and what computing one of them yields.\<close>

definition parallel_partitions :: "'a list \<Rightarrow> int \<Rightarrow> nat list" where
  "parallel_partitions data numPartitions =
     (let slices = sliceData data numPartitions;
          ps = filter (\<lambda>i. slices ! i \<noteq> []) [0..<length slices] in
      if ps = [] then [0] else ps)"

definition parallel_compute :: "'a list \<Rightarrow> int \<Rightarrow> nat \<Rightarrow> 'a Iterator" where
  "parallel_compute data numPartitions i =
     (let slices = sliceData data numPartitions in
      if i < length slices \<and> slices ! i \<noteq> [] then SliceIterator (slices ! i) else EmptyIterator)"

section \<open>Splitting a text file\<close>

record textSpan =
  ts_path :: string
  ts_offset :: nat
  ts_length :: nat

record textFilePartition =
  tp_index :: nat
  tp_source :: string
  tp_seq :: nat
  tp_files :: "textSpan list"

definition text_partition :: "nat \<Rightarrow> textSpan list \<Rightarrow> textFilePartition" where
  "text_partition i fs = \<lparr>tp_index = i, tp_source = '''', tp_seq = 0, tp_files = fs\<rparr>"

definition splitTextFile :: "string \<Rightarrow> nat \<Rightarrow> int \<Rightarrow> textFilePartition list" where
  "splitTextFile filePath fileSize numPartitions =
     (if fileSize \<le> 0
      then [text_partition 0 [\<lparr>ts_path = filePath, ts_offset = 0, ts_length = 0\<rparr>]]
      else
        let n1 = nat (if numPartitions \<le> 0 then 1 else numPartitions);
            chunk1 = fileSize div n1;
            chunkSize = (if chunk1 = 0 then fileSize else chunk1);
            n = (if chunk1 = 0 then 1 else n1) in
        map (\<lambda>i. let off = i * chunkSize in
                 text_partition i
                   [\<lparr>ts_path = filePath, ts_offset = off,
                     ts_length = (if i = n - 1 then fileSize - off else chunkSize)\<rparr>])
          [0..<n])"

text \<open>The slot with the fewest bytes, the first of them on a tie.\<close>

fun least_used :: "nat list \<Rightarrow> nat list \<Rightarrow> nat \<Rightarrow> nat" where
  "least_used used [] slot = slot"
| "least_used used (i # is) slot =
     least_used used is (if used ! i < used ! slot then i else slot)"

fun assign_files :: "textSpan list \<Rightarrow> textSpan list list \<Rightarrow> nat list \<Rightarrow> textSpan list list" where
  "assign_files [] groups used = groups"
| "assign_files (file # fs) groups used =
     (let slot = least_used used [1..<length groups] 0 in
      assign_files fs (groups[slot := groups ! slot @ [file]])
        (used[slot := used ! slot + ts_length file]))"

text \<open>
  \<open>stat\<close> is the answer of the file system for the path (directory flag and size), \<open>files\<close> what
  \<^verbatim>\<open>collectTextFiles\<close> finds below it.
\<close>

definition textInputPartitions ::
  "(bool \<times> nat) res \<Rightarrow> textSpan list res \<Rightarrow> string \<Rightarrow> int \<Rightarrow> textFilePartition list" where
  "textInputPartitions stat files filePath numPartitions =
     (case stat of
        Inr (False, sz) \<Rightarrow> splitTextFile filePath sz numPartitions
      | _ \<Rightarrow>
        (case files of
           Inl _ \<Rightarrow> [text_partition 0 []]
         | Inr fs \<Rightarrow>
             if fs = [] then [text_partition 0 []]
             else if length fs = 1 then splitTextFile (ts_path (hd fs)) (ts_length (hd fs)) numPartitions
             else
               let n1 = nat (if numPartitions \<le> 0 then 1 else numPartitions);
                   n = (if n1 > length fs then length fs else n1);
                   groups = filter (\<lambda>g. g \<noteq> []) (assign_files fs (replicate n []) (replicate n 0)) in
               map (\<lambda>(i, g). text_partition i g) (enumerate 0 groups)))"

section \<open>Reading lines\<close>

text \<open>
  \<^verbatim>\<open>ReadSlice\<close> repeated until it returns without \<^verbatim>\<open>ErrBufferFull\<close>: the bytes up to and including
  the next newline, or the rest of the file.
\<close>

fun read_line :: "byte list \<Rightarrow> byte list \<times> byte list" where
  "read_line [] = ([], [])"
| "read_line (b # bs) =
     (if b = 10 then ([b], bs) else let (l, r) = read_line bs in (b # l, r))"

definition trim_suffix :: "byte \<Rightarrow> byte list \<Rightarrow> byte list" where
  "trim_suffix b l = (if l \<noteq> [] \<and> last l = b then butlast l else l)"

definition trim_line :: "byte list \<Rightarrow> byte list" where
  "trim_line l = trim_suffix 13 (trim_suffix 10 l)"

text \<open>The closure: the unread bytes, the position, the end of the range and the flag \<^verbatim>\<open>done\<close>.\<close>

primcorec text_iter :: "nat \<Rightarrow> nat \<Rightarrow> byte list \<Rightarrow> nat \<Rightarrow> bool \<Rightarrow> byte list Iterator" where
  "text_iter lim stop rest pos fin =
     (if fin \<or> pos \<ge> stop then Stop
      else
        let l = fst (read_line rest) in
        if length l > lim then Panic (Err ''TextFile line exceeds MaxRecordBytes'')
        else if l = [] then Stop
        else Yield (trim_line l)
          (text_iter lim stop (snd (read_line rest)) (pos + length l) (last l \<noteq> 10)))"

text \<open>\<open>file\<close> is the content the file system delivers, or its error.\<close>

definition newTextFileIteratorFS :: "nat \<Rightarrow> byte list res \<Rightarrow> nat \<Rightarrow> nat \<Rightarrow> byte list Iterator" where
  "newTextFileIteratorFS lim file off len =
     (if len \<le> 0 then EmptyIterator
      else case file of
        Inl e \<Rightarrow> Panic e
      | Inr bs \<Rightarrow>
          if off > 0 \<and> length bs < off then Panic EOF
          else if off > 0 \<and> bs ! (off - 1) \<noteq> 10
          then
            let l = fst (read_line (drop off bs)) in
            if l = [] \<or> last l \<noteq> 10 then EmptyIterator
            else text_iter lim (off + len) (snd (read_line (drop off bs))) (off + length l) False
          else text_iter lim (off + len) (drop off bs) off False)"

definition text_compute ::
  "nat \<Rightarrow> (string \<Rightarrow> byte list res) \<Rightarrow> textFilePartition \<Rightarrow> byte list Iterator" where
  "text_compute lim fs p =
     ChainIterators (map (\<lambda>s. newTextFileIteratorFS lim (fs (ts_path s)) (ts_offset s) (ts_length s))
       (tp_files p))"

section \<open>Input splits\<close>

record InputSplit =
  is_Source :: string
  is_Call :: nat
  is_Path :: string
  is_Offset :: nat
  is_Length :: nat
  is_Partition :: nat

text \<open>The splits of one text partition; an empty partition is recorded without a path.\<close>

definition capture_partition :: "textFilePartition \<Rightarrow> InputSplit list" where
  "capture_partition tp =
     (if tp_files tp = []
      then [\<lparr>is_Source = tp_source tp, is_Call = tp_seq tp, is_Path = '''', is_Offset = 0,
             is_Length = 0, is_Partition = tp_index tp\<rparr>]
      else map (\<lambda>s. \<lparr>is_Source = tp_source tp, is_Call = tp_seq tp, is_Path = ts_path s,
             is_Offset = ts_offset s, is_Length = ts_length s, is_Partition = tp_index tp\<rparr>)
        (tp_files tp))"

text \<open>\<^verbatim>\<open>installInputSplits\<close>: the table by source and call number.\<close>

definition installInputSplits :: "InputSplit list \<Rightarrow> string \<times> nat \<Rightarrow> InputSplit list option" where
  "installInputSplits splits key =
     (let mine = filter (\<lambda>s. (is_Source s, is_Call s) = key) splits in
      if mine = [] then None else Some mine)"

definition plannedTextPartitions ::
  "(string \<times> nat \<Rightarrow> InputSplit list option) \<Rightarrow> string \<Rightarrow> nat \<Rightarrow> textFilePartition list option" where
  "plannedTextPartitions inputs source call =
     (case inputs (source, call) of
        None \<Rightarrow> None
      | Some splits \<Rightarrow>
          Some (map (\<lambda>i. \<lparr>tp_index = i, tp_source = source, tp_seq = call,
              tp_files = map (\<lambda>s. \<lparr>ts_path = is_Path s, ts_offset = is_Offset s, ts_length = is_Length s\<rparr>)
                (filter (\<lambda>s. is_Partition s = i \<and> is_Path s \<noteq> '''') splits)\<rparr>)
            (sort (remdups (map is_Partition splits)))))"

section \<open>Slices cover the data\<close>

lemma sliceData_concat: "concat (sliceData data numSlices) = data"
proof (cases "data = []")
  case False
  define n where "n = nat (let n1 = (if numSlices \<le> 0 then 1 else numSlices) in
    if n1 > int (length data) then int (length data) else n1)"
  have n: "0 < n" using False by (simp add: n_def Let_def)
  have "sliceData data numSlices = map (\<lambda>i. take (Suc i * length data div n - i * length data div n)
      (drop (i * length data div n) data)) [0..<n]"
    using False by (simp add: sliceData_def n_def Let_def)
  also have "concat \<dots> = take (n * length data div n - 0 * length data div n) (drop (0 * length data div n) data)"
    by (rule concat_slices [where b = "\<lambda>i. i * length data div n"]) (use n in \<open>auto intro: div_le_mono\<close>)
  finally show ?thesis using n by simp
qed (simp add: sliceData_def)

lemma parallel_compute_emits:
  "emits (parallel_compute data n i) (if i < length (sliceData data n) then sliceData data n ! i else []) None"
  by (auto simp: parallel_compute_def Let_def emits_SliceIterator emits_EmptyIterator)

lemma concat_filter_nth:
  "concat (map (\<lambda>i. xss ! i) (filter (\<lambda>i. xss ! i \<noteq> []) [0..<length xss])) = concat xss"
proof -
  have "concat (map (\<lambda>i. xss ! i) (filter (\<lambda>i. xss ! i \<noteq> []) is)) = concat (map (\<lambda>i. xss ! i) is)" for "is"
    by (induction "is") auto
  then show ?thesis by (simp add: map_nth)
qed

lemma parallel_partitions_cover:
  "concat (map (\<lambda>i. if i < length (sliceData data n) then sliceData data n ! i else []) (parallel_partitions data n)) = data"
proof -
  let ?s = "sliceData data n"
  let ?ps = "filter (\<lambda>i. ?s ! i \<noteq> []) [0..<length ?s]"
  have eq: "concat (map (\<lambda>i. if i < length ?s then ?s ! i else []) ?ps) = data"
  proof -
    have "map (\<lambda>i. if i < length ?s then ?s ! i else []) ?ps = map (\<lambda>i. ?s ! i) ?ps"
      by (intro map_cong) auto
    then show ?thesis by (simp only: concat_filter_nth sliceData_concat)
  qed
  show ?thesis
  proof (cases "?ps = []")
    case True
    then have "data = []" using eq by simp
    then show ?thesis by (simp add: parallel_partitions_def sliceData_def)
  qed (use eq in \<open>simp add: parallel_partitions_def Let_def\<close>)
qed

section \<open>Lines\<close>

lemma read_line_append: "fst (read_line bs) @ snd (read_line bs) = bs"
  by (induction bs) (auto simp: split_beta)

lemma read_line_eq_Nil: "fst (read_line bs) = [] \<longleftrightarrow> bs = []"
  by (cases bs) (auto simp: split_beta)

lemma read_line_length: "bs \<noteq> [] \<Longrightarrow> length (snd (read_line bs)) < length bs"
  using arg_cong [OF read_line_append, of length bs] read_line_eq_Nil [of bs]
  by (cases "fst (read_line bs)") auto

text \<open>Only the last byte of a line is a newline, and a line without one is the last.\<close>

lemma read_line_inner: "i < length (fst (read_line bs)) - 1 \<Longrightarrow> fst (read_line bs) ! i \<noteq> 10"
proof (induction bs arbitrary: i)
  case (Cons b bs)
  then show ?case by (cases i) (auto simp: split_beta)
qed simp

lemma read_line_last: "bs \<noteq> [] \<Longrightarrow> last (fst (read_line bs)) \<noteq> 10 \<Longrightarrow> snd (read_line bs) = []"
proof (induction bs)
  case (Cons b bs)
  then show ?case by (cases "bs = []") (auto simp: split_beta read_line_eq_Nil split: if_splits)
qed simp

text \<open>The lines of \<open>rest\<close>, which starts at position \<open>pos\<close>, that start in \<open>[o', e)\<close>.\<close>

function lines_in :: "byte list \<Rightarrow> nat \<Rightarrow> nat \<Rightarrow> nat \<Rightarrow> byte list list" where
  "lines_in rest pos o' e =
     (if rest = [] \<or> pos \<ge> e then []
      else (if o' \<le> pos then [fst (read_line rest)] else [])
        @ lines_in (snd (read_line rest)) (pos + length (fst (read_line rest))) o' e)"
  by pat_completeness auto
termination
  by (relation "measure (\<lambda>(rest, pos, o', e). length rest)") (auto simp: read_line_length)

declare lines_in.simps [simp del]

lemma lines_in_low: "o' \<le> pos \<Longrightarrow> lines_in rest pos o' e = lines_in rest pos 0 e"
proof (induction rest pos o' e rule: lines_in.induct)
  case (1 rest pos o' e)
  then show ?case by (subst (1 2) lines_in.simps) auto
qed

lemma emits_text_iter:
  assumes "\<forall>l \<in> set (lines_in rest pos 0 e). length l \<le> lim" and "fin \<Longrightarrow> rest = []"
  shows "emits (text_iter lim e rest pos fin) (map trim_line (lines_in rest pos 0 e)) None"
  using assms
proof (induction rest pos "0 :: nat" e arbitrary: fin rule: lines_in.induct)
  case (1 rest pos e)
  let ?l = "fst (read_line rest)" and ?r = "snd (read_line rest)"
  show ?case
  proof (cases "rest = [] \<or> pos \<ge> e")
    case True
    then show ?thesis
      by (subst lines_in.simps, subst text_iter.code) (auto simp: Let_def)
  next
    case False
    then have lines: "lines_in rest pos 0 e = ?l # lines_in ?r (pos + length ?l) 0 e"
      by (subst lines_in.simps) simp
    have ne: "?l \<noteq> []" using False by (simp add: read_line_eq_Nil)
    have "text_iter lim e rest pos fin
        = Yield (trim_line ?l) (text_iter lim e ?r (pos + length ?l) (last ?l \<noteq> 10))"
      using False 1(2,3) lines ne by (subst text_iter.code) (auto simp: Let_def)
    moreover have "emits (text_iter lim e ?r (pos + length ?l) (last ?l \<noteq> 10))
        (map trim_line (lines_in ?r (pos + length ?l) 0 e)) None"
      using 1(1) [OF False] 1(2) lines False read_line_last by auto
    ultimately show ?thesis by (simp add: lines)
  qed
qed

text \<open>A line that covers position \<open>o'\<close> without starting there ends where the reader resumes.\<close>

lemma read_line_drop:
  "k < length (fst (read_line bs)) \<Longrightarrow>
     read_line (drop k bs) = (drop k (fst (read_line bs)), snd (read_line bs))"
proof (induction bs arbitrary: k)
  case (Cons b bs)
  then show ?case by (cases k) (auto simp: split_beta split: if_splits)
qed simp

text \<open>The bytes the iterator of the range \<open>[o', e)\<close> starts with.\<close>

definition range_start :: "byte list \<Rightarrow> nat \<Rightarrow> byte list \<times> nat" where
  "range_start bs o' =
     (if o' > 0 \<and> bs ! (o' - 1) \<noteq> 10
      then (snd (read_line (drop o' bs)), o' + length (fst (read_line (drop o' bs))))
      else (drop o' bs, o'))"

lemma lines_in_past: "e \<le> pos \<Longrightarrow> lines_in rest pos o' e = []"
  by (subst lines_in.simps) simp

lemma lines_in_step:
  "rest \<noteq> [] \<Longrightarrow> pos < o' \<Longrightarrow> pos < e \<Longrightarrow>
     lines_in rest pos o' e = lines_in (snd (read_line rest)) (pos + length (fst (read_line rest))) o' e"
  by (subst lines_in.simps) simp

lemma range_start_inside:
  assumes rest: "rest = drop pos bs" and "pos < o'" and "o' < length bs"
    and inside: "o' < pos + length (fst (read_line rest))"
  shows "range_start bs o' = (snd (read_line rest), pos + length (fst (read_line rest)))"
proof -
  let ?l = "fst (read_line rest)"
  have k: "o' - pos < length ?l" using assms by simp
  have drop: "drop o' bs = drop (o' - pos) rest" using assms by simp
  have "bs ! (o' - 1) = rest ! (o' - 1 - pos)" using assms by simp
  also have "\<dots> = ?l ! (o' - 1 - pos)"
  proof -
    have "o' - 1 - pos < length ?l" using k by linarith
    then show ?thesis using nth_append [of ?l "snd (read_line rest)" "o' - 1 - pos"]
      by (simp only: read_line_append if_True)
  qed
  also have "\<dots> \<noteq> 10" using read_line_inner [of "o' - 1 - pos" rest] k assms(2) by simp
  finally show ?thesis
    using assms(2) k read_line_drop [OF k] by (simp add: range_start_def drop)
qed

lemma line_boundary:
  assumes "rest = drop pos bs" and "rest \<noteq> []" and "pos + length (fst (read_line rest)) < length bs"
  shows "snd (read_line rest) = drop (pos + length (fst (read_line rest))) bs"
    and "bs ! (pos + length (fst (read_line rest)) - 1) = 10"
proof -
  let ?l = "fst (read_line rest)"
  have app: "drop pos bs = ?l @ snd (read_line rest)" using assms(1) by (simp add: read_line_append)
  then show r: "snd (read_line rest) = drop (pos + length ?l) bs"
    by (metis append_eq_conv_conj drop_drop add.commute)
  have ne: "?l \<noteq> []" using assms(2) by (simp add: read_line_eq_Nil)
  have "last ?l = 10" using read_line_last [OF assms(2)] r assms(3) by fastforce
  moreover have "last ?l = bs ! (pos + length ?l - 1)"
  proof -
    have "last ?l = drop pos bs ! (length ?l - 1)"
      using ne app by (simp add: last_conv_nth nth_append)
    also have "\<dots> = bs ! (pos + (length ?l - 1))" using assms(3) by (simp add: nth_drop)
    also have "pos + (length ?l - 1) = pos + length ?l - 1" using ne by (cases ?l) simp_all
    finally show ?thesis .
  qed
  ultimately show "bs ! (pos + length ?l - 1) = 10" by simp
qed

lemma lines_in_range_start:
  assumes "rest = drop pos bs" and "pos \<le> o'" and "o' < length bs"
    and "pos > 0 \<Longrightarrow> bs ! (pos - 1) = 10"
  shows "lines_in rest pos o' e = (case range_start bs o' of (r, p) \<Rightarrow> lines_in r p 0 e)"
  using assms
proof (induction rest pos o' e rule: lines_in.induct)
  case (1 rest pos o' e)
  let ?l = "fst (read_line rest)" and ?r = "snd (read_line rest)"
  have ne: "rest \<noteq> []" using 1(2-4) by simp
  consider "e \<le> pos" | "pos < e" "pos = o'" | "pos < e" "pos < o'" "pos + length ?l \<le> o'"
    | "pos < e" "pos < o'" "o' < pos + length ?l"
    using 1(3) by linarith
  then show ?case
  proof cases
    case 1
    obtain r q where rq: "range_start bs o' = (r, q)" "o' \<le> q"
      by (cases "o' > 0 \<and> bs ! (o' - 1) \<noteq> 10") (auto simp: range_start_def)
    with 1 "1.prems"(2) have "e \<le> q" by simp
    with 1 show ?thesis by (simp add: rq lines_in_past)
  next
    case 2
    then have "range_start bs o' = (rest, o')" using "1.prems"(1,4) by (auto simp: range_start_def)
    with 2 lines_in_low [of o' o' rest e] show ?thesis by simp
  next
    case 3
    then have "pos + length ?l < length bs" using "1.prems"(3) by simp
    note lb = line_boundary [OF "1.prems"(1) ne this]
    have "lines_in rest pos o' e = lines_in ?r (pos + length ?l) o' e"
      by (rule lines_in_step) (use ne 3 in auto)
    also have "\<dots> = (case range_start bs o' of (r, p) \<Rightarrow> lines_in r p 0 e)"
      using 1(1) [OF _ lb(1) 3(3) "1.prems"(3)] lb(2) ne 3 by auto
    finally show ?thesis .
  next
    case 4
    have "lines_in rest pos o' e = lines_in ?r (pos + length ?l) o' e"
      by (rule lines_in_step) (use ne 4 in auto)
    then show ?thesis
      using range_start_inside [OF "1.prems"(1) 4(2) "1.prems"(3) 4(3)]
        lines_in_low [of o' "pos + length ?l" ?r e] 4(3) by simp
  qed
qed

lemma lines_in_split: "o1 \<le> o2 \<Longrightarrow> o2 \<le> e \<Longrightarrow> lines_in rest pos o1 o2 @ lines_in rest pos o2 e = lines_in rest pos o1 e"
proof (induction rest pos o1 e rule: lines_in.induct)
  case (1 rest pos o1 e)
  show ?case
  proof (cases "rest = [] \<or> pos \<ge> o2")
    case True
    then have "lines_in rest pos o1 o2 = []" by (subst lines_in.simps) simp
    moreover have "lines_in rest pos o2 e = lines_in rest pos o1 e"
      using True 1(2) lines_in_low [of o1 pos rest e] lines_in_low [of o2 pos rest e]
      by (cases "rest = []") (auto simp: lines_in.simps [of "[]"])
    ultimately show ?thesis by simp
  next
    case False
    let ?l = "fst (read_line rest)" and ?r = "snd (read_line rest)"
    have "lines_in rest pos a b = (if a \<le> pos then [?l] else []) @ lines_in ?r (pos + length ?l) a b"
      if "pos < b" for a b
      using that False by (subst lines_in.simps) simp
    moreover have "lines_in ?r (pos + length ?l) o1 o2 @ lines_in ?r (pos + length ?l) o2 e
        = lines_in ?r (pos + length ?l) o1 e"
      by (rule 1(1)) (use False 1(2,3) in auto)
    ultimately show ?thesis using False 1(3) by simp
  qed
qed

text \<open>All lines of a file.\<close>

definition file_lines :: "byte list \<Rightarrow> byte list list" where
  "file_lines bs = lines_in bs 0 0 (length bs)"

lemma range_emits:
  assumes "off < length bs" and "0 < len" and "\<forall>l \<in> set (file_lines bs). length l \<le> lim"
    and "off + len \<le> length bs"
  shows "emits (newTextFileIteratorFS lim (Inr bs) off len)
     (map trim_line (lines_in bs 0 off (off + len))) None"
proof -
  obtain r q where rq: "range_start bs off = (r, q)" by fastforce
  have lines: "lines_in bs 0 off (off + len) = lines_in r q 0 (off + len)"
    using lines_in_range_start [of bs 0 bs off "off + len"] assms(1) rq by simp
  have "set (lines_in bs 0 off (off + len)) \<subseteq> set (file_lines bs)"
    using lines_in_split [of 0 off "off + len" bs 0] lines_in_split [of 0 "off + len" "length bs" bs 0]
      assms(4) by (auto simp: file_lines_def) (metis Un_iff set_append)+
  then have lim: "\<forall>l \<in> set (lines_in r q 0 (off + len)). length l \<le> lim" using assms(3) lines by auto
  have it: "emits (text_iter lim (off + len) r q False) (map trim_line (lines_in r q 0 (off + len))) None"
    by (rule emits_text_iter [OF lim]) simp
  let ?d = "drop off bs"
  show ?thesis
  proof (cases "off > 0 \<and> bs ! (off - 1) \<noteq> 10")
    case False
    then have "newTextFileIteratorFS lim (Inr bs) off len = text_iter lim (off + len) r q False"
      using rq assms(1,2) by (auto simp: newTextFileIteratorFS_def range_start_def)
    with it lines show ?thesis by simp
  next
    case skip: True
    then have r: "r = snd (read_line ?d)" "q = off + length (fst (read_line ?d))"
      using rq by (auto simp: range_start_def)
    show ?thesis
    proof (cases "fst (read_line ?d) = [] \<or> last (fst (read_line ?d)) \<noteq> 10")
      case True
      then have "r = []" using r read_line_last [of ?d] assms(1) by (auto simp: read_line_eq_Nil)
      then have "lines_in r q 0 (off + len) = []" by (subst lines_in.simps) simp
      with True skip lines assms(1,2) show ?thesis
        by (auto simp: newTextFileIteratorFS_def Let_def EmptyIterator_def)
    next
      case False
      then have "newTextFileIteratorFS lim (Inr bs) off len = text_iter lim (off + len) r q False"
        using skip r assms(1,2) by (auto simp: newTextFileIteratorFS_def Let_def)
      with it lines show ?thesis by simp
    qed
  qed
qed

lemma lines_in_chunks:
  "(\<And>i. i < n \<Longrightarrow> b i \<le> b (Suc i)) \<Longrightarrow>
     concat (map (\<lambda>i. lines_in bs 0 (b i) (b (Suc i))) [0..<n]) = lines_in bs 0 (b 0) (b n)"
proof (induction n)
  case 0
  have "lines_in rest pos (b 0) (b 0) = []" for rest pos
  proof (induction rest pos "b 0" "b 0" rule: lines_in.induct)
    case (1 rest pos)
    then show ?case by (subst lines_in.simps) auto
  qed
  then show ?case by simp
next
  case (Suc n)
  have "b 0 \<le> b n"
  proof -
    have "k \<le> n \<Longrightarrow> b 0 \<le> b k" for k
      by (induction k) (use Suc.prems in \<open>auto intro: order_trans\<close>)
    then show ?thesis by simp
  qed
  with Suc show ?case by (simp add: lines_in_split)
qed

lemma concat_lines_in: "pos + length rest \<le> e \<Longrightarrow> concat (lines_in rest pos 0 e) = rest"
proof (induction rest pos "0 :: nat" e rule: lines_in.induct)
  case (1 rest pos e)
  show ?case
  proof (cases "rest = []")
    case False
    have len: "length rest = length (fst (read_line rest)) + length (snd (read_line rest))"
      using arg_cong [OF read_line_append, of length rest] by simp
    have "pos < e" using False 1(2) by (cases rest) auto
    with False 1 len show ?thesis by (subst lines_in.simps) (auto simp: read_line_append)
  qed (simp add: lines_in.simps)
qed

lemma concat_file_lines: "concat (file_lines bs) = bs"
  by (simp add: file_lines_def concat_lines_in)

section \<open>The partitions of a file deliver every line once\<close>

lemma text_compute_single:
  assumes "fs path' = Inr bs" and "off < length bs" and "0 < len" and "off + len \<le> length bs"
    and "\<forall>l \<in> set (file_lines bs). length l \<le> lim"
  shows "emits (text_compute lim fs (text_partition i [\<lparr>ts_path = path', ts_offset = off, ts_length = len\<rparr>]))
     (map trim_line (lines_in bs 0 off (off + len))) None"
  using emits_ChainIterators [of "[newTextFileIteratorFS lim (Inr bs) off len]"
      "[map trim_line (lines_in bs 0 off (off + len))]"] range_emits [OF assms(2,3,5,4)] assms(1)
  by (simp add: text_compute_def text_partition_def)

lemma splitTextFile_emits:
  assumes fs: "fs path' = Inr bs" and lim: "\<forall>l \<in> set (file_lines bs). length l \<le> lim"
  shows "\<exists>outs. list_all2 (\<lambda>p out. emits (text_compute lim fs p) out None)
      (splitTextFile path' (length bs) numPartitions) outs
    \<and> concat outs = map trim_line (file_lines bs)"
proof (cases "bs = []")
  case True
  have "text_compute lim fs (text_partition 0 [\<lparr>ts_path = path', ts_offset = 0, ts_length = 0\<rparr>]) = Stop"
    by (simp add: text_compute_def text_partition_def newTextFileIteratorFS_def EmptyIterator_def
        ChainIterators_Stop ChainIterators_Nil)
  with True show ?thesis
    by (intro exI [of _ "[[]]"]) (simp add: splitTextFile_def file_lines_def lines_in.simps)
next
  case False
  define n1 where "n1 = nat (if numPartitions \<le> 0 then 1 else numPartitions)"
  define n where "n = (if length bs div n1 = 0 then 1 else n1)"
  define c where "c = (if length bs div n1 = 0 then length bs else length bs div n1)"
  define b where "b i = (if i < n then i * c else length bs)" for i
  have n: "0 < n" "0 < c" "n * c \<le> length bs"
    using False by (auto simp: n_def c_def n1_def)
  have b: "b i < length bs" "b i < b (Suc i)" "b (Suc i) \<le> length bs" if "i < n" for i
  proof -
    have "Suc i * c \<le> n * c" using that by (intro mult_le_mono1) simp
    then show "b i < length bs" "b i < b (Suc i)" "b (Suc i) \<le> length bs"
      using that n by (auto simp: b_def)
  qed
  let ?out = "\<lambda>i. map trim_line (lines_in bs 0 (b i) (b (Suc i)))"
  have parts: "splitTextFile path' (length bs) numPartitions = map (\<lambda>i. text_partition i
      [\<lparr>ts_path = path', ts_offset = b i, ts_length = b (Suc i) - b i\<rparr>]) [0..<n]"
  proof -
    have "splitTextFile path' (length bs) numPartitions = map (\<lambda>i. text_partition i
        [\<lparr>ts_path = path', ts_offset = i * c, ts_length = (if i = n - 1 then length bs - i * c else c)\<rparr>]) [0..<n]"
      using False by (simp add: splitTextFile_def Let_def n_def c_def n1_def)
    also have "\<dots> = map (\<lambda>i. text_partition i
      [\<lparr>ts_path = path', ts_offset = b i, ts_length = b (Suc i) - b i\<rparr>]) [0..<n]"
      by (rule map_cong [OF refl]) (auto simp: b_def)
    finally show ?thesis .
  qed
  have "emits (text_compute lim fs (text_partition i
      [\<lparr>ts_path = path', ts_offset = b i, ts_length = b (Suc i) - b i\<rparr>])) (?out i) None" if "i < n" for i
    using text_compute_single [where off = "b i" and len = "b (Suc i) - b i" and i = i and fs = fs
        and path' = path', OF fs _ _ _ lim] b [OF that] by simp
  then have "list_all2 (\<lambda>p out. emits (text_compute lim fs p) out None)
      (splitTextFile path' (length bs) numPartitions) (map ?out [0..<n])"
    unfolding parts by (simp add: list_all2_conv_all_nth)
  moreover have "concat (map ?out [0..<n]) = map trim_line (concat (map (\<lambda>i. lines_in bs 0 (b i) (b (Suc i))) [0..<n]))"
    by (simp add: map_concat comp_def)
  moreover have "concat (map (\<lambda>i. lines_in bs 0 (b i) (b (Suc i))) [0..<n]) = file_lines bs"
    using lines_in_chunks [of n b bs] b n by (simp add: b_def file_lines_def less_imp_le)
  ultimately show ?thesis by (intro exI [of _ "map ?out [0..<n]"]) simp
qed

section \<open>Grouping many files\<close>

lemma least_used_bound: "slot < n \<Longrightarrow> \<forall>i \<in> set is. i < n \<Longrightarrow> least_used used is slot < n"
  by (induction used "is" slot rule: least_used.induct) auto

lemma mset_concat_update:
  "i < length xss \<Longrightarrow> mset (concat (xss[i := xss ! i @ [x]])) = add_mset x (mset (concat xss))"
proof (induction xss arbitrary: i)
  case (Cons xs xss)
  then show ?case by (cases i) auto
qed simp

lemma mset_assign_files:
  "0 < length groups \<Longrightarrow> mset (concat (assign_files fs groups used)) = mset fs + mset (concat groups)"
proof (induction fs groups used rule: assign_files.induct)
  case (2 f fs groups used)
  have "least_used used [1..<length groups] 0 < length groups"
    by (rule least_used_bound) (use 2(2) in auto)
  with 2 show ?case by (simp add: Let_def mset_concat_update)
qed simp

lemma concat_filter_nonempty: "concat (filter (\<lambda>g. g \<noteq> []) xss) = concat xss"
  by (induction xss) auto

lemma textInputPartitions_files:
  assumes "1 < length fs"
  shows "mset (concat (map tp_files (textInputPartitions (Inr (True, sz)) (Inr fs) path' n))) = mset fs"
proof -
  have gs: "mset (concat (filter (\<lambda>g. g \<noteq> []) (assign_files fs (replicate k []) (replicate k 0)))) = mset fs"
    if "0 < k" for k
    using that by (simp only: concat_filter_nonempty mset_assign_files length_replicate) simp
  have "map tp_files (map (\<lambda>(i, g). text_partition i g) (enumerate 0 gs)) = gs" for gs
    by (rule nth_equalityI) (simp_all add: nth_enumerate_eq text_partition_def)
  with assms gs show ?thesis by (auto simp: textInputPartitions_def Let_def)
qed

section \<open>The executors see the planned partitions\<close>

lemma capture_partition_fields:
  "s \<in> set (capture_partition tp) \<Longrightarrow>
     is_Source s = tp_source tp \<and> is_Call s = tp_seq tp \<and> is_Partition s = tp_index tp"
  by (auto simp: capture_partition_def split: if_splits)

lemma capture_partition_nonempty: "capture_partition tp \<noteq> []"
  by (simp add: capture_partition_def)

lemma filter_concat_capture:
  assumes "\<And>tp s. tp \<in> set parts \<Longrightarrow> s \<in> set (capture_partition tp) \<Longrightarrow> P s = Q tp"
  shows "filter P (concat (map capture_partition parts)) = concat (map capture_partition (filter Q parts))"
  using assms
proof (induction parts)
  case (Cons tp parts)
  have "filter P (capture_partition tp) = (if Q tp then capture_partition tp else [])"
    using Cons.prems [of tp] by (auto simp: filter_id_conv filter_empty_conv)
  with Cons show ?case by simp
qed simp

lemma capture_partition_files:
  assumes "\<forall>s \<in> set (tp_files tp). ts_path s \<noteq> ''''"
  shows "map (\<lambda>s. \<lparr>ts_path = is_Path s, ts_offset = is_Offset s, ts_length = is_Length s\<rparr>)
     (filter (\<lambda>s. is_Path s \<noteq> '''') (capture_partition tp)) = tp_files tp"
proof -
  have "\<forall>s \<in> set fs. ts_path s \<noteq> '''' \<Longrightarrow>
      map (\<lambda>s. \<lparr>ts_path = is_Path s, ts_offset = is_Offset s, ts_length = is_Length s\<rparr>)
        (filter (\<lambda>s. is_Path s \<noteq> '''')
          (map (\<lambda>s. \<lparr>is_Source = a, is_Call = b, is_Path = ts_path s, is_Offset = ts_offset s,
             is_Length = ts_length s, is_Partition = c\<rparr>) fs)) = fs" for fs :: "textSpan list" and a b c
    by (induction fs) auto
  with assms show ?thesis by (simp add: capture_partition_def)
qed

lemma planned_partitions_roundtrip:
  fixes parts :: "textFilePartition list" and src :: string and call :: nat
  defines "mine \<equiv> filter (\<lambda>tp. (tp_source tp, tp_seq tp) = (src, call)) parts"
  assumes "mine \<noteq> []" and idx: "sorted_wrt (<) (map tp_index mine)"
    and paths: "\<forall>tp \<in> set mine. \<forall>s \<in> set (tp_files tp). ts_path s \<noteq> ''''"
  shows "plannedTextPartitions (installInputSplits (concat (map capture_partition parts))) src call = Some mine"
proof -
  let ?splits = "concat (map capture_partition mine)"
  have "filter (\<lambda>s. (is_Source s, is_Call s) = (src, call)) (concat (map capture_partition parts)) = ?splits"
    unfolding mine_def by (rule filter_concat_capture) (simp add: capture_partition_fields)
  moreover have "?splits \<noteq> []" using assms(2) by (auto simp: capture_partition_nonempty neq_Nil_conv)
  ultimately have inst: "installInputSplits (concat (map capture_partition parts)) (src, call) = Some ?splits"
    by (simp add: installInputSplits_def)
  have "set (map is_Partition ?splits) = set (map tp_index mine)"
  proof -
    have "is_Partition ` set (capture_partition tp) = {tp_index tp}" for tp
      using capture_partition_fields [of _ tp] capture_partition_nonempty [of tp]
      by (force simp: image_iff neq_Nil_conv)
    then show ?thesis by (auto simp: image_UN)
  qed
  then have ids: "sort (remdups (map is_Partition ?splits)) = map tp_index mine"
    using idx by (intro sorted_distinct_set_unique) (auto simp: strict_sorted_iff)
  have files: "map (\<lambda>s. \<lparr>ts_path = is_Path s, ts_offset = is_Offset s, ts_length = is_Length s\<rparr>)
      (filter (\<lambda>s. is_Partition s = tp_index tp \<and> is_Path s \<noteq> '''') ?splits) = tp_files tp"
    if tp: "tp \<in> set mine" for tp
  proof -
    have inj: "inj_on tp_index (set mine)" and dist: "distinct mine"
      using idx by (auto simp: strict_sorted_iff distinct_map)
    have "filter (\<lambda>s. is_Partition s = tp_index tp) ?splits
        = concat (map capture_partition (filter (\<lambda>t. t = tp) mine))"
    proof (rule filter_concat_capture)
      fix t s assume t: "t \<in> set mine" "s \<in> set (capture_partition t)"
      then have "is_Partition s = tp_index t" using capture_partition_fields by blast
      then show "(is_Partition s = tp_index tp) = (t = tp)" using inj t(1) tp by (auto dest: inj_onD)
    qed
    also have "filter (\<lambda>t. t = tp) mine = [tp]"
      using tp dist by (induction mine) (auto simp: filter_empty_conv)
    finally have "filter (\<lambda>s. is_Partition s = tp_index tp) ?splits = capture_partition tp" by simp
    moreover have "filter (\<lambda>s. is_Partition s = tp_index tp \<and> is_Path s \<noteq> '''') ?splits
        = filter (\<lambda>s. is_Path s \<noteq> '''') (filter (\<lambda>s. is_Partition s = tp_index tp) ?splits)"
      by (simp add: conj_commute)
    ultimately show ?thesis using capture_partition_files paths tp by simp
  qed
  have "map (\<lambda>tp. \<lparr>tp_index = tp_index tp, tp_source = src, tp_seq = call, tp_files = tp_files tp\<rparr>) mine = mine"
    by (rule map_idI) (auto simp: mine_def)
  moreover have "map (\<lambda>i. \<lparr>tp_index = i, tp_source = src, tp_seq = call,
      tp_files = map (\<lambda>s. \<lparr>ts_path = is_Path s, ts_offset = is_Offset s, ts_length = is_Length s\<rparr>)
        (filter (\<lambda>s. is_Partition s = i \<and> is_Path s \<noteq> '''') ?splits)\<rparr>) (map tp_index mine)
    = map (\<lambda>tp. \<lparr>tp_index = tp_index tp, tp_source = src, tp_seq = call, tp_files = tp_files tp\<rparr>) mine"
    unfolding map_map comp_def by (rule map_cong [OF refl]) (simp add: files)
  ultimately show ?thesis by (simp only: plannedTextPartitions_def inst ids option.case)
qed

section \<open>Properties\<close>

text \<open>
  C12: the partitions of a text file, read one after the other, deliver every line of the file
  exactly once and in order, whatever the number of partitions and wherever the boundaries fall;
  the lines are the pieces of the file up to each newline.
\<close>

theorem text_lines_exactly_once:
  assumes "fs path' = Inr bs" and "\<forall>l \<in> set (file_lines bs). length l \<le> lim"
  shows "concat (file_lines bs) = bs \<and>
    (\<exists>outs. list_all2 (\<lambda>p out. emits (text_compute lim fs p) out None)
        (splitTextFile path' (length bs) numPartitions) outs
      \<and> concat outs = map trim_line (file_lines bs))"
  using splitTextFile_emits [of fs path' bs lim numPartitions, OF assms] concat_file_lines by blast

theorem text_lines_exactly_once_witness:
  "\<exists>outs. list_all2 (\<lambda>p out. emits (text_compute 9 (\<lambda>_. Inr [97, 10, 98, 98, 13, 10, 99]) p) out None)
       (splitTextFile ''f'' (length [97, 10, 98, 98, 13, 10, 99 :: byte]) 3) outs \<and> concat outs = [[97], [98, 98], [99]]"
proof -
  have lines: "file_lines [97, 10, 98, 98, 13, 10, 99] = [[97, 10], [98, 98, 13, 10], [99]]"
    by (simp add: file_lines_def lines_in.simps)
  have "\<forall>l \<in> set (file_lines [97, 10, 98, 98, 13, 10, 99]). length l \<le> 9" by (simp add: lines)
  from text_lines_exactly_once [of "\<lambda>_. Inr [97, 10, 98, 98, 13, 10, 99]" "''f''", OF refl this, of 3]
  show ?thesis by (simp only: lines) (simp add: trim_line_def trim_suffix_def)
qed

text \<open>
  An executor that installs the captured input splits reconstructs exactly the text partitions
  the driver planned for a source, also the empty ones, when their indices ascend and their files
  have names.
\<close>

lemma input_splits_roundtrip:
  assumes "filter (\<lambda>tp. (tp_source tp, tp_seq tp) = (src, call)) parts = mine" and "mine \<noteq> []"
    and "sorted_wrt (<) (map tp_index mine)"
    and "\<forall>tp \<in> set mine. \<forall>s \<in> set (tp_files tp). ts_path s \<noteq> ''''"
  shows "plannedTextPartitions (installInputSplits (concat (map capture_partition parts))) src call = Some mine"
  using planned_partitions_roundtrip [of src call parts] assms(2-4) unfolding assms(1) by blast

text \<open>
  A parallel collection loses nothing: the non-empty slices that become its partitions,
  computed in order, are the data, for every requested number of slices, also zero or a negative
  one.
\<close>

lemma parallel_collection_complete:
  "\<exists>outs. list_all2 (\<lambda>i out. emits (parallel_compute data n i) out None) (parallel_partitions data n) outs
     \<and> concat outs = data"
  using parallel_compute_emits [of data n] parallel_partitions_cover [of data n]
  by (intro exI [of _ "map (\<lambda>i. if i < length (sliceData data n) then sliceData data n ! i else [])
       (parallel_partitions data n)"]) (simp add: list_all2_conv_all_nth)

end
