(* ===== verification/Lineage.thy ===== *)
theory Lineage
  imports Shuffle
begin

text \<open>
  The lineage graph (\<^verbatim>\<open>dependency.go\<close>) and the planner (\<^verbatim>\<open>planner.go\<close>) with the graph walks
  of \<^verbatim>\<open>executor.go\<close>: looking up a shuffle, which reducer buckets a task needs, which cached
  partitions it can use, and the cut of the lineage into shuffle-map stages and a result stage.
  Nodes are compared by their ID exactly as the code does, with the same stacks and the same
  \<open>seen\<close> tables; \<open>wf_lineage\<close> states what a context guarantees, that an ID names one node.
\<close>

section \<open>The lineage graph\<close>

datatype StorageLevel = StorageNone | StorageMemory | StorageDisk | StorageMemoryAndDisk

text \<open>
  Every loop over \<^verbatim>\<open>Dependencies()\<close> skips a nil dependency and one with a nil parent; both are
  \<open>None\<close> in the list. A partition is its index.
\<close>

datatype RDD =
    RDD (rdd_ID: nat) (rdd_Name: string) (rdd_Partitions: "int list")
      (cachedStorage: StorageLevel) (Dependencies: "Dependency option list")
and Dependency =
    OneToOneDependency (Parent: RDD)
  | RangeDependency (Parent: RDD) (parentStart: int) (childStart: int) (range_length: int)
  | NarrowDep (Parent: RDD) (getParentsFn: "int \<Rightarrow> int list")
  | ShuffleDependency (Parent: RDD) (dep_partitioner: "Partitioner option") (dep_shuffleID: nat)
      (sortLess: "(gokey \<Rightarrow> gokey \<Rightarrow> bool) option")

datatype DepType = DepNarrow | DepShuffle

fun dep_type :: "Dependency \<Rightarrow> DepType" where
  "dep_type (ShuffleDependency _ _ _ _) = DepShuffle"
| "dep_type _ = DepNarrow"

fun GetParents :: "Dependency \<Rightarrow> int \<Rightarrow> int list" where
  "GetParents (OneToOneDependency _) pid = [pid]"
| "GetParents (RangeDependency _ ps cs len) pid =
     (let offset = pid - cs in if 0 \<le> offset \<and> offset < len then [ps + offset] else [])"
| "GetParents (NarrowDep _ f) pid = f pid"
| "GetParents (ShuffleDependency _ _ _ _) pid = []"

definition live_deps :: "RDD \<Rightarrow> Dependency list" where
  "live_deps r = concat (map (\<lambda>d. case d of None \<Rightarrow> [] | Some d \<Rightarrow> [d]) (Dependencies r))"

text \<open>The number of edges of the unfolded graph below a node bounds every walk.\<close>

primrec node_size :: "RDD \<Rightarrow> nat" and edge_size :: "Dependency \<Rightarrow> nat" where
  "node_size (RDD i n ps lvl ds) = Suc (sum_list (map (case_option 0 id) (map (map_option edge_size) ds)))"
| "edge_size (OneToOneDependency p) = Suc (node_size p)"
| "edge_size (RangeDependency p a b c) = Suc (node_size p)"
| "edge_size (NarrowDep p f) = Suc (node_size p)"
| "edge_size (ShuffleDependency p a b c) = Suc (node_size p)"

lemma edge_size_Parent: "edge_size d = Suc (node_size (Parent d))"
  by (cases d) auto

lemma edge_size_pos: "0 < edge_size d"
  by (simp add: edge_size_Parent)

lemma sum_edge_size_pos: "ds \<noteq> [] \<Longrightarrow> 0 < sum_list (map edge_size ds)"
  using edge_size_pos by (cases ds) auto

lemma node_size_live: "node_size r = Suc (sum_list (map edge_size (live_deps r)))"
proof -
  have "sum_list (map (case_option 0 id) (map (map_option edge_size) ds))
      = sum_list (map edge_size (concat (map (\<lambda>d. case d of None \<Rightarrow> [] | Some d \<Rightarrow> [d]) ds)))" for ds
    by (induction ds) (auto split: option.splits)
  then show ?thesis by (cases r) (simp add: live_deps_def)
qed

lemma live_dep_size: "d \<in> set (live_deps r) \<Longrightarrow> node_size (Parent d) < node_size r"
  using member_le_sum_list [of "edge_size d" "map edge_size (live_deps r)"]
  by (auto simp: node_size_live [of r] edge_size_Parent)


section \<open>Walks of the executor\<close>

definition is_shuffle :: "Dependency \<Rightarrow> bool" where
  "is_shuffle d \<longleftrightarrow> dep_type d = DepShuffle"

text \<open>
  \<^verbatim>\<open>findShuffleDep\<close>: the stack has its top first. One pass over the dependencies of a node either
  finds the shuffle or pushes every parent.
\<close>

fun scan_deps :: "nat \<Rightarrow> Dependency list \<Rightarrow> RDD list \<Rightarrow> Dependency + RDD list" where
  "scan_deps sid [] stack = Inr stack"
| "scan_deps sid (d # ds) stack =
     (if is_shuffle d \<and> dep_shuffleID d = sid then Inl d else scan_deps sid ds (Parent d # stack))"

lemma scan_deps_Inr:
  "scan_deps sid ds stack = Inr st \<longleftrightarrow>
     st = rev (map Parent ds) @ stack \<and> (\<forall>d \<in> set ds. \<not> (is_shuffle d \<and> dep_shuffleID d = sid))"
  by (induction ds arbitrary: stack) auto

lemma scan_deps_Inl:
  "scan_deps sid ds stack = Inl d \<Longrightarrow> d \<in> set ds \<and> is_shuffle d \<and> dep_shuffleID d = sid"
  by (induction ds arbitrary: stack) (auto split: if_splits)

lemma sum_Parent_le: "sum_list (map (node_size \<circ> Parent) ds) \<le> sum_list (map edge_size ds)"
  by (induction ds) (auto simp: edge_size_Parent)

function find_loop :: "nat \<Rightarrow> nat list \<Rightarrow> RDD list \<Rightarrow> Dependency option" where
  "find_loop sid seen [] = None"
| "find_loop sid seen (cur # stack) =
     (if rdd_ID cur \<in> set seen then find_loop sid seen stack
      else case scan_deps sid (live_deps cur) stack of
        Inl d \<Rightarrow> Some d
      | Inr stack' \<Rightarrow> find_loop sid (rdd_ID cur # seen) stack')"
  by pat_completeness auto
termination
proof (relation "measure (\<lambda>(_, _, stack). sum_list (map node_size stack))", goal_cases)
  case (2 sid seen cur stack)
  then show ?case by (simp add: node_size_live)
next
  case (3 sid seen cur stack x2)
  then have "x2 = rev (map Parent (live_deps cur)) @ stack" by (simp add: scan_deps_Inr)
  then show ?case
    using sum_Parent_le [of "live_deps cur"] by (simp add: node_size_live [of cur] rev_map [symmetric] sum_list_rev)
qed simp

definition findShuffleDep :: "RDD \<Rightarrow> nat \<Rightarrow> Dependency option" where
  "findShuffleDep rdd shuffleID = find_loop shuffleID [] [rdd]"

fun partitionByIndex :: "int list \<Rightarrow> int \<Rightarrow> int option" where
  "partitionByIndex [] index = None"
| "partitionByIndex (p # ps) index = (if p = index then Some p else partitionByIndex ps index)"

text \<open>
  The recursive walk over the partitions reached through narrow dependencies that
  \<^verbatim>\<open>requiredShuffleBuckets\<close> and \<^verbatim>\<open>cacheHints\<close> share: \<open>nodef\<close> is what the caller does at a node before
  its dependencies, \<open>shuf\<close> what it does at a shuffle boundary.
\<close>

function walk_node :: "(RDD \<Rightarrow> int \<Rightarrow> 'a \<Rightarrow> 'a) \<Rightarrow> (Dependency \<Rightarrow> int \<Rightarrow> 'a \<Rightarrow> 'a)
     \<Rightarrow> (nat \<times> int) list \<Rightarrow> 'a \<Rightarrow> RDD \<Rightarrow> int \<Rightarrow> (nat \<times> int) list \<times> 'a"
and walk_deps :: "(RDD \<Rightarrow> int \<Rightarrow> 'a \<Rightarrow> 'a) \<Rightarrow> (Dependency \<Rightarrow> int \<Rightarrow> 'a \<Rightarrow> 'a)
     \<Rightarrow> (nat \<times> int) list \<Rightarrow> 'a \<Rightarrow> Dependency list \<Rightarrow> int \<Rightarrow> (nat \<times> int) list \<times> 'a"
and walk_pids :: "(RDD \<Rightarrow> int \<Rightarrow> 'a \<Rightarrow> 'a) \<Rightarrow> (Dependency \<Rightarrow> int \<Rightarrow> 'a \<Rightarrow> 'a)
     \<Rightarrow> (nat \<times> int) list \<Rightarrow> 'a \<Rightarrow> RDD \<Rightarrow> int list \<Rightarrow> (nat \<times> int) list \<times> 'a" where
  "walk_node nodef shuf seen acc r pid =
     (if (rdd_ID r, pid) \<in> set seen then (seen, acc)
      else walk_deps nodef shuf ((rdd_ID r, pid) # seen) (nodef r pid acc) (live_deps r) pid)"
| "walk_deps nodef shuf seen acc [] pid = (seen, acc)"
| "walk_deps nodef shuf seen acc (d # ds) pid =
     (if is_shuffle d then walk_deps nodef shuf seen (shuf d pid acc) ds pid
      else
        let st = walk_pids nodef shuf seen acc (Parent d) (GetParents d pid)
        in walk_deps nodef shuf (fst st) (snd st) ds pid)"
| "walk_pids nodef shuf seen acc p [] = (seen, acc)"
| "walk_pids nodef shuf seen acc p (q # qs) =
     (let st = walk_node nodef shuf seen acc p q
      in walk_pids nodef shuf (fst st) (snd st) p qs)"
  by pat_completeness auto
termination
  by (relation "measures [
       \<lambda>x. case x of Inl (_, _, _, _, r, _) \<Rightarrow> node_size r
         | Inr (Inl (_, _, _, _, ds, _)) \<Rightarrow> sum_list (map edge_size ds)
         | Inr (Inr (_, _, _, _, p, _)) \<Rightarrow> node_size p,
       \<lambda>x. case x of Inr (Inr (_, _, _, _, _, qs)) \<Rightarrow> length qs | _ \<Rightarrow> 0]")
     (auto simp: node_size_live edge_size_Parent)

definition want_buckets :: "Dependency \<Rightarrow> int \<Rightarrow> (nat \<rightharpoonup> int list) \<Rightarrow> (nat \<rightharpoonup> int list)" where
  "want_buckets d pid want =
     (case dep_partitioner d of
        None \<Rightarrow> want
      | Some p \<Rightarrow>
          (let n = NumPartitions p;
               sid = dep_shuffleID d;
               old = (case want sid of None \<Rightarrow> [] | Some rs \<Rightarrow> rs) in
           if n = 1 then want(sid \<mapsto> List.insert 0 old)
           else if 0 \<le> pid \<and> pid < n then want(sid \<mapsto> List.insert pid old)
           else want(sid \<mapsto> fold List.insert [0..n - 1] old)))"

definition requiredShuffleBuckets :: "RDD \<Rightarrow> int \<Rightarrow> (nat \<rightharpoonup> int list)" where
  "requiredShuffleBuckets root part =
     snd (walk_node (\<lambda>_ _ want. want) want_buckets [] Map.empty root part)"


section \<open>Cached partitions\<close>

record CachePartition =
  cp_RDDID :: nat
  cp_PartitionID :: int

text \<open>\<^verbatim>\<open>cacheAcrossTasks\<close>: false as soon as a shuffle is met; a node already seen counts as true.\<close>

function across_node :: "nat list \<Rightarrow> RDD \<Rightarrow> bool \<times> nat list"
and across_deps :: "nat list \<Rightarrow> Dependency list \<Rightarrow> bool \<times> nat list" where
  "across_node seen r =
     (if rdd_ID r \<in> set seen then (True, seen) else across_deps (rdd_ID r # seen) (live_deps r))"
| "across_deps seen [] = (True, seen)"
| "across_deps seen (d # ds) =
     (if is_shuffle d then (False, seen)
      else
        let st = across_node seen (Parent d)
        in if fst st then across_deps (snd st) ds else (False, snd st))"
  by pat_completeness auto
termination
  by (relation "measure (\<lambda>x. case x of Inl (_, r) \<Rightarrow> node_size r
        | Inr (_, ds) \<Rightarrow> sum_list (map edge_size ds))")
     (auto simp: node_size_live edge_size_Parent)

definition cacheAcrossTasks :: "RDD \<Rightarrow> bool" where
  "cacheAcrossTasks root = fst (across_node [] root)"

definition shareable :: "RDD \<Rightarrow> bool" where
  "shareable r \<longleftrightarrow>
     cachedStorage r \<in> {StorageMemory, StorageMemoryAndDisk} \<and> cacheAcrossTasks r"

function contains_node :: "nat list \<Rightarrow> RDD \<Rightarrow> bool \<times> nat list"
and contains_deps :: "nat list \<Rightarrow> Dependency list \<Rightarrow> bool \<times> nat list" where
  "contains_node seen r =
     (if rdd_ID r \<in> set seen then (False, seen)
      else if shareable r then (True, rdd_ID r # seen)
      else contains_deps (rdd_ID r # seen) (live_deps r))"
| "contains_deps seen [] = (False, seen)"
| "contains_deps seen (d # ds) =
     (if is_shuffle d then contains_deps seen ds
      else
        let st = contains_node seen (Parent d)
        in if fst st then (True, snd st) else contains_deps (snd st) ds)"
  by pat_completeness auto
termination
  by (relation "measure (\<lambda>x. case x of Inl (_, r) \<Rightarrow> node_size r
        | Inr (_, ds) \<Rightarrow> sum_list (map edge_size ds))")
     (auto simp: node_size_live edge_size_Parent)

definition containsShareableCache :: "RDD \<Rightarrow> bool" where
  "containsShareableCache root = fst (contains_node [] root)"

definition note_hint :: "RDD \<Rightarrow> int \<Rightarrow> CachePartition list \<Rightarrow> CachePartition list" where
  "note_hint r pid hints =
     (if shareable r then hints @ [\<lparr>cp_RDDID = rdd_ID r, cp_PartitionID = pid\<rparr>] else hints)"

definition hint_less :: "CachePartition \<Rightarrow> CachePartition \<Rightarrow> bool" where
  "hint_less a b =
     (if cp_RDDID a \<noteq> cp_RDDID b then cp_RDDID a < cp_RDDID b
      else cp_PartitionID a < cp_PartitionID b)"

text \<open>
  \<^verbatim>\<open>sort.Slice\<close> may permute equal elements; the hints are distinct, so the stable sort of the
  development gives the same list.
\<close>

definition cacheHints :: "RDD \<Rightarrow> int \<Rightarrow> CachePartition list" where
  "cacheHints root part =
     SliceStable hint_less (snd (walk_node note_hint (\<lambda>_ _ hints. hints) [] [] root part))"

section \<open>Planning stages\<close>

datatype StageKind = StageResult | StageShuffleMap | StageSample

record Stage =
  st_ID :: nat
  st_Kind :: StageKind
  st_RDDID :: nat
  st_RDDName :: string
  st_NumPartitions :: nat
  st_ShuffleID :: nat
  st_NumReducers :: int
  st_Parents :: "nat list"
  st_CacheHints :: "CachePartition list list"
  st_RangeSort :: bool

fun unique_loop :: "nat list \<Rightarrow> nat list \<Rightarrow> nat list \<Rightarrow> nat list" where
  "unique_loop seen out [] = out"
| "unique_loop seen out (i # ids) =
     (if i \<in> set seen then unique_loop seen out ids else unique_loop (i # seen) (out @ [i]) ids)"

definition uniqueInts :: "nat list \<Rightarrow> nat list" where
  "uniqueInts ids = unique_loop [] [] ids"

record planner =
  shuffleStages :: "nat \<rightharpoonup> nat"
  pl_stages :: "Stage list"
  nextID :: nat

definition push_narrow :: "Dependency list \<Rightarrow> RDD list \<Rightarrow> RDD list" where
  "push_narrow ds stack = fold (\<lambda>d st. if is_shuffle d then st else Parent d # st) ds stack"

definition map_stage :: "nat \<Rightarrow> Dependency \<Rightarrow> nat list \<Rightarrow> Stage" where
  "map_stage i d parentIDs =
     \<lparr>st_ID = i, st_Kind = StageShuffleMap, st_RDDID = rdd_ID (Parent d),
      st_RDDName = rdd_Name (Parent d), st_NumPartitions = length (rdd_Partitions (Parent d)),
      st_ShuffleID = dep_shuffleID d,
      st_NumReducers = (case dep_partitioner d of None \<Rightarrow> 0 | Some p \<Rightarrow> NumPartitions p),
      st_Parents = uniqueInts parentIDs, st_CacheHints = [], st_RangeSort = False\<rparr>"

lemma push_narrow_eq:
  "push_narrow ds stack = rev (map Parent (filter (\<lambda>d. \<not> is_shuffle d) ds)) @ stack"
  by (induction ds arbitrary: stack) (auto simp: push_narrow_def)

lemma push_narrow_size:
  "sum_list (map node_size (push_narrow ds stack))
     \<le> sum_list (map edge_size ds) + sum_list (map node_size stack)"
  by (induction ds arbitrary: stack) (auto simp: push_narrow_eq edge_size_Parent)

text \<open>
  \<^verbatim>\<open>parentStages\<close> and \<^verbatim>\<open>getShuffleMapStage\<close>. The loop over the dependencies of one node plans the
  stages of its shuffles in order; the parents of its narrow dependencies are pushed.
\<close>

function parent_loop :: "planner \<Rightarrow> bool \<Rightarrow> nat list \<Rightarrow> RDD list \<Rightarrow> nat list \<Rightarrow> nat list \<times> planner"
and dep_loop :: "planner \<Rightarrow> Dependency list \<Rightarrow> nat list \<Rightarrow> nat list \<times> planner"
and getShuffleMapStage :: "planner \<Rightarrow> Dependency \<Rightarrow> nat \<times> planner" where
  "parent_loop p started seen [] ids = (ids, p)"
| "parent_loop p started seen (cur # stack) ids =
     (if started \<and> rdd_ID cur \<in> set seen then parent_loop p started seen stack ids
      else
        let seen' = (if started then rdd_ID cur # seen else seen);
            st = dep_loop p (live_deps cur) ids
        in parent_loop (snd st) True seen' (push_narrow (live_deps cur) stack) (fst st))"
| "dep_loop p [] ids = (ids, p)"
| "dep_loop p (d # ds) ids =
     (if is_shuffle d then
        let st = getShuffleMapStage p d in dep_loop (snd st) ds (ids @ [fst st])
      else dep_loop p ds ids)"
| "getShuffleMapStage p d =
     (case shuffleStages p (dep_shuffleID d) of
        Some i \<Rightarrow> (i, p)
      | None \<Rightarrow>
          (let st = parent_loop p False [] [Parent d] [];
               p' = snd st;
               i = nextID p'
           in (i, p'\<lparr>nextID := i + 1, pl_stages := pl_stages p' @ [map_stage i d (fst st)],
                     shuffleStages := (shuffleStages p')(dep_shuffleID d \<mapsto> i)\<rparr>)))"
  by pat_completeness auto
termination
proof (relation "measures [
       \<lambda>x. case x of Inl (_, _, _, stack, _) \<Rightarrow> sum_list (map node_size stack)
         | Inr (Inl (_, ds, _)) \<Rightarrow> sum_list (map edge_size ds)
         | Inr (Inr (_, d)) \<Rightarrow> edge_size d,
       \<lambda>x. case x of Inr (Inl _) \<Rightarrow> 1 | _ \<Rightarrow> 0]", goal_cases)
  case (4 p started seen cur stack ids x xa)
  then show ?case
    using push_narrow_size [of "live_deps cur" stack] by (simp add: node_size_live [of cur])
qed (auto simp: node_size_live edge_size_Parent sum_edge_size_pos)

definition parentStages :: "planner \<Rightarrow> RDD \<Rightarrow> nat list \<times> planner" where
  "parentStages p rdd = parent_loop p False [] [rdd] []"


record JobSpec =
  js_TaskName :: string
  js_CacheIdentity :: string
  js_Action :: string
  js_Params :: "string \<rightharpoonup> string"
  js_Accumulators :: "(string \<times> string) list"
  js_NumPartitions :: int

record JobPlan =
  jp_Spec :: JobSpec
  jp_Stages :: "Stage list"
  jp_ResultStageID :: nat
  jp_sortLess :: "nat \<rightharpoonup> (gokey \<Rightarrow> gokey \<Rightarrow> bool)"

text \<open>
  The second loop of \<^verbatim>\<open>PlanRDD\<close>: a stage learns its cache hints and whether it is a range sort.
  The hints stay nil unless some partition has one.
\<close>

definition stage_hints :: "RDD \<Rightarrow> nat \<Rightarrow> CachePartition list list" where
  "stage_hints root n =
     (let needed = map (\<lambda>part. cacheHints root (int part)) [0..<n]
      in if \<forall>h \<in> set needed. h = [] then [] else needed)"

fun finish_stages ::
  "RDD \<Rightarrow> Stage list \<Rightarrow> (nat \<rightharpoonup> (gokey \<Rightarrow> gokey \<Rightarrow> bool))
     \<Rightarrow> (Stage list \<times> (nat \<rightharpoonup> (gokey \<Rightarrow> gokey \<Rightarrow> bool))) res" where
  "finish_stages rdd [] lts = Inr ([], lts)"
| "finish_stages rdd (stage # stages) lts =
     bindR
       (if st_Kind stage = StageShuffleMap then
          (case findShuffleDep rdd (st_ShuffleID stage) of
             None \<Rightarrow> Inl (Err ''shuffle %d not found'')
           | Some dep \<Rightarrow>
               (case (sortLess dep, dep_partitioner dep) of
                  (Some lt, Some p) \<Rightarrow>
                    if NumPartitions p > 1
                    then Inr (Parent dep, stage\<lparr>st_RangeSort := True\<rparr>, lts(st_ID stage \<mapsto> lt))
                    else Inr (Parent dep, stage, lts)
                | _ \<Rightarrow> Inr (Parent dep, stage, lts)))
        else Inr (rdd, stage, lts))
       (\<lambda>(root, stage', lts').
          let stage'' =
            (if containsShareableCache root
             then stage'\<lparr>st_CacheHints := stage_hints root (st_NumPartitions stage')\<rparr>
             else stage')
          in bindR (finish_stages rdd stages lts') (\<lambda>(rest, lts''). Inr (stage'' # rest, lts'')))"

definition PlanRDD :: "RDD option \<Rightarrow> JobSpec \<Rightarrow> JobPlan res" where
  "PlanRDD r spec =
     (case r of
        None \<Rightarrow> Inl (Err ''cannot plan nil RDD'')
      | Some rdd \<Rightarrow>
          (let st = parentStages \<lparr>shuffleStages = Map.empty, pl_stages = [], nextID = 0\<rparr> rdd;
               p = snd st;
               resultID = nextID p;
               result = \<lparr>st_ID = resultID, st_Kind = StageResult, st_RDDID = rdd_ID rdd,
                 st_RDDName = rdd_Name rdd, st_NumPartitions = length (rdd_Partitions rdd),
                 st_ShuffleID = 0, st_NumReducers = 0, st_Parents = uniqueInts (fst st),
                 st_CacheHints = [], st_RangeSort = False\<rparr>
           in bindR (finish_stages rdd (pl_stages p @ [result]) Map.empty) (\<lambda>(stages, lts).
                Inr \<lparr>jp_Spec = spec, jp_Stages = stages, jp_ResultStageID = resultID,
                     jp_sortLess = lts\<rparr>)))"

section \<open>What a lineage is\<close>

text \<open>The nodes of a lineage, and the identity of IDs that a context provides.\<close>

function all_nodes :: "RDD \<Rightarrow> RDD list" where
  "all_nodes r = r # concat (map (\<lambda>d. all_nodes (Parent d)) (live_deps r))"
  by auto
termination
  by (relation "measure node_size") (auto simp: live_dep_size)

declare all_nodes.simps [simp del]

definition all_deps :: "RDD \<Rightarrow> Dependency list" where
  "all_deps r = concat (map live_deps (all_nodes r))"

function direct_shuffles :: "RDD \<Rightarrow> Dependency list" where
  "direct_shuffles r =
     concat (map (\<lambda>d. if is_shuffle d then [d] else direct_shuffles (Parent d)) (live_deps r))"
  by auto
termination
  by (relation "measure node_size") (auto simp: live_dep_size)

declare direct_shuffles.simps [simp del]

definition wf_lineage :: "RDD \<Rightarrow> bool" where
  "wf_lineage r \<longleftrightarrow>
     (\<forall>a \<in> set (all_nodes r). \<forall>b \<in> set (all_nodes r). rdd_ID a = rdd_ID b \<longrightarrow> a = b) \<and>
     (\<forall>d \<in> set (all_deps r). \<forall>e \<in> set (all_deps r).
        is_shuffle d \<and> is_shuffle e \<and> dep_shuffleID d = dep_shuffleID e \<longrightarrow> d = e)"

lemma all_nodes_RDD:
  "all_nodes (RDD i n ps l ds) = RDD i n ps l ds # concat (map all_nodes (map Parent (live_deps (RDD i n ps l ds))))"
  by (subst all_nodes.simps) (simp add: comp_def)

lemma all_nodes_self: "r \<in> set (all_nodes r)"
  by (subst all_nodes.simps) simp

lemma all_nodes_step:
  "a \<in> set (all_nodes r) \<Longrightarrow> d \<in> set (live_deps a) \<Longrightarrow> Parent d \<in> set (all_nodes r)"
proof (induction r rule: all_nodes.induct)
  case (1 r)
  from 1(2) consider "a = r" | e where "e \<in> set (live_deps r)" "a \<in> set (all_nodes (Parent e))"
    by (subst (asm) all_nodes.simps) auto
  then show ?case
  proof cases
    case 1
    then have "Parent d \<in> (\<Union>e \<in> set (live_deps r). set (all_nodes (Parent e)))"
      using "1.prems"(2) all_nodes_self by blast
    then show ?thesis by (subst all_nodes.simps) simp
  next
    case 2
    then have "Parent d \<in> set (all_nodes (Parent e))" using "1.IH" "1.prems"(2) by blast
    with 2 show ?thesis by (subst all_nodes.simps) auto
  qed
qed

lemma all_nodes_size: "a \<in> set (all_nodes r) \<Longrightarrow> node_size a \<le> node_size r"
proof (induction r rule: all_nodes.induct)
  case (1 r)
  from 1(2) consider "a = r" | e where "e \<in> set (live_deps r)" "a \<in> set (all_nodes (Parent e))"
    by (subst (asm) all_nodes.simps) auto
  then show ?case
    using 1(1) live_dep_size by cases (fastforce intro: order.trans)+
qed

lemma all_deps_iff:
  "d \<in> set (all_deps r) \<longleftrightarrow> (\<exists>a \<in> set (all_nodes r). d \<in> set (live_deps a))"
  by (auto simp: all_deps_def)

lemma not_own_ancestor: "d \<in> set (all_deps (Parent d)) \<Longrightarrow> False"
  using live_dep_size all_nodes_size by (fastforce simp: all_deps_iff)

text \<open>A set of nodes closed under parents that holds the root holds the whole lineage.\<close>

lemma closed_all_nodes:
  assumes "r \<in> M" and "\<And>n d. n \<in> M \<Longrightarrow> d \<in> set (live_deps n) \<Longrightarrow> Parent d \<in> M"
  shows "set (all_nodes r) \<subseteq> M"
  using assms(1)
proof (induction r rule: all_nodes.induct)
  case (1 r)
  then show ?case using assms(2) by (subst all_nodes.simps) auto
qed

lemma closed_direct_shuffles:
  assumes "r \<in> M" and "\<And>n d. n \<in> M \<Longrightarrow> d \<in> set (live_deps n) \<Longrightarrow> \<not> is_shuffle d \<Longrightarrow> Parent d \<in> M"
    and "\<And>n d. n \<in> M \<Longrightarrow> d \<in> set (live_deps n) \<Longrightarrow> is_shuffle d \<Longrightarrow> Q d"
    and "e \<in> set (direct_shuffles r)"
  shows "Q e"
  using assms(1,4)
proof (induction r rule: direct_shuffles.induct)
  case (1 r)
  from 1(3) obtain d where "d \<in> set (live_deps r)"
    and "is_shuffle d \<and> e = d \<or> \<not> is_shuffle d \<and> e \<in> set (direct_shuffles (Parent d))"
    by (subst (asm) direct_shuffles.simps) (auto split: if_splits)
  then show ?case using 1(1,2) assms(2,3) by blast
qed


section \<open>Walks and lineage\<close>

definition seen_nodes :: "RDD \<Rightarrow> nat list \<Rightarrow> RDD set" where
  "seen_nodes root seen = {n \<in> set (all_nodes root). rdd_ID n \<in> set seen}"

lemma seen_nodes_Cons:
  "wf_lineage root \<Longrightarrow> c \<in> set (all_nodes root) \<Longrightarrow>
     seen_nodes root (rdd_ID c # seen) = insert c (seen_nodes root seen)"
  by (auto simp: seen_nodes_def wf_lineage_def)

lemma wf_lineage_dep:
  "wf_lineage r \<Longrightarrow> d \<in> set (all_deps r) \<Longrightarrow> e \<in> set (all_deps r) \<Longrightarrow> is_shuffle d \<Longrightarrow>
     is_shuffle e \<Longrightarrow> dep_shuffleID d = dep_shuffleID e \<Longrightarrow> d = e"
  by (auto simp: wf_lineage_def)

lemma find_loop_sound:
  "find_loop sid seen stack = Some d \<Longrightarrow> set stack \<subseteq> set (all_nodes root) \<Longrightarrow>
     d \<in> set (all_deps root) \<and> is_shuffle d \<and> dep_shuffleID d = sid"
proof (induction sid seen stack rule: find_loop.induct)
  case (2 sid seen cur stack)
  show ?case
  proof (cases "rdd_ID cur \<in> set seen")
    case False
    show ?thesis
    proof (cases "scan_deps sid (live_deps cur) stack")
      case (Inl e)
      then have "d = e" using 2 False by simp
      then show ?thesis using scan_deps_Inl [OF Inl] "2.prems"(2) by (auto simp: all_deps_iff)
    next
      case (Inr st)
      then have "set st \<subseteq> set (all_nodes root)"
        using "2.prems"(2) all_nodes_step by (auto simp: scan_deps_Inr)
      then show ?thesis using "2.IH"(2) [OF False Inr] "2.prems"(1) False Inr by simp
    qed
  qed (use 2 in simp)
qed simp

lemma find_loop_None:
  "find_loop sid seen stack = None \<Longrightarrow> wf_lineage root \<Longrightarrow> set stack \<subseteq> set (all_nodes root) \<Longrightarrow>
     \<exists>M. set stack \<subseteq> M \<union> seen_nodes root seen \<and>
       (\<forall>n \<in> M. \<forall>d \<in> set (live_deps n).
          \<not> (is_shuffle d \<and> dep_shuffleID d = sid) \<and> Parent d \<in> M \<union> seen_nodes root seen)"
proof (induction sid seen stack rule: find_loop.induct)
  case (2 sid seen cur stack)
  show ?case
  proof (cases "rdd_ID cur \<in> set seen")
    case True
    then have "cur \<in> seen_nodes root seen" using "2.prems"(3) by (simp add: seen_nodes_def)
    with True 2 show ?thesis by simp
  next
    case False
    obtain st where st: "scan_deps sid (live_deps cur) stack = Inr st"
      using "2.prems"(1) False by (auto split: sum.splits)
    have cur: "cur \<in> set (all_nodes root)" using "2.prems"(3) by simp
    have sub: "set st \<subseteq> set (all_nodes root)"
      using "2.prems"(3) all_nodes_step st by (auto simp: scan_deps_Inr)
    have "find_loop sid (rdd_ID cur # seen) st = None" using "2.prems"(1) False st by simp
    from "2.IH"(2) [OF False st this "2.prems"(2) sub] obtain M where
      M: "set st \<subseteq> insert cur M \<union> seen_nodes root seen"
        "\<forall>n \<in> M. \<forall>d \<in> set (live_deps n). \<not> (is_shuffle d \<and> dep_shuffleID d = sid)
           \<and> Parent d \<in> insert cur M \<union> seen_nodes root seen"
      unfolding seen_nodes_Cons [OF "2.prems"(2) cur] by auto
    show ?thesis
    proof (intro exI [of _ "insert cur M"] conjI)
      show "set (cur # stack) \<subseteq> insert cur M \<union> seen_nodes root seen"
        using M(1) st by (auto simp: scan_deps_Inr)
      show "\<forall>n \<in> insert cur M. \<forall>d \<in> set (live_deps n).
          \<not> (is_shuffle d \<and> dep_shuffleID d = sid) \<and> Parent d \<in> insert cur M \<union> seen_nodes root seen"
        using M st by (auto simp: scan_deps_Inr)
    qed
  qed
qed auto

lemma findShuffleDep_spec:
  assumes "wf_lineage root"
  shows "findShuffleDep root sid = Some d \<longleftrightarrow>
    d \<in> set (all_deps root) \<and> is_shuffle d \<and> dep_shuffleID d = sid"
proof
  assume "findShuffleDep root sid = Some d"
  then show "d \<in> set (all_deps root) \<and> is_shuffle d \<and> dep_shuffleID d = sid"
    using find_loop_sound [of sid "[]" "[root]" d root] by (simp add: findShuffleDep_def all_nodes_self)
next
  assume d: "d \<in> set (all_deps root) \<and> is_shuffle d \<and> dep_shuffleID d = sid"
  show "findShuffleDep root sid = Some d"
  proof (cases "findShuffleDep root sid")
    case None
    then obtain M where "root \<in> M"
      "\<forall>n \<in> M. \<forall>d \<in> set (live_deps n). \<not> (is_shuffle d \<and> dep_shuffleID d = sid) \<and> Parent d \<in> M"
      using find_loop_None [of sid "[]" "[root]" root] assms
      by (auto simp: findShuffleDep_def all_nodes_self seen_nodes_def)
    then show ?thesis using closed_all_nodes [of root M] d by (fastforce simp: all_deps_iff)
  next
    case (Some e)
    then have "e \<in> set (all_deps root) \<and> is_shuffle e \<and> dep_shuffleID e = sid"
      using find_loop_sound [of sid "[]" "[root]" e root] by (simp add: findShuffleDep_def all_nodes_self)
    then show ?thesis using wf_lineage_dep [OF assms, of d e] d Some by simp
  qed
qed


section \<open>The planner invariant\<close>

lemma unique_loop_spec:
  "set seen = set out \<Longrightarrow> distinct out \<Longrightarrow>
     set (unique_loop seen out ids) = set out \<union> set ids \<and> distinct (unique_loop seen out ids)"
  by (induction seen out ids rule: unique_loop.induct) (auto simp: insert_absorb)

lemma uniqueInts_spec: "set (uniqueInts ids) = set ids" "distinct (uniqueInts ids)"
  using unique_loop_spec [of "[]" "[]" ids] by (auto simp: uniqueInts_def)

text \<open>The stages that the shuffles read by a node have been given, and that they have one.\<close>

definition indexes :: "planner \<Rightarrow> RDD \<Rightarrow> nat set" where
  "indexes p r = {i. \<exists>e \<in> set (direct_shuffles r). shuffleStages p (dep_shuffleID e) = Some i}"

definition planned :: "planner \<Rightarrow> RDD \<Rightarrow> bool" where
  "planned p r \<longleftrightarrow> (\<forall>e \<in> set (direct_shuffles r). shuffleStages p (dep_shuffleID e) \<noteq> None)"

definition stage_inv :: "RDD \<Rightarrow> planner \<Rightarrow> nat \<Rightarrow> Stage \<Rightarrow> bool" where
  "stage_inv root p i st \<longleftrightarrow> (\<exists>d pids. st = map_stage i d pids \<and> d \<in> set (all_deps root) \<and>
     is_shuffle d \<and> shuffleStages p (dep_shuffleID d) = Some i \<and> planned p (Parent d) \<and>
     set pids = indexes p (Parent d) \<and> (\<forall>j \<in> set pids. j < i))"

definition planner_inv :: "RDD \<Rightarrow> planner \<Rightarrow> bool" where
  "planner_inv root p \<longleftrightarrow> nextID p = length (pl_stages p) \<and>
     (\<forall>sid i. shuffleStages p sid = Some i \<longrightarrow>
        i < length (pl_stages p) \<and> st_ShuffleID (pl_stages p ! i) = sid) \<and>
     (\<forall>i < length (pl_stages p). stage_inv root p i (pl_stages p ! i))"

definition sids_below :: "RDD \<Rightarrow> nat set" where
  "sids_below r = {dep_shuffleID e |e. e \<in> set (all_deps r) \<and> is_shuffle e}"

definition sids_dep :: "Dependency \<Rightarrow> nat set" where
  "sids_dep d = (if is_shuffle d then {dep_shuffleID d} else {}) \<union> sids_below (Parent d)"

text \<open>A planner step: the invariant holds after it, nothing planned is lost, only \<open>S\<close> is new.\<close>

definition plan_step :: "RDD \<Rightarrow> nat set \<Rightarrow> planner \<Rightarrow> planner \<Rightarrow> bool" where
  "plan_step root S p p' \<longleftrightarrow> planner_inv root p' \<and> shuffleStages p \<subseteq>\<^sub>m shuffleStages p' \<and>
     dom (shuffleStages p') \<subseteq> dom (shuffleStages p) \<union> S"

lemma plan_step_refl: "planner_inv root p \<Longrightarrow> plan_step root S p p"
  by (auto simp: plan_step_def)

lemma plan_step_trans:
  "plan_step root S p p' \<Longrightarrow> plan_step root T p' p'' \<Longrightarrow> S \<subseteq> U \<Longrightarrow> T \<subseteq> U \<Longrightarrow> plan_step root U p p''"
  unfolding plan_step_def by (meson map_le_trans Un_mono order.trans Un_least Un_upper1 Un_upper2)

lemma sids_below_live: "d \<in> set (live_deps r) \<Longrightarrow> sids_dep d \<subseteq> sids_below r"
  using all_nodes_self [of r]
  by (auto simp: sids_dep_def sids_below_def all_deps_iff all_nodes.simps [of r] split: if_splits)

lemma planned_indexes_mono:
  assumes "planned p r" and le: "shuffleStages p \<subseteq>\<^sub>m shuffleStages p'"
  shows "planned p' r" and "indexes p' r = indexes p r"
proof -
  have eq: "shuffleStages p' (dep_shuffleID e) = shuffleStages p (dep_shuffleID e)"
    if "e \<in> set (direct_shuffles r)" for e
    using assms that by (fastforce simp: planned_def map_le_def dom_def)
  show "planned p' r" using assms(1) eq by (simp add: planned_def)
  show "indexes p' r = indexes p r" using eq by (auto simp: indexes_def)
qed

lemma stage_inv_mono:
  assumes "stage_inv root p i st" and le: "shuffleStages p \<subseteq>\<^sub>m shuffleStages p'"
  shows "stage_inv root p' i st"
proof -
  from assms(1) obtain d pids where d: "st = map_stage i d pids" "d \<in> set (all_deps root)"
    "is_shuffle d" "shuffleStages p (dep_shuffleID d) = Some i" "planned p (Parent d)"
    "set pids = indexes p (Parent d)" "\<forall>j \<in> set pids. j < i"
    unfolding stage_inv_def by blast
  moreover have "shuffleStages p' (dep_shuffleID d) = Some i"
    using d(4) le by (metis domI map_le_def)
  moreover have "planned p' (Parent d)" "set pids = indexes p' (Parent d)"
    using planned_indexes_mono [OF d(5) le] d(6) by simp_all
  ultimately show ?thesis unfolding stage_inv_def by blast
qed

lemma add_stage_step:
  assumes wf: "wf_lineage root" and d: "d \<in> set (all_deps root)" "is_shuffle d"
    and sub: "set (all_deps (Parent d)) \<subseteq> set (all_deps root)"
    and new: "shuffleStages p (dep_shuffleID d) = None"
    and st: "plan_step root (sids_below (Parent d)) p p'"
    and ids: "planned p' (Parent d)" "set ids = indexes p' (Parent d)"
    and p'': "p'' = p'\<lparr>nextID := nextID p' + 1,
      pl_stages := pl_stages p' @ [map_stage (nextID p') d ids],
      shuffleStages := (shuffleStages p')(dep_shuffleID d \<mapsto> nextID p')\<rparr>"
  shows "plan_step root (sids_dep d) p p''"
proof -
  let ?i = "nextID p'"
  have inv: "planner_inv root p'" using st by (simp add: plan_step_def)
  have "dep_shuffleID d \<notin> sids_below (Parent d)"
    using wf_lineage_dep [OF wf d(1) _ d(2)] sub not_own_ancestor by (auto simp: sids_below_def)
  then have fresh: "shuffleStages p' (dep_shuffleID d) = None"
    using st new by (auto simp: plan_step_def dom_def)
  then have le: "shuffleStages p' \<subseteq>\<^sub>m shuffleStages p''"
    by (auto simp: p'' map_le_def)
  have idx: "\<forall>j \<in> set ids. j < ?i"
    using inv by (auto simp: ids(2) indexes_def planner_inv_def)
  have new_inv: "stage_inv root p'' ?i (map_stage ?i d ids)"
    unfolding stage_inv_def
    using d idx ids planned_indexes_mono [OF ids(1) le] by (intro exI [of _ d] exI [of _ ids]) (auto simp: p'')
  have old_inv: "stage_inv root p'' i (pl_stages p' ! i)" if "i < length (pl_stages p')" for i
    using stage_inv_mono [OF _ le] inv that by (simp add: planner_inv_def)
  have len: "?i = length (pl_stages p')" using inv by (simp add: planner_inv_def)
  have stages: "pl_stages p'' = pl_stages p' @ [map_stage ?i d ids]" by (simp add: p'')
  have "stage_inv root p'' i (pl_stages p'' ! i)" if "i < length (pl_stages p'')" for i
    using that new_inv old_inv by (auto simp: stages nth_append len less_Suc_eq)
  moreover have "i < length (pl_stages p'') \<and> st_ShuffleID (pl_stages p'' ! i) = sid"
    if "shuffleStages p'' sid = Some i" for sid i
    using that inv len
    by (cases "sid = dep_shuffleID d") (auto simp: planner_inv_def p'' nth_append map_stage_def intro: less_SucI)
  ultimately have "planner_inv root p''"
    unfolding planner_inv_def by (simp add: len stages) (simp add: p'' len)
  then show ?thesis
    using st le d(2) map_le_trans [OF _ le] by (auto simp: plan_step_def sids_dep_def p'')
qed


text \<open>
  What the loop of \<^verbatim>\<open>parentStages\<close> has covered when it ends: a set \<open>M\<close> of visited nodes whose
  shuffles all have their stage among the collected ids and whose narrow parents were visited.
\<close>

definition visited :: "RDD \<Rightarrow> nat list \<Rightarrow> planner \<Rightarrow> nat list \<Rightarrow> RDD set \<Rightarrow> bool" where
  "visited root seen p ids M \<longleftrightarrow>
     (\<forall>n \<in> M. \<forall>d \<in> set (live_deps n).
        if is_shuffle d then \<exists>i \<in> set ids. shuffleStages p (dep_shuffleID d) = Some i
        else Parent d \<in> M \<union> seen_nodes root seen)"

lemma visited_mono:
  "visited root seen p ids M \<Longrightarrow> set ids \<subseteq> set ids' \<Longrightarrow> shuffleStages p \<subseteq>\<^sub>m shuffleStages p' \<Longrightarrow>
     visited root seen p' ids' M"
  unfolding visited_def map_le_def by (metis (no_types, lifting) domI subsetD)

lemma indexes_narrow:
  "d \<in> set (live_deps r) \<Longrightarrow> \<not> is_shuffle d \<Longrightarrow> indexes p (Parent d) \<subseteq> indexes p r"
  by (auto simp: indexes_def direct_shuffles.simps [of r])

lemma indexes_shuffle:
  "d \<in> set (live_deps r) \<Longrightarrow> is_shuffle d \<Longrightarrow> shuffleStages p (dep_shuffleID d) = Some i \<Longrightarrow>
     i \<in> indexes p r"
  by (force simp: indexes_def direct_shuffles.simps [of r])

lemma indexes_mono: "shuffleStages p \<subseteq>\<^sub>m shuffleStages p' \<Longrightarrow> indexes p r \<subseteq> indexes p' r"
  unfolding indexes_def map_le_def by (auto; metis domI)

lemma set_push_narrow:
  "set (push_narrow ds stack) = Parent ` {d \<in> set ds. \<not> is_shuffle d} \<union> set stack"
  by (auto simp: push_narrow_eq)

lemma all_deps_Parent:
  "d \<in> set (all_deps root) \<Longrightarrow> set (all_deps (Parent d)) \<subseteq> set (all_deps root)"
proof -
  assume "d \<in> set (all_deps root)"
  then have "Parent d \<in> set (all_nodes root)" using all_nodes_step by (auto simp: all_deps_iff)
  then have "set (all_nodes (Parent d)) \<subseteq> set (all_nodes root)"
    by (rule closed_all_nodes) (rule all_nodes_step)
  then show ?thesis by (auto simp: all_deps_def)
qed

definition loop_post where
  "loop_post root seen stack ids p ids' p' \<longleftrightarrow>
     plan_step root (\<Union>r \<in> set stack. sids_below r) p p' \<and> set ids \<subseteq> set ids' \<and>
     (\<exists>M. set stack \<subseteq> M \<union> seen_nodes root seen \<and> visited root seen p' ids' M) \<and>
     set ids' \<subseteq> set ids \<union> (\<Union>r \<in> set stack. indexes p' r)"

definition deps_post where
  "deps_post root ds ids p ids' p' \<longleftrightarrow>
     plan_step root (\<Union>d \<in> set ds. sids_dep d) p p' \<and> set ids \<subseteq> set ids' \<and>
     (\<forall>d \<in> set ds. is_shuffle d \<longrightarrow> (\<exists>i \<in> set ids'. shuffleStages p' (dep_shuffleID d) = Some i)) \<and>
     (\<forall>i \<in> set ids' - set ids. \<exists>d \<in> set ds. is_shuffle d \<and> shuffleStages p' (dep_shuffleID d) = Some i)"

lemma loop_post_step:
  assumes wf: "wf_lineage root" and cur: "cur \<in> set (all_nodes root)"
    and deps: "deps_post root (live_deps cur) ids p ids1 p1"
    and rest: "loop_post root seen' (push_narrow (live_deps cur) stack) ids1 p1 ids' p'"
    and seen': "seen' = rdd_ID cur # seen \<or> seen = [] \<and> seen' = []"
  shows "loop_post root seen (cur # stack) ids p ids' p'"
proof -
  from rest obtain M where M: "set (push_narrow (live_deps cur) stack) \<subseteq> M \<union> seen_nodes root seen'"
    "visited root seen' p' ids' M" unfolding loop_post_def by blast
  have seen_sub: "seen_nodes root seen' \<subseteq> insert cur (seen_nodes root seen)"
    using seen' seen_nodes_Cons [OF wf cur, of seen] by auto
  have le: "shuffleStages p1 \<subseteq>\<^sub>m shuffleStages p'"
    using rest by (simp add: loop_post_def plan_step_def)
  have shuf: "\<exists>i \<in> set ids'. shuffleStages p' (dep_shuffleID d) = Some i"
    if "d \<in> set (live_deps cur)" "is_shuffle d" for d
    using deps rest le that unfolding deps_post_def loop_post_def map_le_def
    by (metis domI subsetD)
  have "visited root seen p' ids' (insert cur M)"
    using M seen_sub shuf unfolding visited_def set_push_narrow by (fastforce split: if_splits)
  moreover have "set (cur # stack) \<subseteq> insert cur M \<union> seen_nodes root seen"
    using M(1) seen_sub unfolding set_push_narrow by auto
  moreover have "plan_step root (\<Union>r \<in> set (cur # stack). sids_below r) p p'"
  proof (rule plan_step_trans)
    show "plan_step root (\<Union>d \<in> set (live_deps cur). sids_dep d) p p1"
      using deps by (simp add: deps_post_def)
    show "plan_step root (\<Union>r \<in> set (push_narrow (live_deps cur) stack). sids_below r) p1 p'"
      using rest by (simp add: loop_post_def)
    show "(\<Union>d \<in> set (live_deps cur). sids_dep d) \<subseteq> (\<Union>r \<in> set (cur # stack). sids_below r)"
      using sids_below_live by auto
    have "sids_below (Parent d) \<subseteq> sids_below cur" if "d \<in> set (live_deps cur)" for d
      using sids_below_live [OF that] by (auto simp: sids_dep_def)
    then show "(\<Union>r \<in> set (push_narrow (live_deps cur) stack). sids_below r)
        \<subseteq> (\<Union>r \<in> set (cur # stack). sids_below r)"
      by (auto simp: set_push_narrow)
  qed
  moreover have "set ids' \<subseteq> set ids \<union> (\<Union>r \<in> set (cur # stack). indexes p' r)"
  proof
    fix i assume "i \<in> set ids'"
    then consider "i \<in> set ids" | "i \<in> set ids1 - set ids" |
      r where "r \<in> set (push_narrow (live_deps cur) stack)" "i \<in> indexes p' r"
      using rest unfolding loop_post_def by blast
    then show "i \<in> set ids \<union> (\<Union>r \<in> set (cur # stack). indexes p' r)"
    proof cases
      case 2
      then obtain d where "d \<in> set (live_deps cur)" "is_shuffle d"
        "shuffleStages p1 (dep_shuffleID d) = Some i" using deps unfolding deps_post_def by blast
      then have "i \<in> indexes p' cur"
        using le indexes_shuffle [of d cur p' i] by (metis domI map_le_def)
      then show ?thesis by simp
    qed (use indexes_narrow in \<open>auto simp: set_push_narrow\<close>)
  qed
  moreover have "set ids \<subseteq> set ids'" using deps rest by (auto simp: deps_post_def loop_post_def)
  ultimately show ?thesis unfolding loop_post_def by blast
qed


lemma loop_post_complete:
  assumes "loop_post root [] [r] [] p ids p'"
  shows "planned p' r" and "set ids = indexes p' r"
proof -
  from assms obtain M where M: "r \<in> M" "visited root [] p' ids M"
    unfolding loop_post_def by (auto simp: seen_nodes_def)
  have all: "\<exists>i \<in> set ids. shuffleStages p' (dep_shuffleID e) = Some i"
    if "e \<in> set (direct_shuffles r)" for e
    by (rule closed_direct_shuffles [OF M(1) _ _ that])
      (use M(2) in \<open>fastforce simp: visited_def seen_nodes_def split: if_splits\<close>)+
  then show "planned p' r" by (fastforce simp: planned_def)
  have "indexes p' r \<subseteq> set ids" using all by (fastforce simp: indexes_def)
  then show "set ids = indexes p' r" using assms unfolding loop_post_def by auto
qed

lemma planner_posts:
  assumes wf: "wf_lineage root"
  shows "planner_inv root p \<Longrightarrow> set stack \<subseteq> set (all_nodes root) \<Longrightarrow> (\<not> started \<Longrightarrow> seen = []) \<Longrightarrow>
      loop_post root seen stack ids p
        (fst (parent_loop p started seen stack ids)) (snd (parent_loop p started seen stack ids))"
    and "planner_inv root p2 \<Longrightarrow> set ds \<subseteq> set (all_deps root) \<Longrightarrow>
      deps_post root ds ids2 p2 (fst (dep_loop p2 ds ids2)) (snd (dep_loop p2 ds ids2))"
    and "planner_inv root p3 \<Longrightarrow> d \<in> set (all_deps root) \<Longrightarrow> is_shuffle d \<Longrightarrow>
      plan_step root (sids_dep d) p3 (snd (getShuffleMapStage p3 d)) \<and>
      shuffleStages (snd (getShuffleMapStage p3 d)) (dep_shuffleID d)
        = Some (fst (getShuffleMapStage p3 d))"
proof (induction p started seen stack ids and p2 ds ids2 and p3 d
    rule: parent_loop_dep_loop_getShuffleMapStage.induct)
  case (1 p started seen ids)
  have "visited root seen p ids {}" by (simp add: visited_def)
  then show ?case using 1 by (auto simp: loop_post_def plan_step_refl)
next
  case (2 p started seen cur stack ids)
  show ?case
  proof (cases "started \<and> rdd_ID cur \<in> set seen")
    case True
    have "cur \<in> seen_nodes root seen" using True "2.prems"(2) by (simp add: seen_nodes_def)
    moreover have "loop_post root seen stack ids p
        (fst (parent_loop p started seen stack ids)) (snd (parent_loop p started seen stack ids))"
      using 2 True by simp
    ultimately show ?thesis
      using True by (auto simp: loop_post_def plan_step_def)
  next
    case False
    define seen' where "seen' = (if started then rdd_ID cur # seen else seen)"
    define st where "st = dep_loop p (live_deps cur) ids"
    have cur: "cur \<in> set (all_nodes root)" using "2.prems"(2) by simp
    have deps: "deps_post root (live_deps cur) ids p (fst st) (snd st)"
      using "2.IH"(2) [OF False seen'_def "2.prems"(1)] cur
      unfolding st_def by (force simp: all_deps_iff)
    have "set (push_narrow (live_deps cur) stack) \<subseteq> set (all_nodes root)"
      using "2.prems"(2) all_nodes_step cur by (auto simp: set_push_narrow)
    moreover have "planner_inv root (snd st)" using deps by (simp add: deps_post_def plan_step_def)
    ultimately have rest: "loop_post root seen' (push_narrow (live_deps cur) stack) (fst st) (snd st)
        (fst (parent_loop (snd st) True seen' (push_narrow (live_deps cur) stack) (fst st)))
        (snd (parent_loop (snd st) True seen' (push_narrow (live_deps cur) stack) (fst st)))"
      using "2.IH"(3) [OF False seen'_def st_def] by blast
    have "parent_loop p started seen (cur # stack) ids
        = parent_loop (snd st) True seen' (push_narrow (live_deps cur) stack) (fst st)"
      using False by (auto simp: seen'_def st_def Let_def)
    then show ?thesis
      using loop_post_step [OF wf cur deps rest] "2.prems"(3) unfolding seen'_def by auto
  qed
next
  case (3 p ids)
  then show ?case by (auto simp: deps_post_def plan_step_refl)
next
  case (4 p d ds ids)
  show ?case
  proof (cases "is_shuffle d")
    case False
    then show ?thesis using 4 by (auto simp: deps_post_def plan_step_def)
  next
    case True
    define st where "st = getShuffleMapStage p d"
    have st: "plan_step root (sids_dep d) p (snd st)"
      "shuffleStages (snd st) (dep_shuffleID d) = Some (fst st)"
      using "4.IH"(1) [OF True "4.prems"(1) _ True] "4.prems"(2) by (auto simp: st_def)
    have rest: "deps_post root ds (ids @ [fst st]) (snd st)
        (fst (dep_loop (snd st) ds (ids @ [fst st]))) (snd (dep_loop (snd st) ds (ids @ [fst st])))"
      using "4.IH"(2) [OF True st_def] st(1) "4.prems"(2) by (simp add: plan_step_def)
    define q where "q = dep_loop (snd st) ds (ids @ [fst st])"
    have q: "dep_loop p (d # ds) ids = q" using True by (simp add: q_def st_def Let_def)
    have rest': "deps_post root ds (ids @ [fst st]) (snd st) (fst q) (snd q)"
      using rest by (simp add: q_def)
    then have "shuffleStages (snd q) (dep_shuffleID d) = Some (fst st)"
      using st(2) unfolding deps_post_def plan_step_def map_le_def by (metis domI)
    then show ?thesis
      unfolding q using rest' st True plan_step_trans [OF st(1), of "\<Union>d \<in> set ds. sids_dep d" "snd q"]
      unfolding deps_post_def by auto
  qed
next
  case (5 p d)
  show ?case
  proof (cases "shuffleStages p (dep_shuffleID d)")
    case (Some i)
    then show ?thesis using 5 by (simp add: plan_step_refl)
  next
    case None
    define st where "st = parent_loop p False [] [Parent d] []"
    have "Parent d \<in> set (all_nodes root)" using "5.prems"(2) all_nodes_step by (auto simp: all_deps_iff)
    then have post: "loop_post root [] [Parent d] [] p (fst st) (snd st)"
      using "5.IH" [OF None "5.prems"(1)] by (simp add: st_def)
    then have "plan_step root (sids_below (Parent d)) p (snd st)" by (simp add: loop_post_def)
    from add_stage_step [OF wf "5.prems"(2,3) all_deps_Parent [OF "5.prems"(2)] None this
        loop_post_complete [OF post] refl]
    show ?thesis using None by (simp add: st_def Let_def)
  qed
qed


section \<open>Plans\<close>

text \<open>
  What the scheduler relies on of a plan: the stage list is indexed by the stage ids, parents come
  before their children and are map stages, the result stage is the last one, and no two map
  stages write the same shuffle.
\<close>

definition plan_ok :: "JobPlan \<Rightarrow> bool" where
  "plan_ok plan \<longleftrightarrow>
     (let n = length (jp_Stages plan) in
      n = jp_ResultStageID plan + 1 \<and> map st_ID (jp_Stages plan) = [0..<n] \<and>
      (\<forall>st \<in> set (jp_Stages plan). distinct (st_Parents st) \<and> (\<forall>j \<in> set (st_Parents st). j < st_ID st)) \<and>
      (\<forall>st \<in> set (jp_Stages plan). st_Kind st =
         (if st_ID st = jp_ResultStageID plan then StageResult else StageShuffleMap)) \<and>
      distinct (map st_ShuffleID (butlast (jp_Stages plan))))"

text \<open>A stage computes node \<open>r\<close>: its partitions, and its parents are the stages of the shuffles \<open>r\<close> reads.\<close>

definition stage_computes :: "JobPlan \<Rightarrow> Stage \<Rightarrow> RDD \<Rightarrow> bool" where
  "stage_computes plan st r \<longleftrightarrow>
     st_RDDID st = rdd_ID r \<and> st_NumPartitions st = length (rdd_Partitions r) \<and>
     (\<forall>e \<in> set (direct_shuffles r). \<exists>s \<in> set (butlast (jp_Stages plan)). st_ShuffleID s = dep_shuffleID e) \<and>
     set (st_Parents st) = {st_ID s |s. s \<in> set (butlast (jp_Stages plan)) \<and>
       (\<exists>e \<in> set (direct_shuffles r). st_ShuffleID s = dep_shuffleID e)}"

definition range_sorted :: "Dependency \<Rightarrow> bool" where
  "range_sorted d \<longleftrightarrow> sortLess d \<noteq> None \<and>
     (case dep_partitioner d of None \<Rightarrow> False | Some p \<Rightarrow> NumPartitions p > 1)"

lemma finish_stages_spec:
  assumes "\<And>st. st \<in> set stages \<Longrightarrow> st_Kind st = StageShuffleMap \<Longrightarrow>
      findShuffleDep rdd (st_ShuffleID st) \<noteq> None"
    and "\<And>st. st \<in> set stages \<Longrightarrow> \<not> st_RangeSort st"
  shows "\<exists>out lts'. finish_stages rdd stages lts = Inr (out, lts') \<and>
    list_all2 (\<lambda>st st'. \<exists>h b. st' = st\<lparr>st_CacheHints := h, st_RangeSort := b\<rparr> \<and>
       (b \<longleftrightarrow> st_Kind st = StageShuffleMap \<and>
          range_sorted (the (findShuffleDep rdd (st_ShuffleID st))))) stages out \<and>
    (\<forall>i. lts' i = None \<longleftrightarrow> lts i = None \<and> (\<forall>st \<in> set out. st_RangeSort st \<longrightarrow> st_ID st \<noteq> i))"
  using assms
proof (induction stages arbitrary: lts)
  case Nil
  then show ?case by simp
next
  case (Cons st stages)
  define b where "b \<longleftrightarrow> st_Kind st = StageShuffleMap \<and>
      range_sorted (the (findShuffleDep rdd (st_ShuffleID st)))"
  define root where "root = (if st_Kind st = StageShuffleMap
      then Parent (the (findShuffleDep rdd (st_ShuffleID st))) else rdd)"
  define lts1 where "lts1 = (if b then lts(st_ID st \<mapsto>
      the (sortLess (the (findShuffleDep rdd (st_ShuffleID st))))) else lts)"
  define h where "h = (if containsShareableCache root then stage_hints root (st_NumPartitions st)
      else st_CacheHints st)"
  define st' where "st' = st\<lparr>st_CacheHints := h, st_RangeSort := b\<rparr>"
  have nb: "\<not> st_RangeSort st" using Cons.prems(2) by simp
  from Cons.IH [of lts1] Cons.prems obtain out lts' where
    out: "finish_stages rdd stages lts1 = Inr (out, lts')"
      "list_all2 (\<lambda>st st'. \<exists>h b. st' = st\<lparr>st_CacheHints := h, st_RangeSort := b\<rparr> \<and>
         (b \<longleftrightarrow> st_Kind st = StageShuffleMap \<and>
            range_sorted (the (findShuffleDep rdd (st_ShuffleID st))))) stages out"
      "\<forall>i. lts' i = None \<longleftrightarrow> lts1 i = None \<and> (\<forall>st \<in> set out. st_RangeSort st \<longrightarrow> st_ID st \<noteq> i)"
    by auto
  have eq: "st\<lparr>st_CacheHints := st_CacheHints st, st_RangeSort := False\<rparr> = st" using nb by simp
  have "findShuffleDep rdd (st_ShuffleID st) \<noteq> None" if "st_Kind st = StageShuffleMap"
    using Cons.prems(1) that by simp
  then have "finish_stages rdd (st # stages) lts = Inr (st' # out, lts')"
    using out(1) nb eq unfolding st'_def h_def lts1_def root_def b_def range_sorted_def
    by (auto simp: Let_def split: option.splits if_splits)
  moreover have "\<forall>i. lts' i = None \<longleftrightarrow>
      lts i = None \<and> (\<forall>s \<in> set (st' # out). st_RangeSort s \<longrightarrow> st_ID s \<noteq> i)"
    using out(3) by (auto simp: lts1_def st'_def)
  ultimately show ?case using out(2) by (auto simp: st'_def b_def)
qed


lemma planner_inv_stage:
  assumes "planner_inv root p" and "i < length (pl_stages p)"
  obtains d pids where "pl_stages p ! i = map_stage i d pids" and "d \<in> set (all_deps root)"
    and "is_shuffle d" and "shuffleStages p (dep_shuffleID d) = Some i" and "planned p (Parent d)"
    and "set pids = indexes p (Parent d)" and "\<forall>j \<in> set pids. j < i"
  using assms unfolding planner_inv_def stage_inv_def by blast

lemma planner_indexes:
  assumes inv: "planner_inv root p"
  shows "indexes p r = {st_ID s |s. s \<in> set (pl_stages p) \<and>
    (\<exists>e \<in> set (direct_shuffles r). st_ShuffleID s = dep_shuffleID e)}" (is "_ = ?S")
proof (intro equalityI subsetI)
  fix i assume "i \<in> indexes p r"
  then obtain e where e: "e \<in> set (direct_shuffles r)" "shuffleStages p (dep_shuffleID e) = Some i"
    by (auto simp: indexes_def)
  then have i: "i < length (pl_stages p)" "st_ShuffleID (pl_stages p ! i) = dep_shuffleID e"
    using inv by (auto simp: planner_inv_def)
  moreover have "st_ID (pl_stages p ! i) = i"
    by (rule planner_inv_stage [OF inv i(1)]) (simp add: map_stage_def)
  ultimately show "i \<in> ?S" using e(1) by (metis (mono_tags, lifting) mem_Collect_eq nth_mem)
next
  fix i assume "i \<in> ?S"
  then obtain k e where k: "k < length (pl_stages p)" "i = st_ID (pl_stages p ! k)"
    "e \<in> set (direct_shuffles r)" "st_ShuffleID (pl_stages p ! k) = dep_shuffleID e"
    by (auto simp: in_set_conv_nth)
  obtain d pids where "pl_stages p ! k = map_stage k d pids" "shuffleStages p (dep_shuffleID d) = Some k"
    by (rule planner_inv_stage [OF inv k(1)])
  then show "i \<in> indexes p r" using k by (auto simp: indexes_def map_stage_def)
qed

lemma planned_everywhere:
  assumes wf: "wf_lineage root" and inv: "planner_inv root p" and root: "planned p root"
  shows "n \<in> set (all_nodes root) \<Longrightarrow> planned p n"
proof -
  let ?M = "{n \<in> set (all_nodes root). planned p n}"
  have "set (all_nodes root) \<subseteq> ?M"
  proof (rule closed_all_nodes)
    show "root \<in> ?M" using root all_nodes_self by simp
    fix n d assume n: "n \<in> ?M" and d: "d \<in> set (live_deps n)"
    have node: "Parent d \<in> set (all_nodes root)" using n d all_nodes_step by blast
    show "Parent d \<in> ?M"
    proof (cases "is_shuffle d")
      case False
      then have "set (direct_shuffles (Parent d)) \<subseteq> set (direct_shuffles n)"
        using d by (auto simp: direct_shuffles.simps [of n])
      then show ?thesis using n node by (auto simp: planned_def)
    next
      case True
      then have "d \<in> set (direct_shuffles n)" using d by (auto simp: direct_shuffles.simps [of n])
      then obtain i where i: "shuffleStages p (dep_shuffleID d) = Some i"
        using n by (auto simp: planned_def)
      then have "i < length (pl_stages p)" "st_ShuffleID (pl_stages p ! i) = dep_shuffleID d"
        using inv by (auto simp: planner_inv_def)
      then obtain e pids where e: "pl_stages p ! i = map_stage i e pids" "e \<in> set (all_deps root)"
        "is_shuffle e" "planned p (Parent e)"
        using planner_inv_stage [OF inv] by metis
      then have "e = d"
        using \<open>st_ShuffleID (pl_stages p ! i) = dep_shuffleID d\<close> wf_lineage_dep [OF wf e(2) _ e(3) True]
          n d by (auto simp: all_deps_iff map_stage_def)
      then show ?thesis using e(4) node by simp
    qed
  qed
  then show "n \<in> set (all_nodes root) \<Longrightarrow> planned p n" by blast
qed

lemma parentStages_spec:
  assumes wf: "wf_lineage rdd"
  defines "p0 \<equiv> \<lparr>shuffleStages = Map.empty, pl_stages = [], nextID = 0\<rparr>"
  shows "planner_inv rdd (snd (parentStages p0 rdd))"
    and "planned (snd (parentStages p0 rdd)) rdd"
    and "set (fst (parentStages p0 rdd)) = indexes (snd (parentStages p0 rdd)) rdd"
proof -
  have "planner_inv rdd p0" by (simp add: p0_def planner_inv_def)
  then have post: "loop_post rdd [] [rdd] [] p0 (fst (parentStages p0 rdd)) (snd (parentStages p0 rdd))"
    using planner_posts(1) [OF wf, of p0 "[rdd]" False "[]" "[]"] all_nodes_self
    by (simp add: parentStages_def)
  then show "planner_inv rdd (snd (parentStages p0 rdd))" by (simp add: loop_post_def plan_step_def)
  show "planned (snd (parentStages p0 rdd)) rdd"
    and "set (fst (parentStages p0 rdd)) = indexes (snd (parentStages p0 rdd)) rdd"
    by (rule loop_post_complete [OF post])+
qed

text \<open>The stages before their hints are filled in.\<close>

lemma planner_stages_ok:
  assumes inv: "planner_inv rdd p" and res: "st_ID result = nextID p" "st_Kind result = StageResult"
    "distinct (st_Parents result)" "set (st_Parents result) = indexes p rdd"
    and out: "list_all2 (\<lambda>st st'. \<exists>h b. st' = st\<lparr>st_CacheHints := h, st_RangeSort := b\<rparr>)
        (pl_stages p @ [result]) out"
  shows "plan_ok \<lparr>jp_Spec = spec, jp_Stages = out, jp_ResultStageID = nextID p, jp_sortLess = lts\<rparr>"
proof -
  let ?n = "length (pl_stages p)" and ?stages = "pl_stages p @ [result]"
  have len: "length out = Suc ?n" using list_all2_lengthD [OF out] by simp
  have nxt: "nextID p = ?n" using inv by (simp add: planner_inv_def)
  have upd: "\<exists>h b. out ! i = (?stages ! i)\<lparr>st_CacheHints := h, st_RangeSort := b\<rparr>" if "i < Suc ?n" for i
    using list_all2_nthD [OF out, of i] that by simp
  have old: "\<exists>d pids. pl_stages p ! i = map_stage i d pids \<and> shuffleStages p (dep_shuffleID d) = Some i
      \<and> (\<forall>j \<in> set pids. j < i)" if "i < ?n" for i
    by (rule planner_inv_stage [OF inv that]) blast
  have ids: "st_ID (out ! i) = i" if "i < Suc ?n" for i
    using upd [OF that] old [of i] that res(1) nxt
    by (auto simp: nth_append map_stage_def split: if_splits)
  have par: "distinct (st_Parents (out ! i)) \<and> (\<forall>j \<in> set (st_Parents (out ! i)). j < i)"
    if "i < Suc ?n" for i
  proof (cases "i < ?n")
    case True
    then show ?thesis using upd [OF that] old [OF True]
      by (auto simp: nth_append map_stage_def uniqueInts_spec)
  next
    case False
    have "indexes p rdd \<subseteq> {..<?n}" using inv by (auto simp: indexes_def planner_inv_def)
    then show ?thesis using upd [OF that] res(3,4) False that by (auto simp: nth_append less_Suc_eq)
  qed
  have kind: "st_Kind (out ! i) = (if i = ?n then StageResult else StageShuffleMap)"
    if "i < Suc ?n" for i
    using upd [OF that] old [of i] that res(2) by (auto simp: nth_append map_stage_def)
  have "inj_on (\<lambda>i. st_ShuffleID (out ! i)) {..<?n}"
  proof (rule inj_onI)
    fix i j assume ij: "i \<in> {..<?n}" "j \<in> {..<?n}" "st_ShuffleID (out ! i) = st_ShuffleID (out ! j)"
    obtain d where "st_ShuffleID (out ! i) = dep_shuffleID d" "shuffleStages p (dep_shuffleID d) = Some i"
      using upd [of i] old [of i] ij(1) by (auto simp: nth_append map_stage_def)
    moreover obtain e where "st_ShuffleID (out ! j) = dep_shuffleID e" "shuffleStages p (dep_shuffleID e) = Some j"
      using upd [of j] old [of j] ij(2) by (auto simp: nth_append map_stage_def)
    ultimately show "i = j" using ij(3) by simp
  qed
  moreover have "map st_ShuffleID (butlast out) = map (\<lambda>i. st_ShuffleID (out ! i)) [0..<?n]"
    by (rule nth_equalityI) (auto simp: len nth_butlast)
  ultimately have "distinct (map st_ShuffleID (butlast out))"
    by (simp add: distinct_map atLeast0LessThan)
  moreover have "map st_ID out = [0..<Suc ?n]"
    by (rule nth_equalityI) (auto simp: len ids simp del: upt_Suc)
  ultimately show ?thesis
    using par kind ids unfolding plan_ok_def by (auto simp: len nxt all_set_conv_all_nth [of out] Let_def simp del: upt_Suc)
qed


lemma stage_computes_out:
  assumes inv: "planner_inv rdd p"
    and pairs: "map (\<lambda>s. (st_ID s, st_ShuffleID s)) (butlast (jp_Stages plan))
      = map (\<lambda>s. (st_ID s, st_ShuffleID s)) (pl_stages p)"
    and r: "planned p r" "set (st_Parents st) = indexes p r" "st_RDDID st = rdd_ID r"
      "st_NumPartitions st = length (rdd_Partitions r)"
  shows "stage_computes plan st r"
proof -
  have conv: "(\<exists>s \<in> set xs. P (st_ID s) (st_ShuffleID s)) \<longleftrightarrow>
      (\<exists>q \<in> set (map (\<lambda>s. (st_ID s, st_ShuffleID s)) xs). P (fst q) (snd q))" for P and xs :: "Stage list"
    by auto
  have same: "(\<exists>s \<in> set (butlast (jp_Stages plan)). P (st_ID s) (st_ShuffleID s))
      \<longleftrightarrow> (\<exists>s \<in> set (pl_stages p). P (st_ID s) (st_ShuffleID s))" for P
    unfolding conv pairs ..
  have "\<exists>s \<in> set (butlast (jp_Stages plan)). st_ShuffleID s = dep_shuffleID e"
    if e: "e \<in> set (direct_shuffles r)" for e
  proof -
    obtain i where "shuffleStages p (dep_shuffleID e) = Some i"
      using r(1) e by (auto simp: planned_def)
    then have "\<exists>s \<in> set (pl_stages p). st_ShuffleID s = dep_shuffleID e"
      using inv unfolding planner_inv_def by (metis nth_mem)
    then show ?thesis using same [of "\<lambda>_ q. q = dep_shuffleID e"] by simp
  qed
  moreover have "indexes p r = {st_ID s |s. s \<in> set (butlast (jp_Stages plan)) \<and>
       (\<exists>e \<in> set (direct_shuffles r). st_ShuffleID s = dep_shuffleID e)}"
  proof (rule set_eqI)
    fix x
    show "x \<in> indexes p r \<longleftrightarrow> x \<in> {st_ID s |s. s \<in> set (butlast (jp_Stages plan)) \<and>
       (\<exists>e \<in> set (direct_shuffles r). st_ShuffleID s = dep_shuffleID e)}"
      using same [of "\<lambda>i q. x = i \<and> (\<exists>e \<in> set (direct_shuffles r). q = dep_shuffleID e)"]
      unfolding planner_indexes [OF inv] by blast
  qed
  ultimately show ?thesis unfolding stage_computes_def using r by simp
qed

lemma planned_stage_dep:
  assumes inv: "planner_inv rdd p" and s: "s \<in> set (pl_stages p)"
  shows "\<exists>d pids. s = map_stage (st_ID s) d pids \<and> d \<in> set (all_deps rdd) \<and> is_shuffle d"
proof -
  obtain i where i: "i < length (pl_stages p)" "s = pl_stages p ! i" using s by (auto simp: in_set_conv_nth)
  show ?thesis by (rule planner_inv_stage [OF inv i(1)]) (auto simp: i(2) map_stage_def)
qed

lemma PlanRDD_spec:
  assumes wf: "wf_lineage rdd"
  shows "\<exists>plan. PlanRDD (Some rdd) spec = Inr plan \<and> jp_Spec plan = spec \<and> plan_ok plan \<and>
    stage_computes plan (last (jp_Stages plan)) rdd \<and>
    (\<forall>d \<in> set (all_deps rdd). is_shuffle d \<longrightarrow> (\<exists>st \<in> set (butlast (jp_Stages plan)).
       st_ShuffleID st = dep_shuffleID d \<and> stage_computes plan st (Parent d) \<and>
       (st_RangeSort st \<longleftrightarrow> range_sorted d))) \<and>
    (\<forall>st \<in> set (jp_Stages plan). st_RangeSort st \<longrightarrow> jp_sortLess plan (st_ID st) \<noteq> None)"
proof -
  define st where "st = parentStages \<lparr>shuffleStages = Map.empty, pl_stages = [], nextID = 0\<rparr> rdd"
  define p where "p = snd st"
  define result where "result = \<lparr>st_ID = nextID p, st_Kind = StageResult, st_RDDID = rdd_ID rdd,
      st_RDDName = rdd_Name rdd, st_NumPartitions = length (rdd_Partitions rdd),
      st_ShuffleID = 0, st_NumReducers = 0, st_Parents = uniqueInts (fst st),
      st_CacheHints = [], st_RangeSort = False\<rparr>"
  let ?n = "length (pl_stages p)"
  have inv: "planner_inv rdd p" and root: "planned p rdd" and ids: "set (fst st) = indexes p rdd"
    using parentStages_spec [OF wf] by (simp_all add: p_def st_def)
  note old = planned_stage_dep [OF inv]
  have found: "findShuffleDep rdd (st_ShuffleID s) \<noteq> None"
    if "s \<in> set (pl_stages p @ [result])" "st_Kind s = StageShuffleMap" for s
  proof -
    have "s \<in> set (pl_stages p)" using that by (auto simp: result_def)
    then obtain d where "st_ShuffleID s = dep_shuffleID d" "d \<in> set (all_deps rdd)" "is_shuffle d"
      using old [of s] by (auto simp: map_stage_def) (metis Stage.select_convs(6))
    then show ?thesis using findShuffleDep_spec [OF wf, of "dep_shuffleID d" d] by simp
  qed
  have plain: "\<not> st_RangeSort s" if "s \<in> set (pl_stages p @ [result])" for s
    using that old [of s] by (auto simp: result_def map_stage_def) (metis Stage.select_convs(10))
  from finish_stages_spec [OF found plain, of "pl_stages p @ [result]" Map.empty]
  obtain out lts where fin: "finish_stages rdd (pl_stages p @ [result]) Map.empty = Inr (out, lts)"
    and rel: "list_all2 (\<lambda>st st'. \<exists>h b. st' = st\<lparr>st_CacheHints := h, st_RangeSort := b\<rparr> \<and>
       (b \<longleftrightarrow> st_Kind st = StageShuffleMap \<and>
          range_sorted (the (findShuffleDep rdd (st_ShuffleID st))))) (pl_stages p @ [result]) out"
    and lts: "\<forall>i. lts i = None \<longleftrightarrow> (\<forall>st \<in> set out. st_RangeSort st \<longrightarrow> st_ID st \<noteq> i)"
    by auto
  define plan where "plan = \<lparr>jp_Spec = spec, jp_Stages = out, jp_ResultStageID = nextID p, jp_sortLess = lts\<rparr>"
  have run: "PlanRDD (Some rdd) spec = Inr plan"
    using fin by (simp add: PlanRDD_def plan_def st_def p_def result_def Let_def)
  have rel0: "list_all2 (\<lambda>st st'. \<exists>h b. st' = st\<lparr>st_CacheHints := h, st_RangeSort := b\<rparr>)
      (pl_stages p @ [result]) out"
    using rel by (rule list_all2_mono) blast
  have ok: "plan_ok plan"
    unfolding plan_def
    by (rule planner_stages_ok [OF inv _ _ _ _ rel0]) (simp_all add: result_def uniqueInts_spec ids)
  obtain outs h b where out: "out = outs @ [result\<lparr>st_CacheHints := h, st_RangeSort := b\<rparr>]"
    and outs: "list_all2 (\<lambda>st st'. \<exists>h b. st' = st\<lparr>st_CacheHints := h, st_RangeSort := b\<rparr> \<and>
       (b \<longleftrightarrow> st_Kind st = StageShuffleMap \<and>
          range_sorted (the (findShuffleDep rdd (st_ShuffleID st))))) (pl_stages p) outs"
    using rel by (auto simp: list_all2_append1 list_all2_Cons1)
  have pairs: "map (\<lambda>s. (st_ID s, st_ShuffleID s)) (butlast (jp_Stages plan))
      = map (\<lambda>s. (st_ID s, st_ShuffleID s)) (pl_stages p)"
    using outs by (simp add: plan_def out) (induction rule: list_all2_induct, auto)
  have "stage_computes plan (last (jp_Stages plan)) rdd"
    by (rule stage_computes_out [OF inv pairs root])
      (simp_all add: plan_def out result_def uniqueInts_spec ids)
  moreover have "\<exists>st \<in> set (butlast (jp_Stages plan)). st_ShuffleID st = dep_shuffleID d \<and>
      stage_computes plan st (Parent d) \<and> (st_RangeSort st \<longleftrightarrow> range_sorted d)"
    if d: "d \<in> set (all_deps rdd)" "is_shuffle d" for d
  proof -
    obtain n where n: "n \<in> set (all_nodes rdd)" "d \<in> set (live_deps n)" using d by (auto simp: all_deps_iff)
    then have "d \<in> set (direct_shuffles n)" using d(2) by (auto simp: direct_shuffles.simps [of n])
    then obtain i where "shuffleStages p (dep_shuffleID d) = Some i"
      using planned_everywhere [OF wf inv root n(1)] by (auto simp: planned_def)
    then have i: "i < ?n" "st_ShuffleID (pl_stages p ! i) = dep_shuffleID d"
      using inv by (auto simp: planner_inv_def)
    obtain e pids where e: "pl_stages p ! i = map_stage i e pids" "e \<in> set (all_deps rdd)"
      "is_shuffle e" "planned p (Parent e)" "set pids = indexes p (Parent e)"
      by (rule planner_inv_stage [OF inv i(1)])
    have ed: "e = d" using wf_lineage_dep [OF wf e(2) d(1) e(3) d(2)] i(2) e(1) by (simp add: map_stage_def)
    have dep: "findShuffleDep rdd (dep_shuffleID d) = Some d" using findShuffleDep_spec [OF wf] d by simp
    obtain h' b' where o: "outs ! i = (map_stage i d pids)\<lparr>st_CacheHints := h', st_RangeSort := b'\<rparr>"
      "b' \<longleftrightarrow> range_sorted d"
      using list_all2_nthD [OF outs i(1)] e(1) ed dep by (auto simp: map_stage_def)
    have "stage_computes plan (outs ! i) (Parent d)"
      by (rule stage_computes_out [OF inv pairs e(4) [unfolded ed]])
        (simp_all add: o map_stage_def uniqueInts_spec e(5) ed)
    moreover have "outs ! i \<in> set (butlast (jp_Stages plan))"
      using list_all2_lengthD [OF outs] i(1) by (simp add: plan_def out)
    moreover have "st_ShuffleID (outs ! i) = dep_shuffleID d" "st_RangeSort (outs ! i) \<longleftrightarrow> range_sorted d"
      using o by (simp_all add: map_stage_def)
    ultimately show ?thesis by (intro bexI [of _ "outs ! i"]) simp_all
  qed
  moreover have "\<forall>st \<in> set (jp_Stages plan). st_RangeSort st \<longrightarrow> jp_sortLess plan (st_ID st) \<noteq> None"
    using lts by (auto simp: plan_def)
  ultimately show ?thesis using run ok by (intro exI [of _ plan]) (simp add: plan_def)
qed


text \<open>The reducers of a map stage are the partitions of its shuffle's partitioner.\<close>

lemma finish_stages_fields:
  assumes "finish_stages rdd stages lts = Inr (out, lts')"
  shows "list_all2 (\<lambda>st st'. st_ID st' = st_ID st \<and> st_Kind st' = st_Kind st \<and> st_ShuffleID st' = st_ShuffleID st \<and>
    st_NumReducers st' = st_NumReducers st) stages out"
  using assms
proof (induction stages arbitrary: lts out)
  case (Cons st stages)
  obtain st1 lts1 out1 where "finish_stages rdd stages lts1 = Inr (out1, lts')" "out = st1 # out1"
    "st_ID st1 = st_ID st" "st_Kind st1 = st_Kind st" "st_ShuffleID st1 = st_ShuffleID st" "st_NumReducers st1 = st_NumReducers st"
    using Cons.prems by (auto simp: bindR_Inr_conv Let_def split: if_splits option.splits)
  then show ?case using Cons.IH by simp
qed simp

lemma PlanRDD_reducers:
  assumes wf: "wf_lineage rdd" and plan: "PlanRDD (Some rdd) spec = Inr plan"
    and st: "st \<in> set (jp_Stages plan)" "st_Kind st = StageShuffleMap"
  shows "\<exists>d. findShuffleDep rdd (st_ShuffleID st) = Some d \<and>
    st_NumReducers st = (case dep_partitioner d of None \<Rightarrow> 0 | Some p \<Rightarrow> NumPartitions p)"
proof -
  define p where "p = snd (parentStages \<lparr>shuffleStages = Map.empty, pl_stages = [], nextID = 0\<rparr> rdd)"
  have inv: "planner_inv rdd p" using parentStages_spec [OF wf] by (simp add: p_def)
  define result where "result = \<lparr>st_ID = nextID p, st_Kind = StageResult, st_RDDID = rdd_ID rdd,
      st_RDDName = rdd_Name rdd, st_NumPartitions = length (rdd_Partitions rdd), st_ShuffleID = 0, st_NumReducers = 0,
      st_Parents = uniqueInts (fst (parentStages \<lparr>shuffleStages = Map.empty, pl_stages = [], nextID = 0\<rparr> rdd)),
      st_CacheHints = [], st_RangeSort = False\<rparr>"
  have result: "st_Kind result = StageResult" by (simp add: result_def)
  have "bindR (finish_stages rdd (pl_stages p @ [result]) Map.empty) (\<lambda>(stages, lts).
      Inr \<lparr>jp_Spec = spec, jp_Stages = stages, jp_ResultStageID = nextID p, jp_sortLess = lts\<rparr>) = Inr plan"
    using plan by (simp add: PlanRDD_def Let_def p_def result_def)
  then obtain lts where fin: "finish_stages rdd (pl_stages p @ [result]) Map.empty = Inr (jp_Stages plan, lts)"
    by (auto simp: bindR_Inr_conv)
  obtain s where s: "s \<in> set (pl_stages p @ [result])" "st_Kind st = st_Kind s" "st_ShuffleID st = st_ShuffleID s"
      "st_NumReducers st = st_NumReducers s"
    using finish_stages_fields [OF fin] st(1) unfolding list_all2_conv_all_nth in_set_conv_nth by metis
  then have "s \<in> set (pl_stages p)" using result st(2) by auto
  then obtain d pids where d: "s = map_stage (st_ID s) d pids" "d \<in> set (all_deps rdd)" "is_shuffle d"
    using planned_stage_dep [OF inv] by blast
  have "st_ShuffleID s = dep_shuffleID d" "st_NumReducers s = (case dep_partitioner d of None \<Rightarrow> 0 | Some p \<Rightarrow> NumPartitions p)"
    by (subst d(1), simp add: map_stage_def)+
  then show ?thesis using s(3,4) findShuffleDep_spec [OF wf, of "dep_shuffleID d" d] d(2,3) by simp
qed

section \<open>The narrow walk\<close>

text \<open>The partitions a task computes: those reached from its own through narrow dependencies.\<close>

inductive_set narrow_reach :: "RDD \<Rightarrow> int \<Rightarrow> (RDD \<times> int) set" for root part where
  here: "(root, part) \<in> narrow_reach root part"
| up: "(r, q) \<in> narrow_reach root part \<Longrightarrow> d \<in> set (live_deps r) \<Longrightarrow> \<not> is_shuffle d \<Longrightarrow>
     q' \<in> set (GetParents d q) \<Longrightarrow> (Parent d, q') \<in> narrow_reach root part"

definition visit_key :: "RDD \<times> int \<Rightarrow> nat \<times> int" where
  "visit_key v = (rdd_ID (fst v), snd v)"

definition narrow_closed :: "(RDD \<times> int) set \<Rightarrow> bool" where
  "narrow_closed R \<longleftrightarrow> (\<forall>(r, q) \<in> R. \<forall>d \<in> set (live_deps r). \<not> is_shuffle d \<longrightarrow>
     (\<forall>q' \<in> set (GetParents d q). (Parent d, q') \<in> R))"

lemma narrow_closed_reach: "narrow_closed (narrow_reach root part)"
  by (auto simp: narrow_closed_def intro: narrow_reach.up)

lemma narrow_reach_least:
  assumes "(root, part) \<in> V" and "narrow_closed V"
  shows "narrow_reach root part \<subseteq> V"
proof -
  have "(r, q) \<in> V" if "(r, q) \<in> narrow_reach root part" for r q
    using that by (induction rule: narrow_reach.induct) (use assms in \<open>auto simp: narrow_closed_def\<close>)
  then show ?thesis by auto
qed

lemma narrow_reach_nodes: "(r, q) \<in> narrow_reach root part \<Longrightarrow> r \<in> set (all_nodes root)"
  by (induction rule: narrow_reach.induct) (auto intro: all_nodes_self all_nodes_step)

text \<open>
  A client of the walk says what each of its two actions adds to the view \<open>abs\<close> of its result;
  the walk then adds exactly what the reachable partitions add, each visited once.
\<close>

locale narrow_visitor =
  fixes nodef :: "RDD \<Rightarrow> int \<Rightarrow> 'a \<Rightarrow> 'a"
    and shuf :: "Dependency \<Rightarrow> int \<Rightarrow> 'a \<Rightarrow> 'a"
    and abs :: "'a \<Rightarrow> 'b set"
    and N :: "RDD \<Rightarrow> int \<Rightarrow> 'b set"
    and S :: "Dependency \<Rightarrow> int \<Rightarrow> 'b set"
  assumes abs_node: "abs (nodef r q a) = abs a \<union> N r q"
    and abs_shuf: "abs (shuf d q a) = abs a \<union> S d q"
begin

definition deps_contrib :: "Dependency list \<Rightarrow> int \<Rightarrow> 'b set" where
  "deps_contrib ds q = (\<Union>d \<in> {d \<in> set ds. is_shuffle d}. S d q)"

definition contrib :: "RDD \<times> int \<Rightarrow> 'b set" where
  "contrib v = N (fst v) (snd v) \<union> deps_contrib (live_deps (fst v)) (snd v)"

definition narrow_in :: "(RDD \<times> int) set \<Rightarrow> Dependency list \<Rightarrow> int \<Rightarrow> bool" where
  "narrow_in R ds q \<longleftrightarrow>
     (\<forall>d \<in> set ds. \<not> is_shuffle d \<longrightarrow> (\<forall>q' \<in> set (GetParents d q). (Parent d, q') \<in> R))"

definition narrow_seen :: "(nat \<times> int) set \<Rightarrow> Dependency list \<Rightarrow> int \<Rightarrow> bool" where
  "narrow_seen K ds q \<longleftrightarrow>
     (\<forall>d \<in> set ds. \<not> is_shuffle d \<longrightarrow> (\<forall>q' \<in> set (GetParents d q). (rdd_ID (Parent d), q') \<in> K))"

lemma narrow_seen_mono: "narrow_seen K ds q \<Longrightarrow> K \<subseteq> K' \<Longrightarrow> narrow_seen K' ds q"
  by (auto simp: narrow_seen_def)

definition walked :: "(RDD \<times> int) set \<Rightarrow> (nat \<times> int) list \<Rightarrow> (RDD \<times> int) set \<Rightarrow> (nat \<times> int) list \<Rightarrow> bool" where
  "walked R seen V seen' \<longleftrightarrow> V \<subseteq> R \<and> set seen' = set seen \<union> visit_key ` V \<and>
     (\<forall>v \<in> V. narrow_seen (set seen') (live_deps (fst v)) (snd v))"

lemma walked_trans:
  assumes "walked R s0 V s1" and "walked R s1 W s2"
  shows "walked R s0 (V \<union> W) s2"
proof -
  have "set s1 \<subseteq> set s2" using assms(2) by (auto simp: walked_def)
  then show ?thesis using assms narrow_seen_mono by (auto simp: walked_def image_Un)
qed

definition walk_post where
  "walk_post R seen acc K C res \<longleftrightarrow> (\<exists>V. walked R seen V (fst res) \<and> K (set (fst res)) \<and>
     abs (snd res) = abs acc \<union> C \<union> (\<Union>v \<in> V. contrib v))"

lemma walked_seen: "walked R seen V seen' \<Longrightarrow> set seen \<subseteq> set seen'"
  by (auto simp: walked_def)

lemma walk_spec:
  assumes R: "narrow_closed R"
  shows "nf = nodef \<Longrightarrow> sf = shuf \<Longrightarrow> (r, q) \<in> R \<Longrightarrow>
      walk_post R seen acc (\<lambda>K. (rdd_ID r, q) \<in> K) {} (walk_node nf sf seen acc r q)"
    and "nf2 = nodef \<Longrightarrow> sf2 = shuf \<Longrightarrow> narrow_in R ds q2 \<Longrightarrow>
      walk_post R seen2 acc2 (\<lambda>K. narrow_seen K ds q2) (deps_contrib ds q2)
        (walk_deps nf2 sf2 seen2 acc2 ds q2)"
    and "nf3 = nodef \<Longrightarrow> sf3 = shuf \<Longrightarrow> \<forall>q' \<in> set qs. (p, q') \<in> R \<Longrightarrow>
      walk_post R seen3 acc3 (\<lambda>K. \<forall>q' \<in> set qs. (rdd_ID p, q') \<in> K) {}
        (walk_pids nf3 sf3 seen3 acc3 p qs)"
proof (induction nf sf seen acc r q and nf2 sf2 seen2 acc2 ds q2 and nf3 sf3 seen3 acc3 p qs
    rule: walk_node_walk_deps_walk_pids.induct)
  case (1 nf sf seen acc r q)
  show ?case
  proof (cases "(rdd_ID r, q) \<in> set seen")
    case True
    then show ?thesis by (auto simp: walk_post_def walked_def intro!: exI [of _ "{}"])
  next
    case False
    let ?seen = "(rdd_ID r, q) # seen" and ?res = "walk_node nf sf seen acc r q"
    have eq: "?res = walk_deps nf sf ?seen (nf r q acc) (live_deps r) q" using False by simp
    have r: "(r, q) \<in> R" by (rule 1(4))
    have "narrow_in R (live_deps r) q" using R r by (auto simp: narrow_in_def narrow_closed_def)
    with 1 False obtain V where V: "walked R ?seen V (fst ?res)"
      "narrow_seen (set (fst ?res)) (live_deps r) q"
      "abs (snd ?res) = abs (nodef r q acc) \<union> deps_contrib (live_deps r) q \<union> (\<Union>v \<in> V. contrib v)"
      unfolding eq walk_post_def by blast
    have "walked R seen (insert (r, q) V) (fst ?res)"
      using V(1,2) r unfolding walked_def by (auto simp: visit_key_def)
    moreover have "(rdd_ID r, q) \<in> set (fst ?res)" using walked_seen [OF V(1)] by simp
    moreover have "abs (snd ?res) = abs acc \<union> {} \<union> (\<Union>v \<in> insert (r, q) V. contrib v)"
      using V(3) by (auto simp: abs_node contrib_def)
    ultimately show ?thesis unfolding walk_post_def by blast
  qed
next
  case (2 nf sf seen acc q)
  show ?case by (auto simp: walk_post_def walked_def narrow_seen_def deps_contrib_def intro!: exI [of _ "{}"])
next
  case (3 nf sf seen acc d ds q)
  have tail: "narrow_in R ds q" using 3(6) by (simp add: narrow_in_def)
  show ?case
  proof (cases "is_shuffle d")
    case True
    have eq: "walk_deps nf sf seen acc (d # ds) q = walk_deps nf sf seen (sf d q acc) ds q"
      using True by simp
    have "deps_contrib (d # ds) q = S d q \<union> deps_contrib ds q" using True by (auto simp: deps_contrib_def)
    moreover have "narrow_seen K (d # ds) q = narrow_seen K ds q" for K
      using True by (simp add: narrow_seen_def)
    ultimately show ?thesis
      using 3(1) [OF True 3(4,5) tail] unfolding eq walk_post_def by (simp add: 3(5) abs_shuf Un_assoc)
  next
    case False
    define st where "st = walk_pids nf sf seen acc (Parent d) (GetParents d q)"
    define res where "res = walk_deps nf sf (fst st) (snd st) ds q"
    have eq: "walk_deps nf sf seen acc (d # ds) q = res" using False by (simp add: res_def st_def Let_def)
    have "\<forall>q' \<in> set (GetParents d q). (Parent d, q') \<in> R" using 3(6) False by (simp add: narrow_in_def)
    from 3(2) [OF False 3(4,5) this] obtain V where V: "walked R seen V (fst st)"
      "\<forall>q' \<in> set (GetParents d q). (rdd_ID (Parent d), q') \<in> set (fst st)"
      "abs (snd st) = abs acc \<union> (\<Union>v \<in> V. contrib v)"
      unfolding walk_post_def st_def by auto
    from 3(3) [OF False st_def 3(4,5) tail] obtain W where W: "walked R (fst st) W (fst res)"
      "narrow_seen (set (fst res)) ds q"
      "abs (snd res) = abs (snd st) \<union> deps_contrib ds q \<union> (\<Union>v \<in> W. contrib v)"
      unfolding walk_post_def res_def by auto
    have "narrow_seen (set (fst res)) (d # ds) q"
      using V(2) W(2) walked_seen [OF W(1)] by (auto simp: narrow_seen_def)
    moreover have "deps_contrib (d # ds) q = deps_contrib ds q" using False by (auto simp: deps_contrib_def)
    ultimately show ?thesis
      unfolding eq walk_post_def using walked_trans [OF V(1) W(1)] V(3) W(3)
      by (intro exI [of _ "V \<union> W"]) auto
  qed
next
  case (4 nf sf seen acc p)
  show ?case by (auto simp: walk_post_def walked_def intro!: exI [of _ "{}"])
next
  case (5 nf sf seen acc p q qs)
  define st where "st = walk_node nf sf seen acc p q"
  define res where "res = walk_pids nf sf (fst st) (snd st) p qs"
  have eq: "walk_pids nf sf seen acc p (q # qs) = res" by (simp add: res_def st_def Let_def)
  from 5(1) [OF 5(3,4)] 5(5) obtain V where V: "walked R seen V (fst st)" "(rdd_ID p, q) \<in> set (fst st)"
    "abs (snd st) = abs acc \<union> (\<Union>v \<in> V. contrib v)"
    unfolding walk_post_def st_def by auto
  from 5(2) [OF st_def 5(3,4)] 5(5) obtain W where W: "walked R (fst st) W (fst res)"
    "\<forall>q' \<in> set qs. (rdd_ID p, q') \<in> set (fst res)"
    "abs (snd res) = abs (snd st) \<union> (\<Union>v \<in> W. contrib v)"
    unfolding walk_post_def res_def by auto
  show ?case
    unfolding eq walk_post_def using walked_trans [OF V(1) W(1)] V(2,3) W(2,3) walked_seen [OF W(1)]
    by (intro exI [of _ "V \<union> W"]) auto
qed

lemma walk_node_reach:
  assumes wf: "wf_lineage root"
  shows "abs (snd (walk_node nodef shuf [] acc root part))
    = abs acc \<union> (\<Union>v \<in> narrow_reach root part. contrib v)"
proof -
  let ?R = "narrow_reach root part" and ?res = "walk_node nodef shuf [] acc root part"
  from walk_spec(1) [OF narrow_closed_reach refl refl narrow_reach.here, of root part "[]" acc]
  obtain V where V: "walked ?R [] V (fst ?res)" "(rdd_ID root, part) \<in> set (fst ?res)"
    "abs (snd ?res) = abs acc \<union> (\<Union>v \<in> V. contrib v)"
    unfolding walk_post_def by (auto simp del: walk_node.simps)
  have inj: "v \<in> V" if "v \<in> ?R" "visit_key v \<in> visit_key ` V" for v
  proof -
    obtain u where u: "u \<in> V" "visit_key u = visit_key v" using \<open>visit_key v \<in> visit_key ` V\<close> by auto
    then have "u \<in> ?R" using V(1) by (auto simp: walked_def)
    then have "fst u \<in> set (all_nodes root)" "fst v \<in> set (all_nodes root)"
      using that(1) narrow_reach_nodes by (metis prod.collapse)+
    then have "u = v" using u(2) wf by (auto simp: visit_key_def wf_lineage_def prod_eq_iff)
    then show ?thesis using u(1) by simp
  qed
  have keys: "set (fst ?res) = visit_key ` V" using V(1) by (simp add: walked_def)
  have "narrow_closed V"
    unfolding narrow_closed_def
  proof (clarify)
    fix r q d q' assume v: "(r, q) \<in> V" "d \<in> set (live_deps r)" "\<not> is_shuffle d" "q' \<in> set (GetParents d q)"
    then have "(rdd_ID (Parent d), q') \<in> visit_key ` V" using V(1) keys by (fastforce simp: walked_def narrow_seen_def)
    moreover have "(Parent d, q') \<in> ?R"
      using v V(1) by (auto simp: walked_def intro: narrow_reach.up)
    ultimately show "(Parent d, q') \<in> V" using inj by (simp add: visit_key_def)
  qed
  moreover have "(root, part) \<in> V"
    using V(2) inj narrow_reach.here keys by (simp add: visit_key_def)
  ultimately have "V = ?R" using narrow_reach_least V(1) by (auto simp: walked_def)
  then show ?thesis using V(3) by simp
qed

end


section \<open>Buckets and hints of a task\<close>

definition needed_buckets :: "int \<Rightarrow> int \<Rightarrow> int set" where
  "needed_buckets n q = (if n = 1 then {0} else if 0 \<le> q \<and> q < n then {q} else {0..<n})"

definition want_view :: "(nat \<rightharpoonup> int list) \<Rightarrow> (nat \<times> int option) set" where
  "want_view want = {(sid, b). \<exists>bs. want sid = Some bs \<and> (case b of None \<Rightarrow> True | Some x \<Rightarrow> x \<in> set bs)}"

definition dep_view :: "Dependency \<Rightarrow> int \<Rightarrow> (nat \<times> int option) set" where
  "dep_view d q = (case dep_partitioner d of None \<Rightarrow> {} | Some p \<Rightarrow>
     {(dep_shuffleID d, b) |b. case b of None \<Rightarrow> True | Some x \<Rightarrow> x \<in> needed_buckets (NumPartitions p) q})"

lemma set_fold_insert: "set (fold List.insert xs ys) = set xs \<union> set ys"
  by (induction xs arbitrary: ys) auto

lemma want_view_upd:
  "want_view (want(sid \<mapsto> bs)) =
     {(s, b) \<in> want_view want. s \<noteq> sid} \<union> {(sid, b) |b. case b of None \<Rightarrow> True | Some x \<Rightarrow> x \<in> set bs}"
  by (auto simp: want_view_def split: if_splits)

lemma want_view_old:
  "want_view want = {(s, b) \<in> want_view want. s \<noteq> sid} \<union>
     (case want sid of None \<Rightarrow> {} | Some bs \<Rightarrow> {(sid, b) |b. case b of None \<Rightarrow> True | Some x \<Rightarrow> x \<in> set bs})"
  by (auto simp: want_view_def split: option.splits)

lemma want_view_want_buckets: "want_view (want_buckets d q want) = want_view want \<union> dep_view d q"
proof (cases "dep_partitioner d")
  case None
  then show ?thesis by (simp add: want_buckets_def dep_view_def)
next
  case (Some p)
  let ?sid = "dep_shuffleID d"
  define old where "old = (case want ?sid of None \<Rightarrow> [] | Some rs \<Rightarrow> rs)"
  define n where "n = NumPartitions p"
  define bs where "bs = (if n = 1 then List.insert 0 old else if 0 \<le> q \<and> q < n then List.insert q old
      else fold List.insert [0..n - 1] old)"
  have bs: "want_buckets d q want = want(?sid \<mapsto> bs)" "set bs = needed_buckets n q \<union> set old"
    using Some
    by (simp add: want_buckets_def Let_def old_def bs_def n_def)
      (auto simp: bs_def needed_buckets_def set_fold_insert)
  show ?thesis
    unfolding bs(1) want_view_upd using want_view_old [of want ?sid] bs(2)
    by (auto simp: dep_view_def Some old_def want_view_def n_def split: option.splits)
qed

interpretation bucket_walk: narrow_visitor "\<lambda>_ _ want. want" want_buckets want_view "\<lambda>_ _. {}" dep_view
  by unfold_locales (auto simp: want_view_want_buckets)

definition hint_view :: "RDD \<Rightarrow> int \<Rightarrow> CachePartition set" where
  "hint_view r q = (if shareable r then {\<lparr>cp_RDDID = rdd_ID r, cp_PartitionID = q\<rparr>} else {})"

interpretation hint_walk: narrow_visitor note_hint "\<lambda>_ _ hints. hints" set hint_view "\<lambda>_ _. {}"
  by unfold_locales (auto simp: note_hint_def hint_view_def)

lemma bex_pair: "(\<exists>v \<in> R. P v) \<longleftrightarrow> (\<exists>r q. (r, q) \<in> R \<and> P (r, q))"
  by auto

lemma requiredShuffleBuckets_spec:
  assumes "wf_lineage root"
  shows "(\<exists>bs. requiredShuffleBuckets root part sid = Some bs \<and> b \<in> set bs) \<longleftrightarrow>
    (\<exists>r q d p. (r, q) \<in> narrow_reach root part \<and> d \<in> set (live_deps r) \<and> is_shuffle d \<and>
       dep_shuffleID d = sid \<and> dep_partitioner d = Some p \<and> b \<in> needed_buckets (NumPartitions p) q)"
proof -
  have "(\<exists>bs. requiredShuffleBuckets root part sid = Some bs \<and> b \<in> set bs) \<longleftrightarrow>
      (sid, Some b) \<in> want_view (requiredShuffleBuckets root part)"
    by (simp add: want_view_def)
  also have "\<dots> \<longleftrightarrow> (\<exists>v \<in> narrow_reach root part. (sid, Some b) \<in> bucket_walk.contrib v)"
    unfolding requiredShuffleBuckets_def bucket_walk.walk_node_reach [OF assms]
    by (simp add: want_view_def)
  finally have eq: "(\<exists>bs. requiredShuffleBuckets root part sid = Some bs \<and> b \<in> set bs) \<longleftrightarrow>
      (\<exists>v \<in> narrow_reach root part. (sid, Some b) \<in> bucket_walk.contrib v)" .
  have "(sid, Some b) \<in> bucket_walk.contrib (r, q) \<longleftrightarrow> (\<exists>d p. d \<in> set (live_deps r) \<and> is_shuffle d \<and>
       dep_shuffleID d = sid \<and> dep_partitioner d = Some p \<and> b \<in> needed_buckets (NumPartitions p) q)"
    for r q
    unfolding bucket_walk.contrib_def bucket_walk.deps_contrib_def dep_view_def
    by (auto split: option.splits)
  then show ?thesis unfolding eq bex_pair by simp
qed

lemma set_cacheHints:
  assumes "wf_lineage root"
  shows "set (cacheHints root part) = {\<lparr>cp_RDDID = rdd_ID r, cp_PartitionID = q\<rparr> |r q.
    (r, q) \<in> narrow_reach root part \<and> shareable r}"
proof -
  have "hint_walk.contrib (r, q) = hint_view r q" for r q
    by (simp add: hint_walk.contrib_def hint_walk.deps_contrib_def)
  then show ?thesis
    unfolding cacheHints_def set_SliceStable hint_walk.walk_node_reach [OF assms]
    by (auto simp: hint_view_def set_eq_iff bex_pair split: if_splits)
qed

section \<open>Caches that outlive a task\<close>

definition no_shuffle_until :: "RDD \<Rightarrow> nat list \<Rightarrow> nat list \<Rightarrow> bool" where
  "no_shuffle_until root seen seen' \<longleftrightarrow> set seen \<subseteq> set seen' \<and>
     (\<forall>n \<in> seen_nodes root seen' - seen_nodes root seen. \<forall>d \<in> set (live_deps n).
        \<not> is_shuffle d \<and> Parent d \<in> seen_nodes root seen')"

lemma no_shuffle_until_trans:
  assumes "no_shuffle_until root s0 s1" and "no_shuffle_until root s1 s2"
  shows "no_shuffle_until root s0 s2"
proof -
  have "seen_nodes root s1 \<subseteq> seen_nodes root s2"
    using assms(2) by (auto simp: no_shuffle_until_def seen_nodes_def)
  then show ?thesis using assms unfolding no_shuffle_until_def by blast
qed

lemma direct_shuffles_ne:
  "d \<in> set (live_deps r) \<Longrightarrow> is_shuffle d \<or> direct_shuffles (Parent d) \<noteq> [] \<Longrightarrow> direct_shuffles r \<noteq> []"
proof -
  let ?f = "\<lambda>d. if is_shuffle d then [d] else direct_shuffles (Parent d)"
  assume "d \<in> set (live_deps r)" and "is_shuffle d \<or> direct_shuffles (Parent d) \<noteq> []"
  then have "?f d \<in> set (map ?f (live_deps r))" "?f d \<noteq> []" by auto
  then show ?thesis by (subst direct_shuffles.simps) (metis concat_eq_Nil_conv)
qed

lemma across_spec:
  assumes wf: "wf_lineage root"
  shows "r \<in> set (all_nodes root) \<Longrightarrow>
      (if fst (across_node seen r)
       then no_shuffle_until root seen (snd (across_node seen r)) \<and>
         r \<in> seen_nodes root (snd (across_node seen r))
       else direct_shuffles r \<noteq> [])"
    and "\<forall>d \<in> set ds. Parent d \<in> set (all_nodes root) \<Longrightarrow>
      (if fst (across_deps seen2 ds)
       then no_shuffle_until root seen2 (snd (across_deps seen2 ds)) \<and>
         (\<forall>d \<in> set ds. \<not> is_shuffle d \<and> Parent d \<in> seen_nodes root (snd (across_deps seen2 ds)))
       else \<exists>d \<in> set ds. is_shuffle d \<or> direct_shuffles (Parent d) \<noteq> [])"
proof (induction seen r and seen2 ds rule: across_node_across_deps.induct)
  case (1 seen r)
  show ?case
  proof (cases "rdd_ID r \<in> set seen")
    case True
    then show ?thesis using 1 by (simp add: no_shuffle_until_def seen_nodes_def)
  next
    case False
    let ?res = "across_deps (rdd_ID r # seen) (live_deps r)"
    have eq: "across_node seen r = ?res" using False by simp
    have "\<forall>d \<in> set (live_deps r). Parent d \<in> set (all_nodes root)" using 1(2) all_nodes_step by blast
    note IH = 1(1) [OF False this]
    show ?thesis
    proof (cases "fst ?res")
      case True
      then have post: "no_shuffle_until root (rdd_ID r # seen) (snd ?res)"
        "\<forall>d \<in> set (live_deps r). \<not> is_shuffle d \<and> Parent d \<in> seen_nodes root (snd ?res)"
        using IH by simp_all
      have "r \<in> seen_nodes root (snd ?res)"
        using post(1) 1(2) by (simp add: no_shuffle_until_def seen_nodes_def)
      moreover have "no_shuffle_until root seen (snd ?res)"
        using post unfolding no_shuffle_until_def seen_nodes_Cons [OF wf 1(2)] by auto
      ultimately show ?thesis unfolding eq using True by simp
    next
      case nope: False
      then obtain d where "d \<in> set (live_deps r)" "is_shuffle d \<or> direct_shuffles (Parent d) \<noteq> []"
        using IH by auto
      then have "direct_shuffles r \<noteq> []" by (rule direct_shuffles_ne)
      then show ?thesis unfolding eq using nope by simp
    qed
  qed
next
  case (2 seen)
  show ?case by (simp add: no_shuffle_until_def)
next
  case (3 seen d ds)
  define st where "st = across_node seen (Parent d)"
  show ?case
  proof (cases "is_shuffle d \<or> \<not> fst st")
    case True
    then have "\<not> fst (across_deps seen (d # ds))" by (auto simp: st_def Let_def)
    moreover have "is_shuffle d \<or> direct_shuffles (Parent d) \<noteq> []"
    proof (cases "is_shuffle d")
      case False
      then show ?thesis using True 3(1) [OF False] 3(3) by (simp add: st_def split: if_splits)
    qed simp
    ultimately show ?thesis by auto
  next
    case False
    then have d: "\<not> is_shuffle d" "fst st" by auto
    let ?res = "across_deps (snd st) ds"
    have eq: "across_deps seen (d # ds) = ?res" using d by (simp add: st_def Let_def del: across_node.simps)
    have st: "no_shuffle_until root seen (snd st)" "Parent d \<in> seen_nodes root (snd st)"
      using 3(1) [OF d(1)] 3(3) d(2) by (simp_all add: st_def del: across_node.simps)
    note IH = 3(2) [OF d(1) st_def d(2)]
    show ?thesis
    proof (cases "fst ?res")
      case True
      then have post: "no_shuffle_until root (snd st) (snd ?res)"
        "\<forall>d \<in> set ds. \<not> is_shuffle d \<and> Parent d \<in> seen_nodes root (snd ?res)"
        using IH 3(3) by simp_all
      have "Parent d \<in> seen_nodes root (snd ?res)"
        using st(2) post(1) by (auto simp: no_shuffle_until_def seen_nodes_def)
      then show ?thesis
        unfolding eq using True post no_shuffle_until_trans [OF st(1) post(1)] d(1) by simp
    qed (use IH 3(3) eq in auto)
  qed
qed

lemma cacheAcrossTasks_spec:
  assumes "wf_lineage r"
  shows "cacheAcrossTasks r \<longleftrightarrow> direct_shuffles r = []"
proof -
  note spec = across_spec(1) [OF assms all_nodes_self, of "[]"]
  have "direct_shuffles r = []" if c: "cacheAcrossTasks r"
  proof -
    let ?M = "seen_nodes r (snd (across_node [] r))"
    from spec c have M: "no_shuffle_until r [] (snd (across_node [] r))" "r \<in> ?M"
      unfolding cacheAcrossTasks_def by (simp_all del: across_node.simps)
    have "False" if "e \<in> set (direct_shuffles r)" for e
      by (rule closed_direct_shuffles [OF M(2) _ _ that])
        (use M(1) in \<open>auto simp: no_shuffle_until_def seen_nodes_def\<close>)
    then show ?thesis using list.set_intros(1) by (metis neq_Nil_conv)
  qed
  then show ?thesis using spec unfolding cacheAcrossTasks_def
    by (auto simp del: across_node.simps split: if_splits)
qed


section \<open>Properties\<close>

text \<open>A two-input lineage: a shuffled collection, mapped, zipped with a narrow input.\<close>

definition sample_lineage :: RDD where
  "sample_lineage =
     (let src = RDD 1 ''src'' [0, 1, 2] StorageMemory [];
          shuffled = RDD 2 ''shuffled'' [0, 1] StorageNone
            [Some (ShuffleDependency src (Some (HashPartitioner 2)) 1 None)];
          mapped = RDD 3 ''mapped'' [0, 1] StorageNone [Some (OneToOneDependency shuffled)];
          other = RDD 4 ''other'' [0, 1] StorageMemory []
      in RDD 5 ''zip'' [0, 1] StorageNone
           [Some (OneToOneDependency mapped), None, Some (RangeDependency other 0 0 2)])"

lemma wf_sample_lineage: "wf_lineage sample_lineage"
  unfolding wf_lineage_def sample_lineage_def Let_def all_deps_def
  by (simp add: all_nodes_RDD live_deps_def is_shuffle_def)







end
