(* ===== verification/Storage.thy ===== *)
theory Storage
  imports Shuffle
begin

text \<open>
  \<^verbatim>\<open>memfs.go\<close> and \<^verbatim>\<open>storage.go\<close>: the in-memory object store, the buffered writer that publishes an
  object when it is closed, the object operations built from the store's primitives, and the
  resolution of an output URI. The contract of an object store is the locale \<open>object_store\<close>; the
  in-memory store interprets it. Keys are of any type, so that the commit protocol can use paths.
  Locks and the AWS client behind the same interface are not modelled.
\<close>

section \<open>The in-memory store\<close>

type_synonym 'k MemStore = "'k \<rightharpoonup> byte list"

definition ErrExist :: goerr where "ErrExist = Err ''object already exists''"
definition ErrNotFound :: goerr where "ErrNotFound = Err ''memfs: key not found''"
definition ErrClosed :: goerr where "ErrClosed = Err ''file already closed''"

definition ms_Put :: "'k MemStore \<Rightarrow> 'k \<Rightarrow> byte list \<Rightarrow> 'k MemStore res" where
  "ms_Put m key data = Inr (m(key \<mapsto> data))"

definition ms_PutIfAbsent :: "'k MemStore \<Rightarrow> 'k \<Rightarrow> byte list \<Rightarrow> 'k MemStore res" where
  "ms_PutIfAbsent m key data = (if m key \<noteq> None then Inl ErrExist else Inr (m(key \<mapsto> data)))"

definition ms_Get :: "'k MemStore \<Rightarrow> 'k \<Rightarrow> byte list res" where
  "ms_Get m key = (case m key of None \<Rightarrow> Inl ErrNotFound | Some data \<Rightarrow> Inr data)"

definition ms_Head :: "'k MemStore \<Rightarrow> 'k \<Rightarrow> nat res" where
  "ms_Head m key = (case m key of None \<Rightarrow> Inl ErrNotFound | Some data \<Rightarrow> Inr (length data))"

definition ms_Delete :: "'k MemStore \<Rightarrow> 'k \<Rightarrow> 'k MemStore res" where
  "ms_Delete m key = Inr (m(key := None))"

definition ms_Copy :: "'k MemStore \<Rightarrow> 'k \<Rightarrow> 'k \<Rightarrow> 'k MemStore res" where
  "ms_Copy m src dst = bindR (ms_Get m src) (\<lambda>data. ms_Put m dst data)"

text \<open>
  \<^verbatim>\<open>List\<close> ranges over a Go map, in any order: \<open>order\<close> is the enumeration of the keys it meets.
\<close>

definition ms_List :: "string MemStore \<Rightarrow> string list \<Rightarrow> string \<Rightarrow> string list" where
  "ms_List m order pre = filter (\<lambda>k. m k \<noteq> None \<and> (pre = [] \<or> take (length pre) k = pre)) order"

definition storeGetRange :: "('m \<Rightarrow> 'k \<Rightarrow> byte list res) \<Rightarrow> 'm \<Rightarrow> 'k \<Rightarrow> int \<Rightarrow> byte list res" where
  "storeGetRange get st key offset =
     bindR (get st key) (\<lambda>data.
       let offset = (if offset < 0 then 0 else offset);
           offset = (if offset > int (length data) then int (length data) else offset)
       in Inr (drop (nat offset) data))"

section \<open>The contract of an object store\<close>

locale object_store =
  fixes Get :: "'m \<Rightarrow> 'k \<Rightarrow> byte list res"
    and Put :: "'m \<Rightarrow> 'k \<Rightarrow> byte list \<Rightarrow> 'm res"
    and PutIfAbsent :: "'m \<Rightarrow> 'k \<Rightarrow> byte list \<Rightarrow> 'm res"
    and Delete :: "'m \<Rightarrow> 'k \<Rightarrow> 'm res"
    and Copy :: "'m \<Rightarrow> 'k \<Rightarrow> 'k \<Rightarrow> 'm res"
    and content :: "'m \<Rightarrow> 'k \<rightharpoonup> byte list"
  assumes Get_content: "Get m k = Inr d \<longleftrightarrow> content m k = Some d"
    and Put_content: "Put m k d = Inr m' \<Longrightarrow> content m' = (content m)(k \<mapsto> d)"
    and PutIfAbsent_present: "content m k \<noteq> None \<Longrightarrow> \<exists>e. PutIfAbsent m k d = Inl e"
    and PutIfAbsent_content: "PutIfAbsent m k d = Inr m' \<Longrightarrow> content m' = (content m)(k \<mapsto> d)"
    and Delete_content: "Delete m k = Inr m' \<Longrightarrow> content m' = (content m)(k := None)"
    and Copy_content: "Copy m s t = Inr m' \<Longrightarrow>
      content m s \<noteq> None \<and> content m' = (content m)(t := content m s)"

definition objectStoreRename ::
  "('m \<Rightarrow> 'k \<Rightarrow> 'k \<Rightarrow> 'm res) \<Rightarrow> ('m \<Rightarrow> 'k \<Rightarrow> 'm res) \<Rightarrow> 'm \<Rightarrow> 'k \<Rightarrow> 'k \<Rightarrow> 'm res" where
  "objectStoreRename copy del m oldKey newKey =
     bindR (copy m oldKey newKey) (\<lambda>m'. del m' oldKey)"

section \<open>Buffered writers\<close>

record 'k bufPutCloser =
  bp_key :: 'k
  bp_buf :: "byte list"
  bp_exclusive :: bool
  bp_closed :: bool

definition bp_Write :: "'k bufPutCloser \<Rightarrow> byte list \<Rightarrow> 'k bufPutCloser res" where
  "bp_Write w p = (if bp_closed w then Inl ErrClosed else Inr (w\<lparr>bp_buf := bp_buf w @ p\<rparr>))"

definition bp_Close ::
  "('m \<Rightarrow> 'k \<Rightarrow> byte list \<Rightarrow> 'm res) \<Rightarrow> ('m \<Rightarrow> 'k \<Rightarrow> byte list \<Rightarrow> 'm res)
     \<Rightarrow> 'm \<Rightarrow> 'k bufPutCloser \<Rightarrow> 'm res \<times> 'k bufPutCloser" where
  "bp_Close put putIfAbsent m w =
     (if bp_closed w then (Inl ErrClosed, w)
      else
        let w' = w\<lparr>bp_closed := True\<rparr>
        in (if bp_exclusive w then putIfAbsent m (bp_key w) (bp_buf w)
            else put m (bp_key w) (bp_buf w), w'))"

definition bp_Abort :: "'k bufPutCloser \<Rightarrow> 'k bufPutCloser" where
  "bp_Abort w = w\<lparr>bp_closed := True, bp_buf := []\<rparr>"

definition objectStoreCreate :: "'k \<Rightarrow> 'k bufPutCloser" where
  "objectStoreCreate key = \<lparr>bp_key = key, bp_buf = [], bp_exclusive = False, bp_closed = False\<rparr>"

definition CreateExclusive :: "'k \<Rightarrow> 'k bufPutCloser" where
  "CreateExclusive key = \<lparr>bp_key = key, bp_buf = [], bp_exclusive = True, bp_closed = False\<rparr>"

fun bp_write_all :: "'k bufPutCloser \<Rightarrow> byte list list \<Rightarrow> 'k bufPutCloser res" where
  "bp_write_all w [] = Inr w"
| "bp_write_all w (p # ps) = bindR (bp_Write w p) (\<lambda>w'. bp_write_all w' ps)"

section \<open>URIs\<close>

datatype FileSystem = LocalFS | S3FS string

definition has_prefix :: "string \<Rightarrow> string \<Rightarrow> bool" where
  "has_prefix s pre \<longleftrightarrow> take (length pre) s = pre"

definition resolvePath :: "string \<Rightarrow> FileSystem \<times> string" where
  "resolvePath uri =
     (if has_prefix uri ''s3a://'' \<or> has_prefix uri ''s3://'' then
        let rest = (if has_prefix uri ''s3a://'' then drop 6 uri else drop 5 uri);
            bucket = takeWhile (\<lambda>c. c \<noteq> CHR ''/'') rest
        in (S3FS bucket, drop (length bucket + 1) rest)
      else if has_prefix uri ''file://'' then (LocalFS, drop 7 uri)
      else (LocalFS, uri))"

definition pad5 :: "nat \<Rightarrow> string" where
  "pad5 n = (let s = format_nat n in replicate (5 - length s) CHR ''0'' @ s)"

definition PartitionFileName :: "nat \<Rightarrow> string" where
  "PartitionFileName i = ''part-'' @ pad5 i"


section \<open>Clients of the contract\<close>

context object_store
begin

text \<open>Renaming moves the content and touches no other key.\<close>

lemma rename_content:
  assumes "objectStoreRename Copy Delete m a b = Inr m'" and "a \<noteq> b"
  shows "content m' = (content m)(a := None, b := content m a)" and "content m a \<noteq> None"
proof -
  from assms(1) obtain m1 where m1: "Copy m a b = Inr m1" "Delete m1 a = Inr m'"
    by (auto simp: objectStoreRename_def bindR_Inr_conv)
  show "content m a \<noteq> None" using Copy_content [OF m1(1)] by simp
  show "content m' = (content m)(a := None, b := content m a)"
    using Copy_content [OF m1(1)] Delete_content [OF m1(2)] assms(2) by (auto simp: fun_eq_iff)
qed

text \<open>A closed writer publishes the concatenation of what was written.\<close>

lemma write_all_buf:
  "bp_write_all w ps = Inr w' \<Longrightarrow>
     w' = w\<lparr>bp_buf := bp_buf w @ concat ps\<rparr> \<and> (ps \<noteq> [] \<longrightarrow> \<not> bp_closed w)"
  by (induction ps arbitrary: w) (force simp: bp_Write_def bindR_Inr_conv split: if_splits)+

lemma close_content:
  assumes "bp_write_all w ps = Inr w'" and "bp_Close Put PutIfAbsent m w' = (Inr m', w'')"
  shows "content m' = (content m)(bp_key w \<mapsto> bp_buf w @ concat ps)"
    and "bp_exclusive w \<Longrightarrow> content m (bp_key w) = None"
proof -
  have w': "w' = w\<lparr>bp_buf := bp_buf w @ concat ps\<rparr>" using write_all_buf [OF assms(1)] by simp
  have put: "(if bp_exclusive w then PutIfAbsent m (bp_key w) (bp_buf w @ concat ps)
      else Put m (bp_key w) (bp_buf w @ concat ps)) = Inr m'"
    using assms(2) by (auto simp: w' bp_Close_def Let_def split: if_splits)
  then show "content m' = (content m)(bp_key w \<mapsto> bp_buf w @ concat ps)"
    using PutIfAbsent_content Put_content by (auto split: if_splits)
  show "bp_exclusive w \<Longrightarrow> content m (bp_key w) = None"
    using put PutIfAbsent_present by (metis Inl_Inr_False)
qed

text \<open>An aborted or closed writer publishes nothing more.\<close>

lemma no_second_close:
  "bp_closed w \<Longrightarrow> bp_Close Put PutIfAbsent m w = (Inl ErrClosed, w)"
  "bp_Close Put PutIfAbsent m (bp_Abort w) = (Inl ErrClosed, bp_Abort w)"
  by (simp_all add: bp_Close_def bp_Abort_def)

end

interpretation mem_store: object_store ms_Get ms_Put ms_PutIfAbsent ms_Delete ms_Copy "\<lambda>m. m"
  by unfold_locales
    (auto simp: ms_Get_def ms_Put_def ms_PutIfAbsent_def ms_Delete_def ms_Copy_def bindR_Inr_conv
      split: option.splits if_splits)

section \<open>File names\<close>

definition decimal :: "string \<Rightarrow> nat" where
  "decimal s = foldl (\<lambda>a c. a * 10 + (of_char c - 48)) 0 s"

lemma decimal_format_nat: "decimal (format_nat n) = n"
proof (induction n rule: format_nat.induct)
  case (1 n)
  then show ?case
    by (subst format_nat.simps) (auto simp: decimal_def digit_char_range)
qed

lemma decimal_pad5: "decimal (pad5 n) = n"
proof -
  have "foldl (\<lambda>a c. a * 10 + (of_char c - 48)) 0 (replicate k CHR ''0'') = (0 :: nat)" for k
    by (induction k) simp_all
  then have "decimal (replicate k CHR ''0'' @ s) = decimal s" for k s
    by (simp add: decimal_def)
  then show ?thesis by (simp add: pad5_def Let_def decimal_format_nat)
qed

lemma pad5_inject [simp]: "pad5 n = pad5 m \<longleftrightarrow> n = m"
  by (metis decimal_pad5)

lemma minus_notin_pad5: "CHR ''-'' \<notin> set (pad5 n)"
  using minus_notin_format_nat by (auto simp: pad5_def Let_def)

lemma PartitionFileName_inject [simp]: "PartitionFileName i = PartitionFileName j \<longleftrightarrow> i = j"
  by (simp add: PartitionFileName_def)

lemma append_minus_inject:
  assumes "a @ CHR ''-'' # x = b @ CHR ''-'' # y" and "CHR ''-'' \<notin> set a" and "CHR ''-'' \<notin> set b"
  shows "a = b \<and> x = y"
proof -
  have split: "takeWhile (\<lambda>c. c \<noteq> CHR ''-'') (u @ CHR ''-'' # v) = u"
    if "CHR ''-'' \<notin> set u" for u v
    using that by (induction u) auto
  have "a = b" using arg_cong [OF assms(1), of "takeWhile (\<lambda>c. c \<noteq> CHR ''-'')"] split assms(2,3) by simp
  then show ?thesis using assms(1) by simp
qed

end
