(* ===== verification/Output_Commit.thy ===== *)
theory Output_Commit
  imports Storage
begin

text \<open>
  \<^verbatim>\<open>distributed_output.go\<close>, \<^verbatim>\<open>output_commit.go\<close> and \<^verbatim>\<open>SaveAsTextFile\<close> of \<^verbatim>\<open>save.go\<close>: attempt files, the
  verified commit of a distributed save with one conditional \<^verbatim>\<open>_SUCCESS\<close> manifest, and the
  rename-based committer of a local save. A path is the list of its components. The SHA-256 of a
  file in hexadecimal and the JSON text of a manifest are arguments, as is the text that
  \<^verbatim>\<open>Fprintln\<close> prints for a record; the outcome of each system call is an argument too.
\<close>

section \<open>Attempt files\<close>

record PartitionOutput =
  po_JobID :: string
  po_StageID :: nat
  po_PartitionID :: int
  po_Attempt :: int
  po_Key :: path
  po_Bytes :: int
  po_SHA256 :: string

record OutputManifest =
  om_Version :: int
  om_JobID :: string
  om_TaskName :: string
  om_Partitions :: "PartitionOutput list"

definition SuccessFileName :: string where "SuccessFileName = ''_SUCCESS''"
definition tempDirName :: string where "tempDirName = ''_temporary''"

definition attemptOutputKey :: "path \<Rightarrow> string \<Rightarrow> nat \<Rightarrow> nat \<Rightarrow> nat \<Rightarrow> path" where
  "attemptOutputKey base jobID stageID partitionID attempt =
     base @ [tempDirName, jobID, ''stage-'' @ format_nat stageID,
             PartitionFileName partitionID @ ''-attempt-'' @ pad5 attempt]"

text \<open>What the file system and the task's context answer while a partition is written.\<close>

record save_io =
  io_mkdir :: "goerr option"
  io_create :: "goerr option"
  io_cancel :: "nat \<Rightarrow> goerr option"
  io_write :: "nat \<Rightarrow> goerr option"
  io_close :: "goerr option"
  io_done :: "goerr option"

text \<open>The copy loop; \<open>ending\<close> is how the partition's iterator ends, \<open>None\<close> for a normal end.\<close>

fun save_loop ::
  "('r \<Rightarrow> byte list) \<Rightarrow> save_io \<Rightarrow> nat \<Rightarrow> 'r list \<Rightarrow> goerr option \<Rightarrow> byte list \<Rightarrow> byte list res" where
  "save_loop println io i [] ending out =
     (case io_cancel io i of Some e \<Rightarrow> Inl e
      | None \<Rightarrow> (case ending of Some e \<Rightarrow> Inl e | None \<Rightarrow> Inr out))"
| "save_loop println io i (v # vs) ending out =
     (case io_cancel io i of Some e \<Rightarrow> Inl e
      | None \<Rightarrow> (case io_write io i of Some e \<Rightarrow> Inl e
          | None \<Rightarrow> save_loop println io (Suc i) vs ending (out @ println v)))"

definition writeOutputPartition ::
  "('r \<Rightarrow> byte list) \<Rightarrow> (byte list \<Rightarrow> string) \<Rightarrow> save_io \<Rightarrow> path MemStore \<Rightarrow> path option \<Rightarrow> string
     \<Rightarrow> nat \<Rightarrow> nat \<Rightarrow> nat \<Rightarrow> ('r list \<times> goerr option) option \<Rightarrow> PartitionOutput res \<times> path MemStore" where
  "writeOutputPartition println sha io store base jobID stageID partitionID attempt part =
     (case base of
        None \<Rightarrow> (Inl (Err ''save action requires params.path''), store)
      | Some base \<Rightarrow>
          (let key = attemptOutputKey base jobID stageID partitionID attempt in
           case io_mkdir io of Some e \<Rightarrow> (Inl e, store) | None \<Rightarrow>
           (case part of None \<Rightarrow> (Inl (Err ''partition %d not found''), store) | Some (recs, ending) \<Rightarrow>
           (case io_create io of Some e \<Rightarrow> (Inl e, store) | None \<Rightarrow>
           (case save_loop println io 0 recs ending [] of
              Inl e \<Rightarrow> (Inl e, store(key := None))
            | Inr out \<Rightarrow>
                (case (io_close io, io_done io) of
                   (None, None) \<Rightarrow>
                     (Inr \<lparr>po_JobID = jobID, po_StageID = stageID, po_PartitionID = int partitionID,
                        po_Attempt = int attempt, po_Key = key, po_Bytes = int (length out),
                        po_SHA256 = sha out\<rparr>, store(key \<mapsto> out))
                 | (Some e, _) \<Rightarrow> (Inl e, store(key := None))
                 | (None, Some e) \<Rightarrow> (Inl e, store(key := None))))))))"

section \<open>Committing a distributed save\<close>

text \<open>
  The outcome of publishing the marker when it is absent: a failed \<^verbatim>\<open>Close\<close> may have made the
  marker visible all the same.
\<close>

datatype publish = Published | Publish_failed bool

record commit_io =
  ci_mkdir :: "goerr option"
  ci_open :: "path \<Rightarrow> goerr option"
  ci_publish :: publish

definition output_valid :: "path \<Rightarrow> string \<Rightarrow> nat \<Rightarrow> nat \<Rightarrow> bool list \<Rightarrow> PartitionOutput \<Rightarrow> bool" where
  "output_valid base jobID stageID cnt seen out \<longleftrightarrow>
     0 \<le> po_PartitionID out \<and> po_PartitionID out < int cnt \<and> \<not> seen ! nat (po_PartitionID out) \<and>
     0 \<le> po_Attempt out \<and> po_JobID out = jobID \<and> po_StageID out = stageID \<and> 0 \<le> po_Bytes out \<and>
     length (po_SHA256 out) = 64 \<and>
     po_Key out = attemptOutputKey base jobID stageID (nat (po_PartitionID out)) (nat (po_Attempt out))"

fun verify_outputs ::
  "(byte list \<Rightarrow> string) \<Rightarrow> commit_io \<Rightarrow> path MemStore \<Rightarrow> path \<Rightarrow> string \<Rightarrow> nat \<Rightarrow> nat \<Rightarrow> PartitionOutput list
     \<Rightarrow> bool list \<Rightarrow> PartitionOutput list \<Rightarrow> PartitionOutput list res" where
  "verify_outputs sha io store base jobID stageID cnt [] seen byPart = Inr byPart"
| "verify_outputs sha io store base jobID stageID cnt (out # outs) seen byPart =
     (if \<not> output_valid base jobID stageID cnt seen out then Inl (Err ''invalid output for partition %d'')
      else
        (case ci_open io (po_Key out) of Some e \<Rightarrow> Inl e | None \<Rightarrow>
         (case store (po_Key out) of
            None \<Rightarrow> Inl (Err ''missing attempt %d'')
          | Some data \<Rightarrow>
              if int (length data) \<noteq> po_Bytes out \<or> sha data \<noteq> po_SHA256 out
              then Inl (Err ''corrupt attempt for partition %d'')
              else
                let p = nat (po_PartitionID out)
                in verify_outputs sha io store base jobID stageID cnt outs
                     (seen[p := True]) (byPart[p := out]))))"

definition empty_output :: PartitionOutput where
  "empty_output = \<lparr>po_JobID = [], po_StageID = 0, po_PartitionID = 0, po_Attempt = 0, po_Key = [],
     po_Bytes = 0, po_SHA256 = []\<rparr>"

definition ErrOutputCommitted :: goerr where "ErrOutputCommitted = Err ''output already committed''"

definition publish_marker ::
  "commit_io \<Rightarrow> path MemStore \<Rightarrow> path \<Rightarrow> byte list \<Rightarrow> bool \<times> path MemStore" where
  "publish_marker io store marker data =
     (case ms_PutIfAbsent store marker data of
        Inl _ \<Rightarrow> (False, store)
      | Inr store' \<Rightarrow>
          (case ci_publish io of
             Published \<Rightarrow> (True, store')
           | Publish_failed visible \<Rightarrow> (False, if visible then store' else store)))"

definition CommitDistributedOutput ::
  "(byte list \<Rightarrow> string) \<Rightarrow> (OutputManifest \<Rightarrow> byte list) \<Rightarrow> commit_io \<Rightarrow> path MemStore \<Rightarrow> path option
     \<Rightarrow> string \<Rightarrow> string \<Rightarrow> nat \<Rightarrow> nat \<Rightarrow> PartitionOutput list \<Rightarrow> OutputManifest res \<times> path MemStore" where
  "CommitDistributedOutput sha marshal io store base jobID taskName stageID cnt outputs =
     (case base of
        None \<Rightarrow> (Inl (Err ''incomplete output''), store)
      | Some base \<Rightarrow>
          if jobID = [] \<or> length outputs \<noteq> cnt then (Inl (Err ''incomplete output''), store)
          else
            (case ci_mkdir io of Some e \<Rightarrow> (Inl e, store) | None \<Rightarrow>
             (case verify_outputs sha io store base jobID stageID cnt outputs
                     (replicate cnt False) (replicate cnt empty_output) of
                Inl e \<Rightarrow> (Inl e, store)
              | Inr byPart \<Rightarrow>
                  (let manifest = \<lparr>om_Version = 1, om_JobID = jobID, om_TaskName = taskName,
                         om_Partitions = byPart\<rparr>;
                       data = marshal manifest;
                       marker = base @ [SuccessFileName];
                       (ok, store') = publish_marker io store marker data
                   in if ok then (Inr manifest, store')
                      else
                        (case (ci_open io marker, store' marker) of
                           (None, Some previous) \<Rightarrow>
                             (if previous = data then Inr manifest else Inl ErrOutputCommitted, store')
                         | _ \<Rightarrow> (Inl (Err ''publish _SUCCESS''), store'))))))"

definition ReadCommittedOutput ::
  "(byte list \<Rightarrow> OutputManifest res) \<Rightarrow> path MemStore \<Rightarrow> path \<Rightarrow> OutputManifest res" where
  "ReadCommittedOutput unmarshal store base =
     bindR (ms_Get store (base @ [SuccessFileName])) (\<lambda>data.
       bindR (unmarshal data) (\<lambda>m.
         if om_Version m \<noteq> 1 then Inl (Err ''unsupported output version %d'') else Inr m))"


section \<open>What a commit verifies\<close>

definition verified :: "(byte list \<Rightarrow> string) \<Rightarrow> path MemStore \<Rightarrow> path \<Rightarrow> string \<Rightarrow> nat \<Rightarrow> PartitionOutput \<Rightarrow> bool" where
  "verified sha store base jobID stageID out \<longleftrightarrow>
     po_JobID out = jobID \<and> po_StageID out = stageID \<and> 0 \<le> po_PartitionID out \<and> 0 \<le> po_Attempt out \<and>
     po_Key out = attemptOutputKey base jobID stageID (nat (po_PartitionID out)) (nat (po_Attempt out)) \<and>
     (\<exists>data. store (po_Key out) = Some data \<and> int (length data) = po_Bytes out \<and> sha data = po_SHA256 out)"

lemma verify_outputs_spec:
  assumes "verify_outputs sha io store base jobID stageID cnt outs seen byPart = Inr bp"
    and "length seen = cnt" and "length byPart = cnt"
  shows "length bp = cnt \<and> distinct (map po_PartitionID outs) \<and>
    (\<forall>out \<in> set outs. verified sha store base jobID stageID out \<and> po_PartitionID out < int cnt \<and>
       \<not> seen ! nat (po_PartitionID out) \<and> bp ! nat (po_PartitionID out) = out) \<and>
    (\<forall>i < cnt. int i \<notin> po_PartitionID ` set outs \<longrightarrow> bp ! i = byPart ! i)"
  using assms
proof (induction outs arbitrary: seen byPart)
  case Nil
  then show ?case by simp
next
  case (Cons out outs)
  let ?p = "nat (po_PartitionID out)"
  from Cons.prems(1) obtain data where ok: "output_valid base jobID stageID cnt seen out"
    and data: "store (po_Key out) = Some data" "int (length data) = po_Bytes out" "sha data = po_SHA256 out"
    and rest: "verify_outputs sha io store base jobID stageID cnt outs (seen[?p := True]) (byPart[?p := out]) = Inr bp"
    by (auto simp: Let_def split: if_splits option.splits)
  have p: "?p < cnt" "int ?p = po_PartitionID out" using ok by (auto simp: output_valid_def)
  from Cons.IH [OF rest] Cons.prems(2,3) have IH: "length bp = cnt" "distinct (map po_PartitionID outs)"
    "\<forall>o' \<in> set outs. verified sha store base jobID stageID o' \<and> po_PartitionID o' < int cnt \<and>
       \<not> seen[?p := True] ! nat (po_PartitionID o') \<and> bp ! nat (po_PartitionID o') = o'"
    "\<forall>i < cnt. int i \<notin> po_PartitionID ` set outs \<longrightarrow> bp ! i = byPart[?p := out] ! i"
    by simp_all
  have fresh: "po_PartitionID o' \<noteq> po_PartitionID out" if "o' \<in> set outs" for o'
    using IH(3) that p Cons.prems(2) by auto
  then have notin: "po_PartitionID out \<notin> po_PartitionID ` set outs" by (metis imageE)
  have A: "bp ! ?p = out" using IH(4) p notin Cons.prems(3) by simp
  have B: "verified sha store base jobID stageID out"
    using ok data by (auto simp: verified_def output_valid_def)
  have C: "\<not> seen ! nat (po_PartitionID o')" if "o' \<in> set outs" for o'
  proof -
    have "0 \<le> po_PartitionID o'" "0 \<le> po_PartitionID out"
      using IH(3) that ok by (auto simp: verified_def output_valid_def)
    then have "nat (po_PartitionID o') \<noteq> ?p"
      using fresh [OF that] by (simp add: eq_nat_nat_iff)
    then show ?thesis using IH(3) that by (metis nth_list_update_neq)
  qed
  have D: "bp ! i = byPart ! i" if "i < cnt" "int i \<notin> po_PartitionID ` set (out # outs)" for i
  proof -
    have "i \<noteq> ?p" using that(2) p(2) by auto
    then show ?thesis using IH(4) that by simp
  qed
  have "\<forall>o' \<in> set (out # outs). verified sha store base jobID stageID o' \<and> po_PartitionID o' < int cnt \<and>
      \<not> seen ! nat (po_PartitionID o') \<and> bp ! nat (po_PartitionID o') = o'"
    using A B C IH(3) ok by (simp add: output_valid_def)
  then show ?case using IH(1,2) notin D by simp
qed

lemma verify_outputs_full:
  assumes "verify_outputs sha io store base jobID stageID cnt outs
      (replicate cnt False) (replicate cnt empty_output) = Inr bp" and "length outs = cnt"
  shows "length bp = cnt \<and> (\<forall>p < cnt. bp ! p \<in> set outs \<and> po_PartitionID (bp ! p) = int p \<and>
    verified sha store base jobID stageID (bp ! p))"
proof -
  note spec = verify_outputs_spec [OF assms(1), simplified]
  let ?ids = "po_PartitionID ` set outs"
  have sub: "?ids \<subseteq> {0..<int cnt}" using spec by (auto simp: verified_def)
  have "card ?ids = cnt" using spec assms(2) distinct_card [of "map po_PartitionID outs"] by simp
  then have eq: "?ids = {0..<int cnt}" using sub by (simp add: card_subset_eq)
  have "bp ! p \<in> set outs \<and> po_PartitionID (bp ! p) = int p \<and> verified sha store base jobID stageID (bp ! p)"
    if p: "p < cnt" for p
  proof -
    have "int p \<in> ?ids" using eq p by simp
    then obtain out where "out \<in> set outs" "po_PartitionID out = int p" by auto
    then show ?thesis using spec by fastforce
  qed
  then show ?thesis using spec by simp
qed

lemma marker_not_attempt: "base @ [SuccessFileName] \<noteq> attemptOutputKey base' j s p a"
proof -
  have "last (attemptOutputKey base' j s p a) \<noteq> SuccessFileName"
    by (simp add: attemptOutputKey_def PartitionFileName_def SuccessFileName_def)
  then show ?thesis by (metis last_snoc)
qed

lemma publish_marker_spec:
  assumes "publish_marker io store marker data = (ok, store')"
  shows "\<forall>k. k \<noteq> marker \<longrightarrow> store' k = store k"
    and "store marker \<noteq> None \<Longrightarrow> store' = store \<and> \<not> ok"
    and "ok \<Longrightarrow> store' marker = Some data"
  using assms
  by (auto simp: publish_marker_def ms_PutIfAbsent_def split: if_splits publish.splits)

lemma commit_cases:
  assumes "CommitDistributedOutput sha marshal io store base jobID taskName stageID cnt outs = (r, store')"
  obtains (refused) e where "r = Inl e" "store' = store"
  | (reached) b bp ok where "base = Some b" "length outs = cnt"
      "verify_outputs sha io store b jobID stageID cnt outs
         (replicate cnt False) (replicate cnt empty_output) = Inr bp"
      "publish_marker io store (b @ [SuccessFileName])
         (marshal \<lparr>om_Version = 1, om_JobID = jobID, om_TaskName = taskName, om_Partitions = bp\<rparr>) = (ok, store')"
      "r = Inr \<lparr>om_Version = 1, om_JobID = jobID, om_TaskName = taskName, om_Partitions = bp\<rparr> \<longrightarrow>
         store' (b @ [SuccessFileName]) = Some (marshal
           \<lparr>om_Version = 1, om_JobID = jobID, om_TaskName = taskName, om_Partitions = bp\<rparr>)"
      "\<And>m. r = Inr m \<Longrightarrow> m = \<lparr>om_Version = 1, om_JobID = jobID, om_TaskName = taskName, om_Partitions = bp\<rparr>"
proof (cases "\<exists>b bp. base = Some b \<and> jobID \<noteq> [] \<and> length outs = cnt \<and> ci_mkdir io = None \<and>
    verify_outputs sha io store b jobID stageID cnt outs
      (replicate cnt False) (replicate cnt empty_output) = Inr bp")
  case False
  then have "(\<exists>e. r = Inl e) \<and> store' = store"
    using assms by (auto simp: CommitDistributedOutput_def split: option.splits sum.splits if_splits)
  then show ?thesis using refused by blast
next
  case True
  then obtain b bp where b: "base = Some b" "jobID \<noteq> []" "length outs = cnt" "ci_mkdir io = None"
    "verify_outputs sha io store b jobID stageID cnt outs
      (replicate cnt False) (replicate cnt empty_output) = Inr bp" by blast
  define m where "m = \<lparr>om_Version = 1, om_JobID = jobID, om_TaskName = taskName, om_Partitions = bp\<rparr>"
  obtain ok s where pub: "publish_marker io store (b @ [SuccessFileName]) (marshal m) = (ok, s)" by fastforce
  have run: "(if ok then (Inr m, s) else
      (case (ci_open io (b @ [SuccessFileName]), s (b @ [SuccessFileName])) of
         (None, Some previous) \<Rightarrow> (if previous = marshal m then Inr m else Inl ErrOutputCommitted, s)
       | _ \<Rightarrow> (Inl (Err ''publish _SUCCESS''), s))) = (r, store')"
    using assms b pub
    by (auto simp: CommitDistributedOutput_def Let_def m_def split: option.splits if_splits)
  then have s: "s = store'" and "r = Inr m \<longrightarrow> store' (b @ [SuccessFileName]) = Some (marshal m)"
    and "\<And>m'. r = Inr m' \<Longrightarrow> m' = m"
    using publish_marker_spec(3) [OF pub] by (auto split: if_splits option.splits)
  then show ?thesis using reached b pub unfolding m_def by blast
qed


section \<open>Competing jobs\<close>

text \<open>
  Workers and drivers of any number of jobs act on one output directory in any order: attempts
  write their files, drivers try to commit. The history lists what every commit returned.
\<close>

datatype 'r save_event =
    SaveAttempt save_io string nat nat nat "('r list \<times> goerr option) option"
  | SaveCommit commit_io string string nat nat "PartitionOutput list"

fun save_step ::
  "('r \<Rightarrow> byte list) \<Rightarrow> (byte list \<Rightarrow> string) \<Rightarrow> (OutputManifest \<Rightarrow> byte list) \<Rightarrow> path
     \<Rightarrow> path MemStore \<Rightarrow> 'r save_event \<Rightarrow> OutputManifest list \<times> path MemStore" where
  "save_step println sha marshal base store (SaveAttempt io jobID stageID p a part) =
     ([], snd (writeOutputPartition println sha io store (Some base) jobID stageID p a part))"
| "save_step println sha marshal base store (SaveCommit io jobID taskName stageID cnt outs) =
     (case CommitDistributedOutput sha marshal io store (Some base) jobID taskName stageID cnt outs of
        (Inr m, store') \<Rightarrow> ([m], store')
      | (Inl e, store') \<Rightarrow> ([], store'))"

fun save_run ::
  "('r \<Rightarrow> byte list) \<Rightarrow> (byte list \<Rightarrow> string) \<Rightarrow> (OutputManifest \<Rightarrow> byte list) \<Rightarrow> path
     \<Rightarrow> path MemStore \<Rightarrow> 'r save_event list \<Rightarrow> OutputManifest list \<times> path MemStore" where
  "save_run println sha marshal base store [] = ([], store)"
| "save_run println sha marshal base store (ev # evs) =
     (let st = save_step println sha marshal base store ev;
          rest = save_run println sha marshal base (snd st) evs
      in (fst st @ fst rest, snd rest))"

lemma write_keeps_marker:
  "snd (writeOutputPartition println sha io store base jobID stageID p a part) (b @ [SuccessFileName])
     = store (b @ [SuccessFileName])"
  using marker_not_attempt
  by (auto simp: writeOutputPartition_def Let_def split: option.splits sum.splits prod.splits)

lemma save_step_marker:
  assumes "save_step println sha marshal base store ev = (ms, store')"
  shows "store (base @ [SuccessFileName]) = Some d \<Longrightarrow> store' (base @ [SuccessFileName]) = Some d"
    and "m \<in> set ms \<Longrightarrow> store' (base @ [SuccessFileName]) = Some (marshal m)"
proof -
  let ?mk = "base @ [SuccessFileName]"
  have both: "(store ?mk = Some d \<longrightarrow> store' ?mk = Some d) \<and>
      (m \<in> set ms \<longrightarrow> store' ?mk = Some (marshal m))"
  proof (cases ev)
    case (SaveAttempt io jobID stageID p a part)
    then show ?thesis using assms by (auto simp: write_keeps_marker)
  next
    case (SaveCommit io jobID taskName stageID cnt outs)
    obtain r where r: "CommitDistributedOutput sha marshal io store (Some base) jobID taskName stageID cnt outs
        = (r, store')" and ms: "ms = (case r of Inr m \<Rightarrow> [m] | Inl e \<Rightarrow> [])"
      using assms SaveCommit by (auto split: prod.splits sum.splits)
    from r show ?thesis
    proof (cases rule: commit_cases)
      case (refused e)
      then show ?thesis using ms by simp
    next
      case (reached b bp ok)
      have "store' ?mk = Some (marshal m)" if "m \<in> set ms"
        using that ms reached(1,5) reached(6) [of m] by (cases r) auto
      then show ?thesis using publish_marker_spec(2) [OF reached(4)] reached(1) by auto
    qed
  qed
  show "store ?mk = Some d \<Longrightarrow> store' ?mk = Some d" "m \<in> set ms \<Longrightarrow> store' ?mk = Some (marshal m)"
    using both by blast+
qed

lemma save_run_marker:
  "save_run println sha marshal base store evs = (ms, store') \<Longrightarrow>
     (store (base @ [SuccessFileName]) = Some d \<longrightarrow> store' (base @ [SuccessFileName]) = Some d) \<and>
     (\<forall>m \<in> set ms. store' (base @ [SuccessFileName]) = Some (marshal m))"
proof (induction evs arbitrary: store ms d)
  case (Cons ev evs)
  obtain ms1 s1 where s1: "save_step println sha marshal base store ev = (ms1, s1)" by fastforce
  obtain ms2 s2 where s2: "save_run println sha marshal base s1 evs = (ms2, s2)" by fastforce
  have eq: "ms = ms1 @ ms2" "store' = s2" using Cons.prems s1 s2 by (auto simp: Let_def)
  have "s2 (base @ [SuccessFileName]) = Some d'" if "s1 (base @ [SuccessFileName]) = Some d'" for d'
    using Cons.IH [OF s2 [folded eq(2)], of d'] that eq by simp
  then show ?case
    using save_step_marker [OF s1] Cons.IH [OF s2 [folded eq(2)]] eq by auto
qed simp

section \<open>Writing then committing\<close>

definition io_fine :: save_io where
  "io_fine = \<lparr>io_mkdir = None, io_create = None, io_cancel = \<lambda>_. None, io_write = \<lambda>_. None,
     io_close = None, io_done = None\<rparr>"

lemma save_loop_ok:
  "save_loop println io i recs ending out = Inr b \<Longrightarrow>
     b = out @ concat (map println recs) \<and> ending = None"
  by (induction println io i recs ending out rule: save_loop.induct) (auto split: option.splits)

lemma writeOutputPartition_spec:
  assumes "writeOutputPartition println sha io store base jobID stageID p a part = (r, store')"
  shows "(\<exists>out b recs. r = Inr out \<and> base = Some b \<and> part = Some (recs, None) \<and>
      po_JobID out = jobID \<and> po_StageID out = stageID \<and> po_PartitionID out = int p \<and> po_Attempt out = int a \<and>
      po_Key out = attemptOutputKey b jobID stageID p a \<and>
      po_Bytes out = int (length (concat (map println recs))) \<and> po_SHA256 out = sha (concat (map println recs)) \<and>
      store' = store(po_Key out \<mapsto> concat (map println recs))) \<or>
    (\<exists>e. r = Inl e \<and> (store' = store \<or>
       (\<exists>b. base = Some b \<and> store' = store(attemptOutputKey b jobID stageID p a := None))))"
  using assms
  by (auto simp: writeOutputPartition_def Let_def dest!: save_loop_ok
      split: option.splits sum.splits prod.splits)

lemma attemptOutputKey_inject:
  assumes "attemptOutputKey b j s p a = attemptOutputKey b j' s' p' a'"
  shows "j = j' \<and> s = s' \<and> p = p' \<and> a = a'"
proof -
  have eq: "j = j'" "format_nat s = format_nat s'"
    "pad5 p @ CHR ''-'' # ''attempt-'' @ pad5 a = pad5 p' @ CHR ''-'' # ''attempt-'' @ pad5 a'"
    using assms by (auto simp: attemptOutputKey_def PartitionFileName_def)
  show ?thesis
    using eq(1) format_nat_inject [OF eq(2)] append_minus_inject [OF eq(3) minus_notin_pad5 minus_notin_pad5]
    by simp
qed


text \<open>A verified list of outputs, one per partition in order, passes the commit.\<close>

lemma verify_outputs_complete:
  assumes "\<And>i. i < length outs \<Longrightarrow> verified sha store base jobID stageID (outs ! i) \<and>
      po_PartitionID (outs ! i) = int (k + i) \<and> length (po_SHA256 (outs ! i)) = 64 \<and>
      ci_open io (po_Key (outs ! i)) = None"
    and "length seen = k + length outs" and "length byPart = k + length outs"
    and "\<And>i. k \<le> i \<Longrightarrow> i < length seen \<Longrightarrow> \<not> seen ! i"
  shows "verify_outputs sha io store base jobID stageID (k + length outs) outs seen byPart
    = Inr (take k byPart @ outs)"
  using assms
proof (induction outs arbitrary: k seen byPart)
  case (Cons out outs)
  have o: "verified sha store base jobID stageID out" "po_PartitionID out = int k"
    "length (po_SHA256 out) = 64" "ci_open io (po_Key out) = None"
    using Cons.prems(1) [of 0] by simp_all
  then obtain data where data: "store (po_Key out) = Some data" "int (length data) = po_Bytes out"
    "sha data = po_SHA256 out" by (auto simp: verified_def)
  have "output_valid base jobID stageID (k + length (out # outs)) seen out"
    using o data(2) Cons.prems(4) [of k] Cons.prems(2) by (auto simp: output_valid_def verified_def)
  then have "verify_outputs sha io store base jobID stageID (k + length (out # outs)) (out # outs) seen byPart
      = verify_outputs sha io store base jobID stageID (Suc k + length outs) outs (seen[k := True]) (byPart[k := out])"
    using o data by (simp add: Let_def)
  also have "\<dots> = Inr (take (Suc k) (byPart[k := out]) @ outs)"
  proof (rule Cons.IH)
    fix i assume "i < length outs"
    then show "verified sha store base jobID stageID (outs ! i) \<and> po_PartitionID (outs ! i) = int (Suc k + i) \<and>
        length (po_SHA256 (outs ! i)) = 64 \<and> ci_open io (po_Key (outs ! i)) = None"
      using Cons.prems(1) [of "Suc i"] by simp
  qed (use Cons.prems(2-4) in auto)
  also have "take (Suc k) (byPart[k := out]) = take k byPart @ [out]"
    using Cons.prems(3) by (simp add: take_Suc_conv_app_nth)
  finally show ?case by simp
qed simp

definition commit_fine :: commit_io where
  "commit_fine = \<lparr>ci_mkdir = None, ci_open = \<lambda>_. None, ci_publish = Published\<rparr>"

text \<open>The attempts of one job, partition by partition, with no failure.\<close>

fun save_job ::
  "('r \<Rightarrow> byte list) \<Rightarrow> (byte list \<Rightarrow> string) \<Rightarrow> path \<Rightarrow> string \<Rightarrow> nat \<Rightarrow> (nat \<Rightarrow> nat) \<Rightarrow> nat
     \<Rightarrow> 'r list list \<Rightarrow> path MemStore \<Rightarrow> PartitionOutput list \<times> path MemStore" where
  "save_job println sha base jobID stageID att i [] store = ([], store)"
| "save_job println sha base jobID stageID att i (recs # parts) store =
     (let st = writeOutputPartition println sha io_fine store (Some base) jobID stageID i (att i) (Some (recs, None));
          rest = save_job println sha base jobID stageID att (Suc i) parts (snd st)
      in (case fst st of Inr out \<Rightarrow> out # fst rest | Inl _ \<Rightarrow> fst rest, snd rest))"

lemma io_fine_sel [simp]:
  "io_mkdir io_fine = None" "io_create io_fine = None" "io_cancel io_fine i = None"
  "io_write io_fine i = None" "io_close io_fine = None" "io_done io_fine = None"
  by (simp_all add: io_fine_def)

lemma save_loop_fine: "save_loop println io_fine i recs None out = Inr (out @ concat (map println recs))"
  by (induction recs arbitrary: i out) simp_all

lemma write_fine:
  "writeOutputPartition println sha io_fine store (Some base) jobID stageID p a (Some (recs, None)) =
     (Inr \<lparr>po_JobID = jobID, po_StageID = stageID, po_PartitionID = int p, po_Attempt = int a,
        po_Key = attemptOutputKey base jobID stageID p a,
        po_Bytes = int (length (concat (map println recs))), po_SHA256 = sha (concat (map println recs))\<rparr>,
      store(attemptOutputKey base jobID stageID p a \<mapsto> concat (map println recs)))"
  by (simp add: writeOutputPartition_def Let_def save_loop_fine)

lemma save_job_spec:
  assumes "save_job println sha base jobID stageID att k parts store = (outs, store')"
  shows "length outs = length parts \<and>
    (\<forall>i < length parts. verified sha store' base jobID stageID (outs ! i) \<and>
       po_PartitionID (outs ! i) = int (k + i) \<and> (\<exists>d. po_SHA256 (outs ! i) = sha d) \<and>
       po_Key (outs ! i) = attemptOutputKey base jobID stageID (k + i) (att (k + i)) \<and>
       store' (po_Key (outs ! i)) = Some (concat (map println (parts ! i)))) \<and>
    (\<forall>key. (\<forall>i \<ge> k. key \<noteq> attemptOutputKey base jobID stageID i (att i)) \<longrightarrow> store' key = store key)"
  using assms
proof (induction parts arbitrary: k store outs)
  case (Cons recs parts)
  let ?key = "attemptOutputKey base jobID stageID k (att k)" and ?d = "concat (map println recs)"
  let ?out = "\<lparr>po_JobID = jobID, po_StageID = stageID, po_PartitionID = int k, po_Attempt = int (att k),
      po_Key = ?key, po_Bytes = int (length ?d), po_SHA256 = sha ?d\<rparr>"
  obtain outs' where rest: "save_job println sha base jobID stageID att (Suc k) parts (store(?key \<mapsto> ?d)) = (outs', store')"
    and outs: "outs = ?out # outs'"
    using Cons.prems by (auto simp: Let_def write_fine prod_eq_iff)
  note IH = Cons.IH [OF rest]
  have "\<forall>i \<ge> Suc k. ?key \<noteq> attemptOutputKey base jobID stageID i (att i)"
    using attemptOutputKey_inject by (metis Suc_n_not_le_n)
  then have mine: "store' ?key = Some ?d" using IH by simp
  have first: "verified sha store' base jobID stageID ?out" using mine by (simp add: verified_def)
  have "verified sha store' base jobID stageID (outs ! i) \<and>
       po_PartitionID (outs ! i) = int (k + i) \<and> (\<exists>d. po_SHA256 (outs ! i) = sha d) \<and>
       po_Key (outs ! i) = attemptOutputKey base jobID stageID (k + i) (att (k + i)) \<and>
       store' (po_Key (outs ! i)) = Some (concat (map println ((recs # parts) ! i)))"
    if "i < length (recs # parts)" for i
  proof (cases i)
    case 0
    then show ?thesis using first mine outs by auto
  next
    case (Suc j)
    then have j: "j < length parts" using that by simp
    show ?thesis using IH [THEN conjunct2, THEN conjunct1, rule_format, OF j] outs Suc by (auto simp: ac_simps)
  qed
  moreover have "store' key = store key"
    if "\<forall>i \<ge> k. key \<noteq> attemptOutputKey base jobID stageID i (att i)" for key
    using IH that by simp
  moreover have "length outs = length (recs # parts)" using IH outs by simp
  ultimately show ?case by blast
qed simp

lemma commit_fine_sel [simp]:
  "ci_mkdir commit_fine = None" "ci_open commit_fine k = None" "ci_publish commit_fine = Published"
  by (simp_all add: commit_fine_def)

section \<open>The local committer\<close>

text \<open>
  \<^verbatim>\<open>OutputCommitter\<close> and \<^verbatim>\<open>SaveAsTextFile\<close>. Each partition runs in a goroutine of its own and touches
  only its own temporary and final file; \<open>order\<close> lists the partitions in the order in which they
  finish. The first error is kept, and the marker is written only when there is none.
\<close>

record OutputCommitter =
  oc_Base :: path
  oc_Attempt :: nat

definition NewOutputCommitter :: "path \<Rightarrow> int \<Rightarrow> OutputCommitter" where
  "NewOutputCommitter base attempt =
     \<lparr>oc_Base = base, oc_Attempt = nat (if attempt \<le> 0 then 1 else attempt)\<rparr>"

definition TempDir :: "OutputCommitter \<Rightarrow> path" where
  "TempDir c = oc_Base c @ [tempDirName, ''attempt_'' @ pad5 (oc_Attempt c)]"

definition TempPath :: "OutputCommitter \<Rightarrow> nat \<Rightarrow> path" where
  "TempPath c i = TempDir c @ [PartitionFileName i]"

definition FinalPath :: "OutputCommitter \<Rightarrow> nat \<Rightarrow> path" where
  "FinalPath c i = oc_Base c @ [PartitionFileName i]"

definition SuccessPath :: "OutputCommitter \<Rightarrow> path" where
  "SuccessPath c = oc_Base c @ [SuccessFileName]"

definition CommitPartition :: "OutputCommitter \<Rightarrow> path MemStore \<Rightarrow> nat \<Rightarrow> path MemStore res" where
  "CommitPartition c store i =
     (case store (TempPath c i) of
        None \<Rightarrow> Inl (Err ''no such file'')
      | Some data \<Rightarrow> Inr (store(TempPath c i := None, FinalPath c i \<mapsto> data)))"

definition CommitJob :: "OutputCommitter \<Rightarrow> path MemStore \<Rightarrow> path MemStore" where
  "CommitJob c store = store(SuccessPath c \<mapsto> [])"

definition HasSuccess :: "OutputCommitter \<Rightarrow> path MemStore \<Rightarrow> bool" where
  "HasSuccess c store \<longleftrightarrow> store (SuccessPath c) \<noteq> None"

text \<open>
  One partition: \<open>io\<close> are the answers of the file system (the context of a local save is never
  cancelled). A failed write leaves the partial temporary file behind.
\<close>

definition save_partition ::
  "('r \<Rightarrow> byte list) \<Rightarrow> OutputCommitter \<Rightarrow> save_io \<Rightarrow> path MemStore \<Rightarrow> nat \<Rightarrow> 'r list
     \<Rightarrow> goerr option \<times> path MemStore" where
  "save_partition println c io store idx recs =
     (case io_create io of
        Some e \<Rightarrow> (Some e, store)
      | None \<Rightarrow>
          (case save_loop println (io\<lparr>io_cancel := \<lambda>_. None\<rparr>) 0 recs None [] of
             Inl e \<Rightarrow> (Some e, store(TempPath c idx \<mapsto> []))
           | Inr out \<Rightarrow>
               (case io_close io of
                  Some e \<Rightarrow> (Some e, store(TempPath c idx \<mapsto> out))
                | None \<Rightarrow>
                    (case CommitPartition c (store(TempPath c idx \<mapsto> out)) idx of
                       Inl e \<Rightarrow> (Some e, store(TempPath c idx \<mapsto> out))
                     | Inr store' \<Rightarrow> (None, store')))))"

fun save_partitions ::
  "('r \<Rightarrow> byte list) \<Rightarrow> OutputCommitter \<Rightarrow> (nat \<Rightarrow> save_io) \<Rightarrow> 'r list list \<Rightarrow> nat list
     \<Rightarrow> goerr option \<Rightarrow> path MemStore \<Rightarrow> goerr option \<times> path MemStore" where
  "save_partitions println c io parts [] firstErr store = (firstErr, store)"
| "save_partitions println c io parts (idx # order) firstErr store =
     (let st = save_partition println c (io idx) store idx (parts ! idx)
      in save_partitions println c io parts order
           (case firstErr of None \<Rightarrow> fst st | Some e \<Rightarrow> Some e) (snd st))"

definition SaveAsTextFile ::
  "('r \<Rightarrow> byte list) \<Rightarrow> (nat \<Rightarrow> save_io) \<Rightarrow> path MemStore \<Rightarrow> path \<Rightarrow> 'r list list \<Rightarrow> nat list
     \<Rightarrow> goerr option \<times> path MemStore" where
  "SaveAsTextFile println io store base parts order =
     (let c = NewOutputCommitter base 1;
          st = save_partitions println c io parts order None store
      in case fst st of Some e \<Rightarrow> (Some e, snd st) | None \<Rightarrow> (None, CommitJob c (snd st)))"

lemma save_paths_distinct [simp]:
  "TempPath c i \<noteq> FinalPath c j" "FinalPath c j \<noteq> TempPath c i" "FinalPath c i \<noteq> SuccessPath c"
  "SuccessPath c \<noteq> FinalPath c i" "TempPath c i \<noteq> SuccessPath c" "SuccessPath c \<noteq> TempPath c i"
  "FinalPath c i = FinalPath c j \<longleftrightarrow> i = j" "TempPath c i = TempPath c j \<longleftrightarrow> i = j"
  by (auto simp: TempPath_def TempDir_def FinalPath_def SuccessPath_def PartitionFileName_def SuccessFileName_def)

lemma save_partition_spec:
  assumes "save_partition println c io store idx recs = (e, store')"
  shows "e = None \<Longrightarrow> store' (FinalPath c idx) = Some (concat (map println recs))"
    and "\<forall>j. j \<noteq> idx \<longrightarrow> store' (FinalPath c j) = store (FinalPath c j)"
    and "store' (SuccessPath c) = store (SuccessPath c)"
  using assms
  by (auto simp: save_partition_def CommitPartition_def dest!: save_loop_ok
      split: option.splits sum.splits)


lemma save_partitions_spec:
  assumes "save_partitions println c io parts order fe store = (None, store')" and "distinct order"
  shows "fe = None \<and> (\<forall>i \<in> set order. store' (FinalPath c i) = Some (concat (map println (parts ! i)))) \<and>
    (\<forall>i. i \<notin> set order \<longrightarrow> store' (FinalPath c i) = store (FinalPath c i))"
  using assms
proof (induction order arbitrary: fe store)
  case (Cons idx order)
  obtain e s1 where s1: "save_partition println c (io idx) store idx (parts ! idx) = (e, s1)" by fastforce
  define fe' where "fe' = (case fe of None \<Rightarrow> e | Some e \<Rightarrow> Some e)"
  have "save_partitions println c io parts order fe' s1 = (None, store')"
    using Cons.prems(1) s1 by (simp add: Let_def fe'_def split: option.splits)
  from Cons.IH [OF this] Cons.prems(2) have IH: "fe' = None"
    "\<forall>i \<in> set order. store' (FinalPath c i) = Some (concat (map println (parts ! i)))"
    "\<forall>i. i \<notin> set order \<longrightarrow> store' (FinalPath c i) = s1 (FinalPath c i)" by simp_all
  have "fe = None" "e = None" using IH(1) by (auto simp: fe'_def split: option.splits)
  then show ?case
    using IH(2,3) save_partition_spec(1,2) [OF s1] Cons.prems(2) by auto
qed simp

lemma save_partitions_marker:
  "snd (save_partitions println c io parts order fe store) (SuccessPath c) = store (SuccessPath c)"
proof (induction order arbitrary: fe store)
  case (Cons idx order)
  show ?case
    using Cons save_partition_spec(3) [of println c "io idx" store idx "parts ! idx"]
    by (simp add: Let_def prod_eq_iff)
qed simp

section \<open>Properties\<close>

text \<open>
  C22: At most one dataset is ever committed to an output directory. Whatever attempts and commits
  of whatever jobs run against it, in any order and with any failures, all commits that succeed
  returned one and the same manifest, and the marker holds that manifest at the end.
\<close>

theorem first_commit_wins:
  assumes "save_run println sha marshal base store evs = (ms, store')"
    and "inj_on marshal (set ms)" and "m \<in> set ms" and "m' \<in> set ms"
  shows "m = m' \<and> store' (base @ [SuccessFileName]) = Some (marshal m)"
proof -
  have "store' (base @ [SuccessFileName]) = Some (marshal m)" "store' (base @ [SuccessFileName]) = Some (marshal m')"
    using save_run_marker [OF assms(1)] assms(3,4) by blast+
  then show ?thesis using assms(2-4) by (auto dest: inj_onD)
qed

definition demo_sha :: "byte list \<Rightarrow> string" where
  "demo_sha b = replicate 64 (if b = [] then CHR ''0'' else CHR ''a'')"

definition demo_marshal :: "OutputManifest \<Rightarrow> byte list" where
  "demo_marshal m = map (\<lambda>c. of_nat (of_char c)) (om_JobID m)"

definition demo_out :: "string \<Rightarrow> PartitionOutput" where
  "demo_out job = \<lparr>po_JobID = job, po_StageID = 1, po_PartitionID = 0, po_Attempt = 0,
     po_Key = attemptOutputKey [''out''] job 1 0 0, po_Bytes = 1, po_SHA256 = demo_sha [7]\<rparr>"

definition demo_events :: "byte save_event list" where
  "demo_events =
     [SaveAttempt io_fine ''a'' 1 0 0 (Some ([7], None)), SaveAttempt io_fine ''b'' 1 0 0 (Some ([7], None)),
      SaveCommit commit_fine ''a'' ''t'' 1 1 [demo_out ''a''], SaveCommit commit_fine ''b'' ''t'' 1 1 [demo_out ''b''],
      SaveCommit commit_fine ''a'' ''t'' 1 1 [demo_out ''a'']]"

definition demo_manifest :: OutputManifest where
  "demo_manifest = \<lparr>om_Version = 1, om_JobID = ''a'', om_TaskName = ''t'', om_Partitions = [demo_out ''a'']\<rparr>"

lemma demo_run:
  "fst (save_run (\<lambda>b. [b]) demo_sha demo_marshal [''out''] Map.empty demo_events) = [demo_manifest, demo_manifest]"
  by code_simp

theorem first_commit_wins_witness:
  "snd (save_run (\<lambda>b. [b]) demo_sha demo_marshal [''out''] Map.empty demo_events) ([''out''] @ [SuccessFileName])
     = Some (demo_marshal demo_manifest)"
proof -
  let ?r = "save_run (\<lambda>b. [b]) demo_sha demo_marshal [''out''] Map.empty demo_events"
  have "?r = ([demo_manifest, demo_manifest], snd ?r)" using demo_run by (metis prod.collapse)
  from first_commit_wins [OF this, of demo_manifest demo_manifest] show ?thesis by simp
qed

text \<open>
  C23: A successful commit publishes a complete and intact dataset: the manifest lists exactly one
  attempt for every partition, in partition order, each an attempt file of this job and stage whose
  size and checksum are those of the file in the store.
\<close>

theorem commit_publishes_verified:
  assumes "CommitDistributedOutput sha marshal io store (Some base) jobID taskName stageID cnt outs = (Inr m, store')"
  shows "om_JobID m = jobID \<and> length (om_Partitions m) = cnt \<and>
    (\<forall>p < cnt. om_Partitions m ! p \<in> set outs \<and> po_PartitionID (om_Partitions m ! p) = int p \<and>
       verified sha store' base jobID stageID (om_Partitions m ! p)) \<and>
    store' (base @ [SuccessFileName]) = Some (marshal m)"
  using assms
proof (cases rule: commit_cases)
  case (reached b bp ok)
  have m: "m = \<lparr>om_Version = 1, om_JobID = jobID, om_TaskName = taskName, om_Partitions = bp\<rparr>"
    using reached(6) [of m] by simp
  note full = verify_outputs_full [OF reached(3,2)]
  have "verified sha store' base jobID stageID (bp ! p)" if "p < cnt" for p
  proof -
    have ver: "verified sha store b jobID stageID (bp ! p)" using full that by simp
    then have "po_Key (bp ! p) \<noteq> b @ [SuccessFileName]"
      unfolding verified_def using marker_not_attempt by metis
    then have "store' (po_Key (bp ! p)) = store (po_Key (bp ! p))"
      using publish_marker_spec(1) [OF reached(4)] by blast
    then show ?thesis using ver reached(1) unfolding verified_def by auto
  qed
  then show ?thesis using full reached(1,5) m by simp
qed simp

theorem commit_publishes_verified_witness:
  "\<exists>m store'. CommitDistributedOutput demo_sha demo_marshal commit_fine
      [attemptOutputKey [''out''] ''a'' 1 0 0 \<mapsto> [7]] (Some [''out'']) ''a'' ''t'' 1 1 [demo_out ''a''] = (Inr m, store')
    \<and> verified demo_sha store' [''out''] ''a'' 1 (om_Partitions m ! 0)"
proof -
  let ?c = "CommitDistributedOutput demo_sha demo_marshal commit_fine
      [attemptOutputKey [''out''] ''a'' 1 0 0 \<mapsto> [7]] (Some [''out'']) ''a'' ''t'' 1 1 [demo_out ''a'']"
  have "fst ?c = Inr demo_manifest" by code_simp
  then have "?c = (Inr demo_manifest, snd ?c)" by (metis prod.collapse)
  then show ?thesis using commit_publishes_verified [of demo_sha demo_marshal commit_fine] by fastforce
qed

text \<open>
  C24: Writing and committing: when every partition of a job is written without a failure and the
  directory has no marker yet, the commit of these attempts succeeds, the manifest lists them in
  partition order and the file of each holds the lines of its partition.
\<close>

theorem save_then_commit:
  assumes "\<And>d. length (sha d) = 64" and "jobID \<noteq> []"
    and "store (base @ [SuccessFileName]) = None"
    and "save_job println sha base jobID stageID att 0 parts store = (outs, store1)"
  shows "\<exists>m store'. CommitDistributedOutput sha marshal commit_fine store1 (Some base) jobID taskName stageID
      (length parts) outs = (Inr m, store') \<and> om_Partitions m = outs \<and>
    (\<forall>i < length parts. store' (po_Key (outs ! i)) = Some (concat (map println (parts ! i))))"
proof -
  note spec = save_job_spec [OF assms(4), simplified]
  have len: "length outs = length parts" using spec by blast
  have absent: "store1 (base @ [SuccessFileName]) = None"
    using spec marker_not_attempt assms(3) by metis
  have "verify_outputs sha commit_fine store1 base jobID stageID (0 + length outs) outs
      (replicate (length parts) False) (replicate (length parts) empty_output)
      = Inr (take 0 (replicate (length parts) empty_output) @ outs)"
    by (rule verify_outputs_complete) (use spec assms(1) len in \<open>auto simp: commit_fine_def\<close>)
  then have run: "CommitDistributedOutput sha marshal commit_fine store1 (Some base) jobID taskName stageID
      (length parts) outs = (Inr \<lparr>om_Version = 1, om_JobID = jobID, om_TaskName = taskName, om_Partitions = outs\<rparr>,
        store1(base @ [SuccessFileName] \<mapsto>
          marshal \<lparr>om_Version = 1, om_JobID = jobID, om_TaskName = taskName, om_Partitions = outs\<rparr>))"
    using assms(2) len absent
    by (simp add: CommitDistributedOutput_def Let_def publish_marker_def ms_PutIfAbsent_def)
  have "po_Key (outs ! i) \<noteq> base @ [SuccessFileName]" if "i < length parts" for i
    using spec that marker_not_attempt by metis
  then show ?thesis using run spec by auto
qed

theorem save_then_commit_witness:
  "\<exists>outs store1 m store'. save_job (\<lambda>b. [b]) demo_sha [''out''] ''a'' 1 (\<lambda>_. 0) 0 [[7], [8, 9]] Map.empty = (outs, store1) \<and>
     CommitDistributedOutput demo_sha demo_marshal commit_fine store1 (Some [''out'']) ''a'' ''t'' 1 (length [[7], [8, 9 :: byte]]) outs
       = (Inr m, store') \<and> store' (po_Key (outs ! 1)) = Some [8, 9]"
proof -
  obtain outs store1 where run: "save_job (\<lambda>b. [b]) demo_sha [''out''] ''a'' 1 (\<lambda>_. 0) 0 [[7], [8, 9]] Map.empty
      = (outs, store1)" by fastforce
  have "\<exists>m store'. CommitDistributedOutput demo_sha demo_marshal commit_fine store1 (Some [''out'']) ''a'' ''t'' 1
      (length [[7], [8, 9 :: byte]]) outs = (Inr m, store') \<and> om_Partitions m = outs \<and>
      (\<forall>i < length [[7], [8, 9 :: byte]]. store' (po_Key (outs ! i)) = Some (concat (map (\<lambda>b. [b]) ([[7], [8, 9]] ! i))))"
    by (rule save_then_commit [OF _ _ _ run]) (simp_all add: demo_sha_def)
  then obtain m store' where c: "CommitDistributedOutput demo_sha demo_marshal commit_fine store1 (Some [''out'']) ''a'' ''t'' 1
      (length [[7], [8, 9 :: byte]]) outs = (Inr m, store')"
    and files: "\<forall>i < length [[7], [8, 9 :: byte]]. store' (po_Key (outs ! i)) = Some (concat (map (\<lambda>b. [b]) ([[7], [8, 9]] ! i)))"
    by blast
  have "store' (po_Key (outs ! 1)) = Some [8, 9]" using files [rule_format, of 1] by simp
  with run c show ?thesis by blast
qed



end
