(* ===== verification/Scheduler.thy ===== *)
theory Scheduler
  imports Lineage Range_Sort Output_Commit
begin

text \<open>
  \<^verbatim>\<open>scheduler.go\<close> with the task types of \<^verbatim>\<open>executor.go\<close>, \<^verbatim>\<open>fetch_error.go\<close> and the accumulator merge
  of \<^verbatim>\<open>accumulator.go\<close>: the lineage scheduler that runs the stages of a plan in waves, retries
  failed tasks, repairs lost map outputs by recomputing their lineage, and returns the results of
  the last stage. The workers are the environment: what a worker answers to a task, whether it is
  alive, who it is and whether the job was cancelled are functions of a clock that the scheduler
  advances at each question, so every behaviour of the outside, failures included, is covered.
  Only the coordinator changes the scheduler's state; the tasks of a wave are answered before the
  first completion is processed, in the order of the wave, as in the code.
\<close>

section \<open>Tasks and results\<close>

record FetchError =
  fe_JobID :: string
  fe_ShuffleID :: nat
  fe_MapID :: nat
  fe_Attempt :: nat

datatype task_error = Fetch FetchError | Failed string

record accumulatorValue =
  av_Kind :: string
  av_Int64 :: int64

record 'r ExecResult =
  er_PartitionID :: nat
  er_Kind :: StageKind
  er_Manifest :: "MapOutputManifest option"
  er_Records :: "'r list"
  er_Output :: "PartitionOutput option"
  er_Cached :: "CachePartition list"
  er_Dropped :: "CachePartition list"
  er_Samples :: "gokey list"
  er_Accumulators :: "(string \<times> accumulatorValue) list"

record Task =
  tk_JobID :: string
  tk_Job :: JobSpec
  tk_StageID :: nat
  tk_PartitionID :: nat
  tk_Attempt :: nat
  tk_Upstream :: "MapOutputManifest list"
  tk_Sample :: bool
  tk_RangeBounds :: "byte list"

text \<open>The environment, by clock; a runner without a method answers what the code assumes then.\<close>

record 'r environment =
  ev_exec :: "nat \<Rightarrow> nat \<Rightarrow> Task \<Rightarrow> task_error + 'r ExecResult"
  ev_alive :: "nat \<Rightarrow> nat \<Rightarrow> bool"
  ev_workerID :: "nat \<Rightarrow> nat \<Rightarrow> string option"
  ev_cancelled :: "nat \<Rightarrow> bool"
  ev_complete :: "nat \<Rightarrow> Task \<Rightarrow> 'r ExecResult \<Rightarrow> goerr option"
  ev_encode :: "gokey list option \<Rightarrow> byte list res"

record sched_conf =
  sc_spec :: JobSpec
  sc_plan :: JobPlan
  sc_runners :: nat
  sc_MaxAttempts :: nat
  sc_MaxRecoveries :: nat
  sc_jobID :: string

record 'r lineageScheduler =
  ls_clock :: nat
  ls_worker :: nat
  ls_repairs :: nat
  ls_accepted :: "nat \<times> nat \<rightharpoonup> 'r ExecResult"
  ls_attempts :: "nat \<times> nat \<Rightarrow> nat"
  ls_cacheLocations :: "CachePartition \<rightharpoonup> nat set"
  ls_workerIDs :: "nat \<Rightarrow> string"
  ls_sampled :: "nat \<Rightarrow> bool"
  ls_bounds :: "nat \<Rightarrow> byte list"

text \<open>Besides an error that the scheduler returns, a nil dereference, and the end of the fuel.\<close>

datatype sched_err = Fail goerr | Panic | Out_of_fuel

section \<open>Stages of a plan\<close>

definition stageByID :: "JobPlan \<Rightarrow> nat \<Rightarrow> Stage option" where
  "stageByID plan i = find (\<lambda>s. st_ID s = i) (jp_Stages plan)"

text \<open>One sweep over the stages appends every stage whose parents are done.\<close>

fun sweep_stages :: "Stage list \<Rightarrow> nat list \<Rightarrow> Stage list \<Rightarrow> nat list \<times> Stage list" where
  "sweep_stages [] done_ids out = (done_ids, out)"
| "sweep_stages (s # stages) done_ids out =
     (if st_ID s \<in> set done_ids then sweep_stages stages done_ids out
      else if \<forall>p \<in> set (st_Parents s). p \<in> set done_ids
      then sweep_stages stages (st_ID s # done_ids) (out @ [s])
      else sweep_stages stages done_ids out)"

lemma sweep_stages_length: "length out \<le> length (snd (sweep_stages stages done_ids out))"
  by (induction stages done_ids out rule: sweep_stages.induct) auto

function order_loop :: "Stage list \<Rightarrow> nat list \<Rightarrow> Stage list \<Rightarrow> Stage list" where
  "order_loop stages done_ids out =
     (if length out < length stages then
        let st = sweep_stages stages done_ids out
        in if length (snd st) = length out then out else order_loop stages (fst st) (snd st)
      else out)"
  by auto
termination
proof (relation "measure (\<lambda>(stages, _, out). length stages - length out)", goal_cases)
  case (2 stages done_ids out st)
  then show ?case using sweep_stages_length [of out stages done_ids] by (auto simp: case_prod_unfold)
qed simp

declare order_loop.simps [simp del]

definition orderedStages :: "JobPlan \<Rightarrow> Stage list" where
  "orderedStages plan = order_loop (jp_Stages plan) [] []"

fun latest_loop ::
  "MapOutputManifest list \<Rightarrow> (nat \<times> nat) list \<Rightarrow> (nat \<times> nat \<rightharpoonup> MapOutputManifest) \<Rightarrow> MapOutputManifest list" where
  "latest_loop [] order best = map (\<lambda>k. the (best k)) order"
| "latest_loop (m # maps) order best =
     (let k = (ShuffleID m, MapID m) in
      case best k of
        None \<Rightarrow> latest_loop maps (order @ [k]) (best(k \<mapsto> m))
      | Some old \<Rightarrow>
          if Attempt m > Attempt old then latest_loop maps order (best(k \<mapsto> m))
          else latest_loop maps order best)"

definition latestManifests :: "MapOutputManifest list \<Rightarrow> MapOutputManifest list" where
  "latestManifests maps = latest_loop maps [] Map.empty"

section \<open>Checking a result\<close>

definition ActionSave :: string where "ActionSave = ''save''"

definition validateTaskResult :: "Task \<Rightarrow> Stage \<Rightarrow> 'r ExecResult \<Rightarrow> task_error option" where
  "validateTaskResult task stage r =
     (if er_Kind r \<noteq> st_Kind stage \<or> er_PartitionID r \<noteq> tk_PartitionID task
      then Some (Failed ''mismatched task result'')
      else if st_Kind stage = StageShuffleMap \<and>
        (case er_Manifest r of None \<Rightarrow> True | Some m \<Rightarrow>
           JobID m \<noteq> tk_JobID task \<or> ShuffleID m \<noteq> st_ShuffleID stage \<or>
           MapID m \<noteq> tk_PartitionID task \<or> Attempt m \<noteq> tk_Attempt task)
      then Some (Failed ''stale or mismatched map attempt'')
      else if st_Kind stage = StageResult \<and> js_Action (tk_Job task) = ActionSave \<and>
        (case er_Output r of None \<Rightarrow> True | Some out \<Rightarrow>
           po_JobID out \<noteq> tk_JobID task \<or> po_StageID out \<noteq> tk_StageID task \<or>
           po_PartitionID out \<noteq> int (tk_PartitionID task) \<or> po_Attempt out \<noteq> int (tk_Attempt task))
      then Some (Failed ''stale or mismatched save attempt'')
      else None)"

section \<open>Choosing a worker\<close>

definition stageCacheHints :: "Stage \<Rightarrow> nat \<Rightarrow> CachePartition list" where
  "stageCacheHints stage p = (if p < length (st_CacheHints stage) then st_CacheHints stage ! p else [])"

definition forget_worker :: "nat \<Rightarrow> nat set option \<Rightarrow> nat set option" where
  "forget_worker w ws = (case ws of None \<Rightarrow> None | Some ws \<Rightarrow>
     if ws - {w} = {} then None else Some (ws - {w}))"

definition dropWorkerCache :: "nat \<Rightarrow> 'r lineageScheduler \<Rightarrow> 'r lineageScheduler" where
  "dropWorkerCache w s =
     s\<lparr>ls_cacheLocations := \<lambda>key. forget_worker w (ls_cacheLocations s key)\<rparr>"

definition rememberWorkerCache ::
  "nat \<Rightarrow> CachePartition list \<Rightarrow> CachePartition list \<Rightarrow> 'r lineageScheduler \<Rightarrow> 'r lineageScheduler" where
  "rememberWorkerCache w cached dropped s =
     (let loc1 = fold (\<lambda>key loc. loc(key := forget_worker w (loc key))) dropped (ls_cacheLocations s);
          loc2 = fold (\<lambda>key loc. loc(key \<mapsto>
            insert w (case loc key of None \<Rightarrow> {} | Some ws \<Rightarrow> ws))) cached loc1
      in s\<lparr>ls_cacheLocations := loc2\<rparr>)"

definition check_identity :: "'r environment \<Rightarrow> nat \<Rightarrow> 'r lineageScheduler \<Rightarrow> 'r lineageScheduler" where
  "check_identity env w s =
     (case ev_workerID env (ls_clock s) w of
        None \<Rightarrow> s
      | Some i \<Rightarrow>
          (let s1 = (if ls_workerIDs s w \<noteq> [] \<and> i \<noteq> ls_workerIDs s w then dropWorkerCache w s else s)
           in s1\<lparr>ls_workerIDs := (ls_workerIDs s1)(w := i)\<rparr>))"

definition cache_score :: "'r lineageScheduler \<Rightarrow> CachePartition list \<Rightarrow> nat \<Rightarrow> nat" where
  "cache_score s hints w = length (filter (\<lambda>key.
     case ls_cacheLocations s key of None \<Rightarrow> False | Some ws \<Rightarrow> w \<in> ws) hints)"

fun pick_loop ::
  "'r environment \<Rightarrow> nat \<Rightarrow> nat list \<Rightarrow> CachePartition list \<Rightarrow> nat list \<Rightarrow> (nat \<times> nat) option
     \<Rightarrow> 'r lineageScheduler \<Rightarrow> (nat \<times> nat) option \<times> 'r lineageScheduler" where
  "pick_loop env n busy hints [] best s = (best, s)"
| "pick_loop env n busy hints (i # is) best s =
     (let index = (ls_worker s + i) mod n in
      if index \<in> set busy then pick_loop env n busy hints is best s
      else
        let alive = ev_alive env (ls_clock s) index;
            s1 = s\<lparr>ls_clock := ls_clock s + 1\<rparr>
        in if \<not> alive then pick_loop env n busy hints is best (dropWorkerCache index s1)
           else
             let s2 = check_identity env index s1;
                 score = cache_score s2 hints index;
                 best' = (case best of None \<Rightarrow> Some (index, score)
                   | Some (b, bs) \<Rightarrow> if score > bs then Some (index, score) else Some (b, bs))
             in pick_loop env n busy hints is best' s2)"

definition pickWorkerIndexFor ::
  "sched_conf \<Rightarrow> 'r environment \<Rightarrow> nat list \<Rightarrow> CachePartition list \<Rightarrow> 'r lineageScheduler
     \<Rightarrow> nat option \<times> 'r lineageScheduler" where
  "pickWorkerIndexFor cfg env busy hints s =
     (case pick_loop env (sc_runners cfg) busy hints [0..<sc_runners cfg] None s of
        (None, s') \<Rightarrow> (None, s')
      | (Some (b, _), s') \<Rightarrow> (Some b, s'\<lparr>ls_worker := (b + 1) mod sc_runners cfg\<rparr>))"


section \<open>Losing a map output\<close>

definition forget_stage :: "Stage \<Rightarrow> 'r lineageScheduler \<Rightarrow> 'r lineageScheduler" where
  "forget_stage st s =
     s\<lparr>ls_accepted := (\<lambda>(j, p). if j = st_ID st \<and> p < st_NumPartitions st then None else ls_accepted s (j, p)),
       ls_sampled := (ls_sampled s)(st_ID st := False),
       ls_bounds := (ls_bounds s)(st_ID st := [])\<rparr>"

fun forget_descendants :: "nat \<Rightarrow> Stage list \<Rightarrow> nat list \<Rightarrow> 'r lineageScheduler \<Rightarrow> 'r lineageScheduler" where
  "forget_descendants src [] affected s = s"
| "forget_descendants src (st # stages) affected s =
     (if st_ID st = src then forget_descendants src stages affected s
      else if \<exists>p \<in> set (st_Parents st). p \<in> set affected
      then forget_descendants src stages (st_ID st # affected) (forget_stage st s)
      else forget_descendants src stages affected s)"

text \<open>The first parent of the consumer that writes the shuffle; a missing stage has ID and shuffle 0.\<close>

definition find_source :: "JobPlan \<Rightarrow> Stage \<Rightarrow> nat \<Rightarrow> nat option" where
  "find_source plan consumer sid =
     map_option (\<lambda>i. case stageByID plan i of None \<Rightarrow> 0 | Some st \<Rightarrow> st_ID st)
       (find (\<lambda>i. (case stageByID plan i of None \<Rightarrow> 0 | Some st \<Rightarrow> st_ShuffleID st) = sid) (st_Parents consumer))"

definition invalidate ::
  "sched_conf \<Rightarrow> FetchError \<Rightarrow> Stage \<Rightarrow> 'r lineageScheduler \<Rightarrow> sched_err + 'r lineageScheduler" where
  "invalidate cfg e consumer s =
     (if fe_JobID e \<noteq> sc_jobID cfg then Inl (Fail (Err ''foreign shuffle failure''))
      else
        (case find_source (sc_plan cfg) consumer (fe_ShuffleID e) of
           None \<Rightarrow> Inl (Fail (Err ''unexpected shuffle failure %d''))
         | Some src \<Rightarrow>
             (let k = (src, fe_MapID e) in
              if (case ls_accepted s k of None \<Rightarrow> True | Some r \<Rightarrow>
                    (case er_Manifest r of None \<Rightarrow> True | Some m \<Rightarrow> Attempt m \<noteq> fe_Attempt e))
              then Inl (Fail (Err ''stale shuffle failure''))
              else if ls_repairs s \<ge> sc_MaxRecoveries cfg then Inl (Fail (Err ''recovery limit exhausted''))
              else Inr (forget_descendants src (orderedStages (sc_plan cfg)) [src]
                (s\<lparr>ls_repairs := ls_repairs s + 1, ls_accepted := (ls_accepted s)(k := None)\<rparr>)))))"

section \<open>Dispatching one task\<close>

text \<open>
  The manifests of all partitions of the parents, in order; \<open>None\<close> when one is missing, where the
  code would dereference a nil manifest.
\<close>

definition stage_parts :: "JobPlan \<Rightarrow> nat \<Rightarrow> nat" where
  "stage_parts plan i = (case stageByID plan i of None \<Rightarrow> 0 | Some st \<Rightarrow> st_NumPartitions st)"

definition parent_keys :: "JobPlan \<Rightarrow> Stage \<Rightarrow> (nat \<times> nat) list" where
  "parent_keys plan stage = concat (map (\<lambda>i. map (\<lambda>p. (i, p)) [0..<stage_parts plan i]) (st_Parents stage))"

definition manifest_at :: "'r lineageScheduler \<Rightarrow> nat \<times> nat \<Rightarrow> MapOutputManifest option" where
  "manifest_at s k = (case ls_accepted s k of None \<Rightarrow> None | Some r \<Rightarrow> er_Manifest r)"

definition upstream_of :: "JobPlan \<Rightarrow> 'r lineageScheduler \<Rightarrow> Stage \<Rightarrow> MapOutputManifest list option" where
  "upstream_of plan s stage = those (map (manifest_at s) (parent_keys plan stage))"

definition make_task ::
  "sched_conf \<Rightarrow> 'r lineageScheduler \<Rightarrow> Stage \<Rightarrow> nat \<Rightarrow> MapOutputManifest list \<Rightarrow> Task" where
  "make_task cfg s stage p upstream =
     \<lparr>tk_JobID = sc_jobID cfg, tk_Job = sc_spec cfg, tk_StageID = st_ID stage, tk_PartitionID = p,
      tk_Attempt = ls_attempts s (st_ID stage, p), tk_Upstream = upstream, tk_Sample = False,
      tk_RangeBounds = ls_bounds s (st_ID stage)\<rparr>"

definition bump_attempt :: "nat \<times> nat \<Rightarrow> 'r lineageScheduler \<Rightarrow> 'r lineageScheduler" where
  "bump_attempt k s = s\<lparr>ls_attempts := (ls_attempts s)(k := ls_attempts s k + 1)\<rparr>"

definition tick :: "'r lineageScheduler \<Rightarrow> 'r lineageScheduler" where
  "tick s = s\<lparr>ls_clock := ls_clock s + 1\<rparr>"

definition accept_result ::
  "'r environment \<Rightarrow> Task \<Rightarrow> nat \<Rightarrow> 'r ExecResult \<Rightarrow> 'r lineageScheduler \<Rightarrow> sched_err + 'r lineageScheduler" where
  "accept_result env task w r s =
     (let s1 = s\<lparr>ls_accepted := (ls_accepted s)((tk_StageID task, tk_PartitionID task) \<mapsto> r)\<rparr>;
          s2 = rememberWorkerCache w (er_Cached r) (er_Dropped r) s1
      in case ev_complete env (ls_clock s2) task r of
           Some e \<Rightarrow> Inl (Fail e)
         | None \<Rightarrow> Inr s2)"

text \<open>The answer of a worker with the scheduler's validation.\<close>

definition check_answer :: "Task \<Rightarrow> Stage \<Rightarrow> task_error + 'r ExecResult \<Rightarrow> task_error + 'r ExecResult" where
  "check_answer task stage a =
     (case a of Inl e \<Rightarrow> Inl e | Inr r \<Rightarrow>
       (case validateTaskResult task stage r of None \<Rightarrow> Inr r | Some e \<Rightarrow> Inl e))"

section \<open>Recomputing one partition\<close>

text \<open>
  \<^verbatim>\<open>ensureRetry\<close>. The parents are made available first by the same function; \<open>ens\<close> stands for it
  in the two loops. The recursion is bounded by fuel, one unit for each round of the loop and for
  each level of the lineage; \<open>retry_fuel\<close> is always enough.
\<close>

fun ensure_parts ::
  "(nat \<Rightarrow> 'r lineageScheduler \<Rightarrow> sched_err + 'r ExecResult \<times> 'r lineageScheduler) \<Rightarrow> nat list
     \<Rightarrow> 'r lineageScheduler \<Rightarrow> sched_err + MapOutputManifest list \<times> 'r lineageScheduler" where
  "ensure_parts ens [] s = Inr ([], s)"
| "ensure_parts ens (p # ps) s =
     bindR (ens p s) (\<lambda>(r, s1).
       case er_Manifest r of
         None \<Rightarrow> Inl Panic
       | Some m \<Rightarrow> bindR (ensure_parts ens ps s1) (\<lambda>(ms, s2). Inr (m # ms, s2)))"

fun ensure_parents ::
  "JobPlan \<Rightarrow> (Stage \<Rightarrow> nat \<Rightarrow> 'r lineageScheduler \<Rightarrow> sched_err + 'r ExecResult \<times> 'r lineageScheduler) \<Rightarrow> nat list
     \<Rightarrow> 'r lineageScheduler \<Rightarrow> sched_err + MapOutputManifest list \<times> 'r lineageScheduler" where
  "ensure_parents plan ens [] s = Inr ([], s)"
| "ensure_parents plan ens (i # ids) s =
     (case stageByID plan i of
        None \<Rightarrow> Inl (Fail (Err ''missing parent stage %d''))
      | Some parent \<Rightarrow>
          bindR (ensure_parts (ens parent) [0..<st_NumPartitions parent] s) (\<lambda>(ms, s1).
            bindR (ensure_parents plan ens ids s1) (\<lambda>(ms', s2). Inr (ms @ ms', s2))))"

definition unless_accepted ::
  "(Stage \<Rightarrow> nat \<Rightarrow> 'r lineageScheduler \<Rightarrow> sched_err + 'r ExecResult \<times> 'r lineageScheduler)
     \<Rightarrow> Stage \<Rightarrow> nat \<Rightarrow> 'r lineageScheduler \<Rightarrow> sched_err + 'r ExecResult \<times> 'r lineageScheduler" where
  "unless_accepted f stage p s =
     (case ls_accepted s (st_ID stage, p) of Some r \<Rightarrow> Inr (r, s) | None \<Rightarrow> f stage p s)"

text \<open>
  One round of the loop when the parents' outputs are there; \<open>again\<close> is the next round with a
  number of failures.
\<close>

definition dispatch ::
  "sched_conf \<Rightarrow> 'r environment \<Rightarrow> (nat \<Rightarrow> 'r lineageScheduler \<Rightarrow> sched_err + 'r ExecResult \<times> 'r lineageScheduler)
     \<Rightarrow> nat \<Rightarrow> Stage \<Rightarrow> nat \<Rightarrow> MapOutputManifest list \<Rightarrow> 'r lineageScheduler
     \<Rightarrow> sched_err + 'r ExecResult \<times> 'r lineageScheduler" where
  "dispatch cfg env again failures stage p upstream s1 =
     (let task = make_task cfg s1 stage p upstream;
          s2 = bump_attempt (st_ID stage, p) s1
      in case pickWorkerIndexFor cfg env [] (stageCacheHints stage p) s2 of
           (None, s3) \<Rightarrow> Inl (Fail (Err ''no healthy workers''))
         | (Some w, s3) \<Rightarrow>
             (let answer = ev_exec env (ls_clock s3) w task;
                  s4 = tick s3
              in if ev_cancelled env (ls_clock s4) then Inl (Fail (Err ''context canceled''))
                 else case check_answer task stage answer of
                   Inr r \<Rightarrow> bindR (accept_result env task w r (tick s4)) (\<lambda>s5. Inr (r, s5))
                 | Inl (Fetch e) \<Rightarrow> bindR (invalidate cfg e stage (tick s4)) (again failures)
                 | Inl (Failed _) \<Rightarrow>
                     if failures + 1 \<ge> sc_MaxAttempts cfg
                     then Inl (Fail (Err ''stage %d partition %d retries exhausted''))
                     else again (failures + 1) (tick s4)))"

primrec retry_loop ::
  "nat \<Rightarrow> sched_conf \<Rightarrow> 'r environment \<Rightarrow> nat \<Rightarrow> Stage \<Rightarrow> nat \<Rightarrow> 'r lineageScheduler
     \<Rightarrow> sched_err + 'r ExecResult \<times> 'r lineageScheduler" where
  "retry_loop 0 cfg env failures stage p s = Inl Out_of_fuel"
| "retry_loop (Suc n) cfg env failures stage p s =
     (if ev_cancelled env (ls_clock s) then Inl (Fail (Err ''context canceled''))
      else
        bindR (ensure_parents (sc_plan cfg) (unless_accepted (retry_loop n cfg env 0))
                 (st_Parents stage) (tick s)) (\<lambda>(upstream, s1).
          if ls_repairs s1 \<noteq> ls_repairs s then retry_loop n cfg env failures stage p s1
          else dispatch cfg env (\<lambda>f s'. retry_loop n cfg env f stage p s') failures stage p upstream s1))"

definition ensureRetry ::
  "nat \<Rightarrow> sched_conf \<Rightarrow> 'r environment \<Rightarrow> nat \<Rightarrow> Stage \<Rightarrow> nat \<Rightarrow> 'r lineageScheduler
     \<Rightarrow> sched_err + 'r ExecResult \<times> 'r lineageScheduler" where
  "ensureRetry n cfg env failures = unless_accepted (retry_loop n cfg env failures)"


section \<open>Running a stage\<close>

text \<open>
  Building a wave: at most one task per worker, accepted partitions are skipped. The result is the
  wave, the first partition not yet considered and the state.
\<close>

function build_wave ::
  "sched_conf \<Rightarrow> 'r environment \<Rightarrow> Stage \<Rightarrow> nat \<Rightarrow> nat list \<Rightarrow> (Task \<times> nat) list \<Rightarrow> 'r lineageScheduler
     \<Rightarrow> sched_err + (Task \<times> nat) list \<times> nat \<times> 'r lineageScheduler" where
  "build_wave cfg env stage p busy wave s =
     (if p < st_NumPartitions stage \<and> length busy < sc_runners cfg then
        if ls_accepted s (st_ID stage, p) \<noteq> None then build_wave cfg env stage (Suc p) busy wave s
        else
          case pickWorkerIndexFor cfg env busy (stageCacheHints stage p) s of
            (None, s1) \<Rightarrow> Inr (wave, p, s1)
          | (Some w, s1) \<Rightarrow>
              (case upstream_of (sc_plan cfg) s1 stage of
                 None \<Rightarrow> Inl Panic
               | Some upstream \<Rightarrow>
                   build_wave cfg env stage (Suc p) (w # busy)
                     (wave @ [(make_task cfg s1 stage p upstream, w)]) (bump_attempt (st_ID stage, p) s1))
      else Inr (wave, p, s))"
  by auto
termination
  by (relation "measure (\<lambda>(cfg, env, stage, p, busy, wave, s). st_NumPartitions stage - p)") auto

declare build_wave.simps [simp del]

text \<open>All tasks of a wave are answered before a completion is looked at.\<close>

fun exec_wave ::
  "'r environment \<Rightarrow> nat \<Rightarrow> (Task \<times> nat) list \<Rightarrow> (Task \<times> nat \<times> (task_error + 'r ExecResult)) list" where
  "exec_wave env c [] = []"
| "exec_wave env c ((task, w) # wave) = (task, w, ev_exec env c w task) # exec_wave env (Suc c) wave"

text \<open>The completions in wave order; the flag says that the stage must be left because of a repair.\<close>

fun process_wave ::
  "nat \<Rightarrow> sched_conf \<Rightarrow> 'r environment \<Rightarrow> Stage \<Rightarrow> nat \<Rightarrow> (Task \<times> nat \<times> (task_error + 'r ExecResult)) list
     \<Rightarrow> 'r lineageScheduler \<Rightarrow> sched_err + bool \<times> 'r lineageScheduler" where
  "process_wave n cfg env stage before [] s = Inr (ls_repairs s \<noteq> before, s)"
| "process_wave n cfg env stage before ((task, w, answer) # rest) s =
     (case check_answer task stage answer of
        Inr r \<Rightarrow> bindR (accept_result env task w r (tick s)) (\<lambda>s1. process_wave n cfg env stage before rest s1)
      | Inl (Fetch e) \<Rightarrow> bindR (invalidate cfg e stage s) (\<lambda>s1. Inr (True, s1))
      | Inl (Failed _) \<Rightarrow>
          if sc_MaxAttempts cfg = 1 then Inl (Fail (Err ''stage %d partition %d retries exhausted''))
          else
            bindR (ensureRetry n cfg env 1 stage (tk_PartitionID task) s) (\<lambda>(r, s1).
              if ls_repairs s1 \<noteq> before then Inr (True, s1)
              else process_wave n cfg env stage before rest s1))"

lemma build_wave_progress:
  "build_wave cfg env stage p busy wave s = Inr (wave', p', s') \<Longrightarrow>
     p \<le> p' \<and> (wave' \<noteq> wave \<longrightarrow> p < p')"
proof (induction cfg env stage p busy wave s arbitrary: wave' p' s' rule: build_wave.induct)
  case (1 cfg env stage p busy wave s)
  from "1.prems" show ?case
    using "1.IH"
    by (subst (asm) build_wave.simps)
      (force split: if_splits prod.splits option.splits)
qed

function run_waves ::
  "nat \<Rightarrow> sched_conf \<Rightarrow> 'r environment \<Rightarrow> Stage \<Rightarrow> nat \<Rightarrow> 'r lineageScheduler \<Rightarrow> sched_err + 'r lineageScheduler" where
  "run_waves n cfg env stage p s =
     (if p < st_NumPartitions stage then
        if ev_cancelled env (ls_clock s) then Inl (Fail (Err ''context canceled''))
        else
          case build_wave cfg env stage p [] [] (tick s) of
            Inl e \<Rightarrow> Inl e
          | Inr (wave, p', s1) \<Rightarrow>
              if wave = [] \<and> p' = st_NumPartitions stage then Inr s1
              else if wave = [] then Inl (Fail (Err ''no healthy workers''))
              else
                let done = exec_wave env (ls_clock s1) wave;
                    s2 = s1\<lparr>ls_clock := ls_clock s1 + length wave\<rparr>
                in if ev_cancelled env (ls_clock s2) then Inl (Fail (Err ''context canceled''))
                   else case process_wave n cfg env stage (ls_repairs s) done (tick s2) of
                     Inl e \<Rightarrow> Inl e
                   | Inr (stop, s3) \<Rightarrow> if stop then Inr s3 else run_waves n cfg env stage p' s3
      else Inr s)"
  by auto
termination
proof (relation "measure (\<lambda>(n, cfg, env, stage, p, s). st_NumPartitions stage - p)", goal_cases)
  case (2 n cfg env stage p s b wave x p' s1)
  then show ?case using build_wave_progress [of cfg env stage p "[]" "[]" "tick s" wave p' s1] by auto
qed simp

declare run_waves.simps [simp del]

definition runStage ::
  "nat \<Rightarrow> sched_conf \<Rightarrow> 'r environment \<Rightarrow> Stage \<Rightarrow> 'r lineageScheduler \<Rightarrow> sched_err + 'r lineageScheduler" where
  "runStage n cfg env stage s = run_waves n cfg env stage 0 s"


section \<open>Sampling a range sort\<close>

definition sampleTask ::
  "sched_conf \<Rightarrow> 'r lineageScheduler \<Rightarrow> Stage \<Rightarrow> nat \<Rightarrow> nat \<Rightarrow> Task option" where
  "sampleTask cfg s stage p attempt =
     map_option (\<lambda>upstream.
       \<lparr>tk_JobID = sc_jobID cfg, tk_Job = sc_spec cfg, tk_StageID = st_ID stage, tk_PartitionID = p,
        tk_Attempt = attempt, tk_Upstream = upstream, tk_Sample = True, tk_RangeBounds = []\<rparr>)
       (upstream_of (sc_plan cfg) s stage)"

function build_samples ::
  "sched_conf \<Rightarrow> 'r environment \<Rightarrow> Stage \<Rightarrow> nat \<Rightarrow> nat list \<Rightarrow> (Task \<times> nat) list \<Rightarrow> 'r lineageScheduler
     \<Rightarrow> sched_err + (Task \<times> nat) list \<times> nat \<times> 'r lineageScheduler" where
  "build_samples cfg env stage p busy wave s =
     (if p < st_NumPartitions stage \<and> length busy < sc_runners cfg then
        case pickWorkerIndexFor cfg env busy (stageCacheHints stage p) s of
          (None, s1) \<Rightarrow> Inr (wave, p, s1)
        | (Some w, s1) \<Rightarrow>
            (case sampleTask cfg s1 stage p 0 of
               None \<Rightarrow> Inl Panic
             | Some task \<Rightarrow> build_samples cfg env stage (Suc p) (w # busy) (wave @ [(task, w)]) s1)
      else Inr (wave, p, s))"
  by auto
termination
  by (relation "measure (\<lambda>(cfg, env, stage, p, busy, wave, s). st_NumPartitions stage - p)") auto

declare build_samples.simps [simp del]

definition check_sample :: "nat \<Rightarrow> task_error + 'r ExecResult \<Rightarrow> task_error + 'r ExecResult" where
  "check_sample p a =
     (case a of Inl e \<Rightarrow> Inl e | Inr r \<Rightarrow>
        if er_Kind r \<noteq> StageSample \<or> er_PartitionID r \<noteq> p then Inl (Failed ''mismatched sample result'')
        else Inr r)"

text \<open>
  The retries of one sample: attempts \<open>a\<close>, ... below the limit. \<open>Inl\<close> of a fetch error leaves the
  loop for the repair; the worker that answered is returned with its sample.
\<close>

function retry_sample ::
  "sched_conf \<Rightarrow> 'r environment \<Rightarrow> Stage \<Rightarrow> nat \<Rightarrow> nat \<Rightarrow> 'r lineageScheduler
     \<Rightarrow> sched_err + (FetchError + nat \<times> 'r ExecResult) \<times> 'r lineageScheduler" where
  "retry_sample cfg env stage p a s =
     (if a < sc_MaxAttempts cfg then
        case pickWorkerIndexFor cfg env [] (stageCacheHints stage p) s of
          (None, s1) \<Rightarrow> Inl (Fail (Err ''no healthy workers''))
        | (Some w, s1) \<Rightarrow>
            (case sampleTask cfg s1 stage p a of
               None \<Rightarrow> Inl Panic
             | Some task \<Rightarrow>
                 (case check_sample p (ev_exec env (ls_clock s1) w task) of
                    Inr r \<Rightarrow> Inr (Inr (w, r), tick s1)
                  | Inl (Fetch e) \<Rightarrow> Inr (Inl e, tick s1)
                  | Inl (Failed _) \<Rightarrow> retry_sample cfg env stage p (Suc a) (tick s1)))
      else Inl (Fail (Err ''stage %d sample partition %d retries exhausted'')))"
  by auto
termination
  by (relation "measure (\<lambda>(cfg, env, stage, p, a, s). sc_MaxAttempts cfg - a)") auto

declare retry_sample.simps [simp del]

text \<open>The samples of a wave; the flag says that a repair ended the sampling.\<close>

fun process_samples ::
  "sched_conf \<Rightarrow> 'r environment \<Rightarrow> Stage \<Rightarrow> (Task \<times> nat \<times> (task_error + 'r ExecResult)) list
     \<Rightarrow> gokey list \<Rightarrow> uint64 \<Rightarrow> 'r lineageScheduler
     \<Rightarrow> sched_err + bool \<times> gokey list \<times> uint64 \<times> 'r lineageScheduler" where
  "process_samples cfg env stage [] samples seen s = Inr (False, samples, seen, s)"
| "process_samples cfg env stage ((task, w, answer) # rest) samples seen s =
     bindR
       (case check_sample (tk_PartitionID task) answer of
          Inr r \<Rightarrow> Inr (Inr (w, r), s)
        | Inl (Fetch e) \<Rightarrow> Inr (Inl e, s)
        | Inl (Failed _) \<Rightarrow> retry_sample cfg env stage (tk_PartitionID task) 1 s)
       (\<lambda>(got, s1).
          case got of
            Inl e \<Rightarrow> bindR (invalidate cfg e stage s1) (\<lambda>s2. Inr (True, samples, seen, s2))
          | Inr (w', r) \<Rightarrow>
              (case appendSortSamples samples (er_Samples r) seen of
                 (samples', seen') \<Rightarrow>
                   process_samples cfg env stage rest samples' seen'
                     (rememberWorkerCache w' (er_Cached r) (er_Dropped r) s1)))"

lemma build_samples_progress:
  "build_samples cfg env stage p busy wave s = Inr (wave', p', s') \<Longrightarrow>
     p \<le> p' \<and> (wave' \<noteq> wave \<longrightarrow> p < p')"
proof (induction cfg env stage p busy wave s arbitrary: wave' p' s' rule: build_samples.induct)
  case (1 cfg env stage p busy wave s)
  from "1.prems" show ?case
    using "1.IH"
    by (subst (asm) build_samples.simps) (force split: if_splits prod.splits option.splits)
qed

function sample_waves ::
  "sched_conf \<Rightarrow> 'r environment \<Rightarrow> Stage \<Rightarrow> nat \<Rightarrow> gokey list \<Rightarrow> uint64 \<Rightarrow> 'r lineageScheduler
     \<Rightarrow> sched_err + bool \<times> gokey list \<times> 'r lineageScheduler" where
  "sample_waves cfg env stage p samples seen s =
     (if p < st_NumPartitions stage then
        if ev_cancelled env (ls_clock s) then Inl (Fail (Err ''context canceled''))
        else
          case build_samples cfg env stage p [] [] (tick s) of
            Inl e \<Rightarrow> Inl e
          | Inr (wave, p', s1) \<Rightarrow>
              if wave = [] then Inl (Fail (Err ''no healthy workers''))
              else
                let done = exec_wave env (ls_clock s1) wave;
                    s2 = s1\<lparr>ls_clock := ls_clock s1 + length wave\<rparr>
                in if ev_cancelled env (ls_clock s2) then Inl (Fail (Err ''context canceled''))
                   else case process_samples cfg env stage done samples seen (tick s2) of
                     Inl e \<Rightarrow> Inl e
                   | Inr (stop, samples', seen', s3) \<Rightarrow>
                       if stop then Inr (True, samples', s3)
                       else sample_waves cfg env stage p' samples' seen' s3
      else Inr (False, samples, s))"
  by auto
termination
proof (relation "measure (\<lambda>(cfg, env, stage, p, samples, seen, s). st_NumPartitions stage - p)", goal_cases)
  case (2 cfg env stage p samples seen s b wave x p' s1)
  then show ?case using build_samples_progress [of cfg env stage p "[]" "[]" "tick s" wave p' s1] by auto
qed simp

declare sample_waves.simps [simp del]

definition sampleStage ::
  "sched_conf \<Rightarrow> 'r environment \<Rightarrow> Stage \<Rightarrow> 'r lineageScheduler \<Rightarrow> sched_err + 'r lineageScheduler" where
  "sampleStage cfg env stage s =
     bindR (sample_waves cfg env stage 0 [] 0 s) (\<lambda>(stop, samples, s1).
       if stop then Inr s1
       else
         (case jp_sortLess (sc_plan cfg) (st_ID stage) of
            None \<Rightarrow> Inl Panic
          | Some lt \<Rightarrow>
              (case ev_encode env (selectRangeBounds samples (st_NumReducers stage) lt) of
                 Inl e \<Rightarrow> Inl (Fail e)
               | Inr blob \<Rightarrow>
                   Inr (s1\<lparr>ls_bounds := (ls_bounds s1)(st_ID stage := blob),
                          ls_sampled := (ls_sampled s1)(st_ID stage := True)\<rparr>))))"

section \<open>The scheduling loop\<close>

text \<open>One pass over the stages; the flag says that a repair cut the pass short.\<close>

fun stage_pass ::
  "nat \<Rightarrow> sched_conf \<Rightarrow> 'r environment \<Rightarrow> Stage list \<Rightarrow> 'r lineageScheduler \<Rightarrow> sched_err + bool \<times> 'r lineageScheduler" where
  "stage_pass n cfg env [] s = Inr (False, s)"
| "stage_pass n cfg env (stage # stages) s =
     bindR (if st_RangeSort stage \<and> \<not> ls_sampled s (st_ID stage) then sampleStage cfg env stage s else Inr s) (\<lambda>s1.
       if ls_repairs s1 \<noteq> ls_repairs s then Inr (True, s1)
       else
         bindR (runStage n cfg env stage s1) (\<lambda>s2.
           if ls_repairs s2 \<noteq> ls_repairs s then Inr (True, s2)
           else stage_pass n cfg env stages s2))"

definition collect_results :: "'r lineageScheduler \<Rightarrow> Stage \<Rightarrow> 'r ExecResult list option" where
  "collect_results s result =
     those (map (\<lambda>p. ls_accepted s (st_ID result, p)) [0..<st_NumPartitions result])"

primrec schedule_loop ::
  "nat \<Rightarrow> nat \<Rightarrow> sched_conf \<Rightarrow> 'r environment \<Rightarrow> Stage \<Rightarrow> 'r lineageScheduler
     \<Rightarrow> sched_err + 'r ExecResult list \<times> 'r lineageScheduler" where
  "schedule_loop 0 n cfg env result s = Inl Out_of_fuel"
| "schedule_loop (Suc k) n cfg env result s =
     bindR (stage_pass n cfg env (orderedStages (sc_plan cfg)) s) (\<lambda>(repaired, s1).
       if repaired then schedule_loop k n cfg env result s1
       else
         case collect_results s1 result of
           Some results \<Rightarrow> Inr (results, s1)
         | None \<Rightarrow> schedule_loop k n cfg env result s1)"

definition initial_scheduler :: "'r lineageScheduler" where
  "initial_scheduler = \<lparr>ls_clock = 0, ls_worker = 0, ls_repairs = 0, ls_accepted = Map.empty,
     ls_attempts = \<lambda>_. 0, ls_cacheLocations = Map.empty, ls_workerIDs = \<lambda>_. [], ls_sampled = \<lambda>_. False,
     ls_bounds = \<lambda>_. []\<rparr>"


section \<open>Accumulators\<close>

type_synonym accumulators = "string \<rightharpoonup> accumulatorValue"

definition accumulator_known :: "accumulators \<Rightarrow> string \<times> accumulatorValue \<Rightarrow> bool" where
  "accumulator_known vals nv \<longleftrightarrow>
     (case vals (fst nv) of None \<Rightarrow> False | Some reg \<Rightarrow> av_Kind reg = av_Kind (snd nv))"

definition add_accumulator :: "string \<times> accumulatorValue \<Rightarrow> accumulators \<Rightarrow> accumulators" where
  "add_accumulator nv vals =
     (let reg = (case vals (fst nv) of None \<Rightarrow> \<lparr>av_Kind = [], av_Int64 = 0\<rparr> | Some v \<Rightarrow> v)
      in vals(fst nv \<mapsto> reg\<lparr>av_Int64 := av_Int64 reg + av_Int64 (snd nv)\<rparr>))"

text \<open>
  The accepted results are the entries of a Go map, met in any order: \<open>results\<close> is that order. The
  floating point part of an accumulator is not modelled.
\<close>

definition mergeAccumulators ::
  "accumulators option \<Rightarrow> 'r ExecResult list \<Rightarrow> goerr + accumulators option" where
  "mergeAccumulators ctx results =
     (case ctx of
        None \<Rightarrow> Inr None
      | Some vals \<Rightarrow>
          if \<forall>r \<in> set results. \<forall>nv \<in> set (er_Accumulators r). accumulator_known vals nv
          then Inr (Some (fold (\<lambda>r vals. fold add_accumulator (er_Accumulators r) vals) results vals))
          else Inl (Err ''unknown or mismatched accumulator %q''))"

section \<open>Job submission\<close>

definition plan_keys :: "JobPlan \<Rightarrow> (nat \<times> nat) list" where
  "plan_keys plan = concat (map (\<lambda>st. map (\<lambda>p. (st_ID st, p)) [0..<st_NumPartitions st]) (jp_Stages plan))"

definition accepted_results :: "JobPlan \<Rightarrow> 'r lineageScheduler \<Rightarrow> 'r ExecResult list" where
  "accepted_results plan s =
     concat (map (\<lambda>k. case ls_accepted s k of None \<Rightarrow> [] | Some r \<Rightarrow> [r]) (plan_keys plan))"

definition default_limit :: "int \<Rightarrow> nat \<Rightarrow> nat" where
  "default_limit n d = (if n = 0 then d else nat n)"

text \<open>
  \<^verbatim>\<open>scheduleResults\<close>. The plan is the answer of \<^verbatim>\<open>PlanJob\<close>, which calls the registered job factory,
  and \<open>jobID\<close> the random identifier.
\<close>

definition cacheIdentityPattern :: "string \<Rightarrow> bool" where
  "cacheIdentityPattern s \<longleftrightarrow> s \<noteq> [] \<and> (\<forall>c \<in> set s.
     let n = (of_char c :: nat) in
     97 \<le> n \<and> n \<le> 122 \<or> 65 \<le> n \<and> n \<le> 90 \<or> 48 \<le> n \<and> n \<le> 57 \<or> c = CHR ''_'' \<or> c = CHR ''-'')"

definition job_conf :: "JobSpec \<Rightarrow> JobPlan \<Rightarrow> nat \<Rightarrow> int \<Rightarrow> int \<Rightarrow> string \<Rightarrow> sched_conf" where
  "job_conf spec plan runners maxAttempts maxRecoveries jobID =
     \<lparr>sc_spec = spec, sc_plan = plan, sc_runners = runners, sc_MaxAttempts = default_limit maxAttempts 3,
      sc_MaxRecoveries = default_limit maxRecoveries 2, sc_jobID = jobID\<rparr>"

text \<open>The zero value that \<^verbatim>\<open>stageByID\<close> returns with false; only its ID and partition count are read.\<close>

definition zero_stage :: Stage where
  "zero_stage = \<lparr>st_ID = 0, st_Kind = StageResult, st_RDDID = 0, st_RDDName = [], st_NumPartitions = 0,
     st_ShuffleID = 0, st_NumReducers = 0, st_Parents = [], st_CacheHints = [], st_RangeSort = False\<rparr>"

definition scheduleResults ::
  "nat \<Rightarrow> nat \<Rightarrow> JobPlan res \<Rightarrow> string \<Rightarrow> 'r environment \<Rightarrow> JobSpec \<Rightarrow> accumulators option
     \<Rightarrow> nat \<Rightarrow> int \<Rightarrow> int \<Rightarrow> sched_err + 'r ExecResult list \<times> nat \<times> accumulators option" where
  "scheduleResults k n pj jobID env spec ctx runners maxAttempts maxRecoveries =
     (if js_CacheIdentity spec \<noteq> [] \<and> \<not> cacheIdentityPattern (js_CacheIdentity spec)
      then Inl (Fail (Err ''invalid reusable cache identity %q''))
      else if js_Accumulators spec \<noteq> [] \<and> ctx = None
      then Inl (Fail (Err ''distributed accumulators require BindAccumulators''))
      else if runners = 0 then Inl (Fail (Err ''no workers''))
      else if maxAttempts < 0 \<or> maxRecoveries < 0 then Inl (Fail (Err ''negative retry limit''))
      else
        (case pj of
           Inl e \<Rightarrow> Inl (Fail e)
         | Inr plan \<Rightarrow>
             if length (orderedStages plan) \<noteq> length (jp_Stages plan) then Inl (Fail (Err ''invalid stage DAG''))
             else
               let cfg = job_conf spec plan runners maxAttempts maxRecoveries jobID;
                   result = (case stageByID plan (jp_ResultStageID plan) of None \<Rightarrow> zero_stage | Some st \<Rightarrow> st)
               in bindR (schedule_loop k n cfg env result initial_scheduler) (\<lambda>(results, s).
                    (case mergeAccumulators ctx (accepted_results plan s) of
                       Inl e \<Rightarrow> Inl (Fail e)
                     | Inr ctx' \<Rightarrow> Inr (results, st_ID result, ctx')))))"

section \<open>Actions\<close>

record 'r treeAction =
  ta_merge :: "'r \<Rightarrow> 'r \<Rightarrow> 'r"
  ta_zero :: "'r option"

fun merge_tree :: "'r treeAction \<Rightarrow> 'r option \<Rightarrow> 'r ExecResult list \<Rightarrow> 'r option res" where
  "merge_tree action acc [] = Inr acc"
| "merge_tree action acc (r # rs) =
     (case er_Records r of
        [] \<Rightarrow> merge_tree action acc rs
      | [v] \<Rightarrow> merge_tree action (Some (case acc of None \<Rightarrow> v | Some a \<Rightarrow> ta_merge action a v)) rs
      | _ \<Rightarrow> Inl (Err ''tree action returned multiple partials for partition %d''))"

definition mergeTreeResults :: "'r treeAction \<Rightarrow> 'r ExecResult list \<Rightarrow> 'r list res" where
  "mergeTreeResults action results =
     bindR (merge_tree action (ta_zero action) results) (\<lambda>acc.
       Inr (case acc of None \<Rightarrow> [] | Some a \<Rightarrow> [a]))"

text \<open>
  \<^verbatim>\<open>scheduleContext\<close> and \<^verbatim>\<open>scheduleSaveContext\<close> after the stages have run; \<open>run\<close> is the outcome of
  \<^verbatim>\<open>scheduleResults\<close>.
\<close>

definition scheduleContext ::
  "(string \<Rightarrow> 'r treeAction option) \<Rightarrow> JobSpec
     \<Rightarrow> (sched_err + 'r ExecResult list \<times> nat \<times> accumulators option) \<Rightarrow> sched_err + 'r list" where
  "scheduleContext actions spec run =
     (if js_Action spec = ActionSave then Inl (Fail (Err ''use RunPipelineSave for distributed save''))
      else
        bindR run (\<lambda>(results, _, _).
          case actions (js_Action spec) of
            Some action \<Rightarrow> (case mergeTreeResults action results of Inl e \<Rightarrow> Inl (Fail e) | Inr rs \<Rightarrow> Inr rs)
          | None \<Rightarrow> Inr (concat (map er_Records results))))"

fun selected_loop :: "nat \<Rightarrow> 'r ExecResult list \<Rightarrow> PartitionOutput list res" where
  "selected_loop i [] = Inr []"
| "selected_loop i (r # rs) =
     (case er_Output r of
        None \<Rightarrow> Inl (Err ''missing output for partition %d'')
      | Some out \<Rightarrow>
          if er_PartitionID r \<noteq> i then Inl (Err ''missing output for partition %d'')
          else bindR (selected_loop (Suc i) rs) (\<lambda>outs. Inr (out # outs)))"

definition SelectedOutputs :: "'r ExecResult list \<Rightarrow> nat \<Rightarrow> PartitionOutput list res" where
  "SelectedOutputs results expected =
     (if length results \<noteq> expected then Inl (Err ''incomplete output results'') else selected_loop 0 results)"

definition scheduleSaveContext ::
  "(byte list \<Rightarrow> string) \<Rightarrow> (OutputManifest \<Rightarrow> byte list) \<Rightarrow> (byte list \<Rightarrow> OutputManifest res) \<Rightarrow> commit_io
     \<Rightarrow> bool \<Rightarrow> path MemStore \<Rightarrow> path \<Rightarrow> string \<Rightarrow> JobSpec
     \<Rightarrow> (sched_err + 'r ExecResult list \<times> nat \<times> accumulators option)
     \<Rightarrow> (sched_err + OutputManifest) \<times> path MemStore" where
  "scheduleSaveContext sha marshal unmarshal io cancelled store base jobID spec run =
     (if js_Action spec \<noteq> ActionSave \<or> js_Params spec ''path'' \<in> {None, Some []}
      then (Inl (Fail (Err ''save requires action=save and params.path'')), store)
      else if isl (ReadCommittedOutput unmarshal store base)
      then
        (case run of
           Inl e \<Rightarrow> (Inl e, store)
         | Inr (results, stageID, _) \<Rightarrow>
             (case SelectedOutputs results (length results) of
                Inl e \<Rightarrow> (Inl (Fail e), store)
              | Inr selected \<Rightarrow>
                  if cancelled then (Inl (Fail (Err ''context canceled'')), store)
                  else
                    (case CommitDistributedOutput sha marshal io store (Some base) jobID (js_TaskName spec)
                            stageID (length results) selected of
                       (Inl e, store') \<Rightarrow> (Inl (Fail e), store')
                     | (Inr m, store') \<Rightarrow> (Inr m, store'))))
      else (Inl (Fail ErrOutputCommitted), store))"

end
