(* ===== verification/Recovery.thy ===== *)
theory Recovery
  imports Scheduler
begin

text \<open>
  Correctness of the lineage scheduler: stages run in dependency order, a repair forgets exactly
  the lost map output and everything computed from it, every accepted result was computed from
  the map outputs that are accepted now, no nil manifest is dereferenced, the loops end, and a job
  returns one result for every partition of its last stage. The invariant is \<open>sched_ok\<close>; \<open>adv\<close> is
  how an operation may move from one good state to another.
\<close>

section \<open>Plans in order\<close>

lemma plan_ok_nth:
  assumes "plan_ok plan" and "i < length (jp_Stages plan)"
  shows "st_ID (jp_Stages plan ! i) = i"
proof -
  have "map st_ID (jp_Stages plan) = [0..<length (jp_Stages plan)]"
    using assms(1) by (simp add: plan_ok_def Let_def)
  then have "map st_ID (jp_Stages plan) ! i = [0..<length (jp_Stages plan)] ! i" by simp
  then show ?thesis using assms(2) by simp
qed

lemma stageByID_plan_ok:
  assumes "plan_ok plan"
  shows "stageByID plan i = Some st \<longleftrightarrow> i < length (jp_Stages plan) \<and> st = jp_Stages plan ! i"
proof
  assume "stageByID plan i = Some st"
  then have "st \<in> set (jp_Stages plan)" "st_ID st = i"
    by (auto simp: stageByID_def find_Some_iff)
  then show "i < length (jp_Stages plan) \<and> st = jp_Stages plan ! i"
    using plan_ok_nth [OF assms] by (auto simp: in_set_conv_nth)
next
  assume st: "i < length (jp_Stages plan) \<and> st = jp_Stages plan ! i"
  have "st_ID (jp_Stages plan ! j) \<noteq> i" if "j < i" for j
    using plan_ok_nth [OF assms, of j] st that by simp
  then show "stageByID plan i = Some st"
    using st plan_ok_nth [OF assms, of i] unfolding stageByID_def find_Some_iff by blast
qed

lemma plan_ok_parent:
  assumes "plan_ok plan" and "stageByID plan i = Some st" and "j \<in> set (st_Parents st)"
  shows "j < i" and "\<exists>sj. stageByID plan j = Some sj \<and> st_Kind sj = StageShuffleMap"
proof -
  have st: "i < length (jp_Stages plan)" "st = jp_Stages plan ! i"
    using assms(1,2) by (simp_all add: stageByID_plan_ok)
  then have ID: "st_ID st = i" using plan_ok_nth [OF assms(1)] by simp
  have "\<forall>st \<in> set (jp_Stages plan). \<forall>j \<in> set (st_Parents st). j < st_ID st"
    using assms(1) by (simp add: plan_ok_def Let_def)
  then show ji: "j < i" using assms(3) st ID nth_mem by metis
  then have j: "j < length (jp_Stages plan)" using st by simp
  have "length (jp_Stages plan) = jp_ResultStageID plan + 1" using assms(1) by (simp add: plan_ok_def Let_def)
  moreover have "st_Kind (jp_Stages plan ! j) = (if j = jp_ResultStageID plan then StageResult else StageShuffleMap)"
    using assms(1) nth_mem [OF j] plan_ok_nth [OF assms(1) j] by (simp add: plan_ok_def Let_def)
  ultimately have "st_Kind (jp_Stages plan ! j) = StageShuffleMap" using ji st(1) by simp
  then show "\<exists>sj. stageByID plan j = Some sj \<and> st_Kind sj = StageShuffleMap"
    using j by (simp add: stageByID_plan_ok [OF assms(1)])
qed

lemma stageByID_ID: "stageByID plan i = Some st \<Longrightarrow> st_ID st = i"
  by (auto simp: stageByID_def find_Some_iff)

lemma sweep_all:
  assumes "map st_ID stages = [k..<k + length stages]"
    and "\<forall>st \<in> set stages. \<forall>j \<in> set (st_Parents st). j < st_ID st"
    and "set ids = {..<k}"
  shows "snd (sweep_stages stages ids out) = out @ stages"
  using assms
proof (induction stages arbitrary: k ids out)
  case (Cons st stages)
  have upt: "[k..<k + length (st # stages)] = k # [Suc k..<Suc k + length stages]"
    by (simp add: upt_conv_Cons del: upt_Suc)
  then have ID: "st_ID st = k" and rest: "map st_ID stages = [Suc k..<Suc k + length stages]"
    using Cons.prems(1) by simp_all
  have "snd (sweep_stages stages (st_ID st # ids) (out @ [st])) = (out @ [st]) @ stages"
    using rest Cons.prems(2,3) ID by (intro Cons.IH) auto
  then show ?case using Cons.prems(2,3) ID by auto
qed simp

lemma orderedStages_plan_ok:
  assumes "plan_ok plan"
  shows "orderedStages plan = jp_Stages plan"
proof -
  let ?st = "jp_Stages plan"
  have sw: "snd (sweep_stages ?st [] []) = [] @ ?st"
    by (rule sweep_all [of _ 0]) (use assms in \<open>auto simp: plan_ok_def Let_def\<close>)
  have stop: "order_loop ?st d ?st = ?st" for d by (simp add: order_loop.simps [of ?st d ?st])
  show ?thesis
    unfolding orderedStages_def using sw stop
    by (subst order_loop.simps) (auto simp: Let_def)
qed

section \<open>Descendants\<close>

inductive descends :: "JobPlan \<Rightarrow> nat \<Rightarrow> nat \<Rightarrow> bool" for plan src where
  child: "stageByID plan i = Some st \<Longrightarrow> src \<in> set (st_Parents st) \<Longrightarrow> descends plan src i"
| further: "descends plan src j \<Longrightarrow> stageByID plan i = Some st \<Longrightarrow> j \<in> set (st_Parents st) \<Longrightarrow>
    descends plan src i"

lemma descends_step:
  assumes "stageByID plan i = Some st"
  shows "descends plan src i \<longleftrightarrow> (\<exists>j \<in> set (st_Parents st). j = src \<or> descends plan src j)"
proof
  assume "descends plan src i"
  then show "\<exists>j \<in> set (st_Parents st). j = src \<or> descends plan src j"
    by (cases rule: descends.cases) (use assms in auto)
qed (use assms in \<open>auto intro: descends.intros\<close>)

lemma descends_gt: "descends plan src i \<Longrightarrow> plan_ok plan \<Longrightarrow> src < i"
  by (induction rule: descends.induct) (blast dest: plan_ok_parent(1), meson less_trans plan_ok_parent(1))

definition lost :: "JobPlan \<Rightarrow> nat \<Rightarrow> nat \<times> nat \<Rightarrow> bool" where
  "lost plan src k \<longleftrightarrow> descends plan src (fst k) \<and> snd k < stage_parts plan (fst k)"

lemma forget_descendants_spec:
  assumes ok: "plan_ok plan" and stages: "stages = drop k (jp_Stages plan)"
    and aff: "set affected = insert src {j. j < k \<and> descends plan src j}"
  shows "forget_descendants src stages affected s =
    s\<lparr>ls_accepted := \<lambda>q. if k \<le> fst q \<and> lost plan src q then None else ls_accepted s q,
      ls_sampled := \<lambda>j. if k \<le> j \<and> descends plan src j then False else ls_sampled s j,
      ls_bounds := \<lambda>j. if k \<le> j \<and> descends plan src j then [] else ls_bounds s j\<rparr>"
  using stages aff
proof (induction stages arbitrary: k affected s)
  case Nil
  have no: "\<not> descends plan src j" if "k \<le> j" for j
  proof
    assume "descends plan src j"
    then obtain st where "stageByID plan j = Some st" by (auto elim: descends.cases)
    then show False using Nil.prems(1) that by (simp add: stageByID_plan_ok [OF ok])
  qed
  then have "(\<lambda>q. if k \<le> fst q \<and> lost plan src q then None else ls_accepted s q) = ls_accepted s"
    "(\<lambda>j. if k \<le> j \<and> descends plan src j then False else ls_sampled s j) = ls_sampled s"
    "(\<lambda>j. if k \<le> j \<and> descends plan src j then [] else ls_bounds s j) = ls_bounds s"
    by (auto simp: lost_def fun_eq_iff)
  then show ?case by simp
next
  case (Cons st stages)
  have k: "k < length (jp_Stages plan)" and st: "st = jp_Stages plan ! k"
    and rest: "stages = drop (Suc k) (jp_Stages plan)"
    using Cons.prems(1) by (metis drop_eq_Nil leI list.distinct(1)) (metis Cons.prems(1) Cons_nth_drop_Suc drop_eq_Nil leI list.distinct(1) list.inject)+
  have by_id: "stageByID plan k = Some st" using k st by (simp add: stageByID_plan_ok [OF ok])
  have ID: "st_ID st = k" using stageByID_ID [OF by_id] .
  have ge: "k \<le> j \<longleftrightarrow> j = k \<or> Suc k \<le> j" for j by auto
  have par: "j < k" if "j \<in> set (st_Parents st)" for j using plan_ok_parent(1) [OF ok by_id that] .
  have hit: "(\<exists>p \<in> set (st_Parents st). p \<in> set affected) \<longleftrightarrow> descends plan src k"
    unfolding descends_step [OF by_id] using par Cons.prems(2) by auto
  have self: "\<not> descends plan src src" using descends_gt ok by blast
  show ?case
  proof (cases "descends plan src k")
    case True
    then have ne: "k \<noteq> src" using self by auto
    have "set (k # affected) = insert src {j. j < Suc k \<and> descends plan src j}"
      using Cons.prems(2) True by (auto simp: less_Suc_eq)
    note IH = Cons.IH [OF rest this, of "forget_stage st s"]
    have "forget_descendants src (st # stages) affected s
        = forget_descendants src stages (k # affected) (forget_stage st s)"
      using ne ID hit True by simp
    then show ?thesis
      unfolding IH using True ID by_id
      by (intro lineageScheduler.equality)
        (auto simp: forget_stage_def lost_def stage_parts_def fun_eq_iff ge)
  next
    case False
    have "set affected = insert src {j. j < Suc k \<and> descends plan src j}"
      using Cons.prems(2) False by (auto simp: less_Suc_eq)
    note IH = Cons.IH [OF rest this, of s]
    have "forget_descendants src (st # stages) affected s = forget_descendants src stages affected s"
      using ID hit False by simp
    then show ?thesis
      unfolding IH using False by (intro lineageScheduler.equality) (auto simp: lost_def fun_eq_iff ge)
  qed
qed


section \<open>The invariant\<close>

text \<open>A worker never accepts a range-sort map task without boundaries, as \<^verbatim>\<open>ExecuteTaskContext\<close> has it.\<close>

definition rejects_unsampled :: "sched_conf \<Rightarrow> 'r environment \<Rightarrow> bool" where
  "rejects_unsampled cfg env \<longleftrightarrow>
     (\<forall>c w t st r. stageByID (sc_plan cfg) (tk_StageID t) = Some st \<and> st_RangeSort st \<and>
        \<not> tk_Sample t \<and> tk_RangeBounds t = [] \<longrightarrow> ev_exec env c w t \<noteq> Inr r)"

text \<open>Task \<open>t\<close> is the one that the scheduler would build for partition \<open>p\<close> of the stage now.\<close>

definition task_for :: "sched_conf \<Rightarrow> 'r lineageScheduler \<Rightarrow> Stage \<Rightarrow> nat \<Rightarrow> Task \<Rightarrow> bool" where
  "task_for cfg s st p t \<longleftrightarrow>
     tk_JobID t = sc_jobID cfg \<and> tk_Job t = sc_spec cfg \<and> tk_StageID t = st_ID st \<and>
     tk_PartitionID t = p \<and> \<not> tk_Sample t \<and> p < st_NumPartitions st \<and>
     tk_Attempt t < ls_attempts s (st_ID st, p) \<and>
     upstream_of (sc_plan cfg) s st = Some (tk_Upstream t) \<and> tk_RangeBounds t = ls_bounds s (st_ID st)"

definition computed :: "sched_conf \<Rightarrow> 'r environment \<Rightarrow> 'r lineageScheduler \<Rightarrow> nat \<Rightarrow> nat \<Rightarrow> 'r ExecResult \<Rightarrow> bool" where
  "computed cfg env s j p r \<longleftrightarrow>
     (\<exists>st c w t. stageByID (sc_plan cfg) j = Some st \<and> p < st_NumPartitions st \<and>
        ev_exec env c w t = Inr r \<and> validateTaskResult t st r = None \<and>
        tk_JobID t = sc_jobID cfg \<and> tk_Job t = sc_spec cfg \<and> tk_StageID t = j \<and> tk_PartitionID t = p \<and>
        \<not> tk_Sample t \<and> tk_Attempt t < ls_attempts s (j, p) \<and>
        upstream_of (sc_plan cfg) s st = Some (tk_Upstream t) \<and>
        (rejects_unsampled cfg env \<and> st_RangeSort st \<longrightarrow> tk_RangeBounds t = ls_bounds s j \<and> ls_sampled s j))"

definition sched_ok :: "sched_conf \<Rightarrow> 'r environment \<Rightarrow> 'r lineageScheduler \<Rightarrow> bool" where
  "sched_ok cfg env s \<longleftrightarrow> ls_repairs s \<le> sc_MaxRecoveries cfg \<and>
     (\<forall>j. \<not> ls_sampled s j \<longrightarrow> ls_bounds s j = []) \<and>
     (\<forall>j p r. ls_accepted s (j, p) = Some r \<longrightarrow> computed cfg env s j p r)"

definition complete :: "JobPlan \<Rightarrow> 'r lineageScheduler \<Rightarrow> nat \<Rightarrow> bool" where
  "complete plan s j \<longleftrightarrow> (\<forall>p < stage_parts plan j. ls_accepted s (j, p) \<noteq> None)"

lemma sched_ok_initial: "sched_ok cfg env initial_scheduler"
  by (simp add: sched_ok_def initial_scheduler_def)

subsection \<open>Steps that change nothing of importance\<close>

definition core :: "'r lineageScheduler \<Rightarrow> nat \<times> (nat \<times> nat \<rightharpoonup> 'r ExecResult) \<times> (nat \<times> nat \<Rightarrow> nat) \<times> (nat \<Rightarrow> bool) \<times> (nat \<Rightarrow> byte list)" where
  "core s = (ls_repairs s, ls_accepted s, ls_attempts s, ls_sampled s, ls_bounds s)"

lemma core_eqD:
  assumes "core s = core s'"
  shows "ls_repairs s = ls_repairs s'" "ls_accepted s = ls_accepted s'" "ls_attempts s = ls_attempts s'"
    "ls_sampled s = ls_sampled s'" "ls_bounds s = ls_bounds s'"
  using assms by (simp_all add: core_def)

lemma core_simps [simp]:
  "core (s\<lparr>ls_clock := c\<rparr>) = core s" "core (s\<lparr>ls_worker := w\<rparr>) = core s"
  "core (s\<lparr>ls_cacheLocations := l\<rparr>) = core s" "core (s\<lparr>ls_workerIDs := i\<rparr>) = core s"
  "core (tick s) = core s" "core (dropWorkerCache w s) = core s"
  "core (rememberWorkerCache w a b s) = core s" "core (check_identity env w s) = core s"
  by (simp_all add: core_def tick_def dropWorkerCache_def rememberWorkerCache_def check_identity_def Let_def
      split: option.splits)

lemma core_pick_loop: "core (snd (pick_loop env n busy hints is best s)) = core s"
proof (induction "is" arbitrary: best s)
  case (Cons i "is")
  then show ?case by (simp add: Let_def)
qed simp

lemma core_pick:
  "pickWorkerIndexFor cfg env busy hints s = (w, s') \<Longrightarrow> core s' = core s"
  using core_pick_loop [of env "sc_runners cfg" busy hints "[0..<sc_runners cfg]" None s]
  by (auto simp: pickWorkerIndexFor_def split: prod.splits option.splits)

lemma upstream_core:
  assumes "core s = core s'"
  shows "upstream_of plan s st = upstream_of plan s' st"
  unfolding upstream_of_def manifest_at_def core_eqD [OF assms] ..

lemma computed_core:
  assumes "core s = core s'"
  shows "computed cfg env s j p r = computed cfg env s' j p r"
  unfolding computed_def core_eqD [OF assms] upstream_core [OF assms] ..

lemma sched_ok_core:
  assumes "core s = core s'"
  shows "sched_ok cfg env s = sched_ok cfg env s'"
  unfolding sched_ok_def core_eqD [OF assms] computed_core [OF assms] ..

lemma task_for_core:
  assumes "core s = core s'"
  shows "task_for cfg s st p t = task_for cfg s' st p t"
  unfolding task_for_def core_eqD [OF assms] upstream_core [OF assms] ..

lemma complete_core:
  assumes "core s = core s'"
  shows "complete plan s j = complete plan s' j"
  unfolding complete_def core_eqD [OF assms] ..

lemma those_Some: "those xs = Some ys \<longleftrightarrow> xs = map Some ys"
  by (induction xs arbitrary: ys) (auto split: option.splits)

lemma those_None: "those xs = None \<longleftrightarrow> None \<in> set xs"
  by (induction xs) (auto split: option.splits)

lemma upstream_cong:
  assumes "\<And>k. k \<in> set (parent_keys plan st) \<Longrightarrow> ls_accepted s k = ls_accepted s' k"
  shows "upstream_of plan s st = upstream_of plan s' st"
  unfolding upstream_of_def using assms by (simp add: manifest_at_def cong: map_cong)

lemma parent_keys_iff:
  "(j, p) \<in> set (parent_keys plan st) \<longleftrightarrow> j \<in> set (st_Parents st) \<and> p < stage_parts plan j"
  by (fastforce simp: parent_keys_def)

lemma upstream_Some_accepted:
  assumes "upstream_of plan s st = Some ms" and "k \<in> set (parent_keys plan st)"
  shows "ls_accepted s k \<noteq> None"
proof -
  have "map (manifest_at s) (parent_keys plan st) = map Some ms"
    using assms(1) by (simp add: upstream_of_def those_Some)
  then have "manifest_at s k \<in> set (map Some ms)" using assms(2) by (metis image_eqI list.set_map)
  then show ?thesis by (auto simp: manifest_at_def split: option.splits)
qed


subsection \<open>Moves between good states\<close>

text \<open>
  An operation keeps the invariant, never takes a repair back, accepts only keys of \<open>K\<close>, never
  reuses an attempt, and without a repair it forgets nothing.
\<close>

definition adv ::
  "sched_conf \<Rightarrow> 'r environment \<Rightarrow> (nat \<times> nat) set \<Rightarrow> 'r lineageScheduler \<Rightarrow> 'r lineageScheduler \<Rightarrow> bool" where
  "adv cfg env K s s' \<longleftrightarrow> sched_ok cfg env s' \<and> ls_repairs s \<le> ls_repairs s' \<and>
     dom (ls_accepted s') \<subseteq> dom (ls_accepted s) \<union> K \<and>
     (\<forall>k. ls_attempts s k \<le> ls_attempts s' k) \<and>
     (ls_repairs s' = ls_repairs s \<longrightarrow>
        ls_accepted s \<subseteq>\<^sub>m ls_accepted s' \<and> ls_sampled s' = ls_sampled s \<and> ls_bounds s' = ls_bounds s)"

lemma adv_core: "sched_ok cfg env s \<Longrightarrow> core s' = core s \<Longrightarrow> adv cfg env K s s'"
  using sched_ok_core [of s' s cfg env] core_eqD [of s' s] by (simp add: adv_def)

lemma adv_trans:
  assumes "adv cfg env K s s1" and "adv cfg env L s1 s2" and "K \<subseteq> M" and "L \<subseteq> M"
  shows "adv cfg env M s s2"
proof -
  have r: "ls_repairs s \<le> ls_repairs s1" "ls_repairs s1 \<le> ls_repairs s2"
    and "\<forall>k. ls_attempts s k \<le> ls_attempts s1 k" "\<forall>k. ls_attempts s1 k \<le> ls_attempts s2 k"
    using assms(1,2) by (simp_all add: adv_def)
  then have att: "\<forall>k. ls_attempts s k \<le> ls_attempts s2 k" using order_trans by blast
  have dom: "dom (ls_accepted s2) \<subseteq> dom (ls_accepted s) \<union> M"
    using assms unfolding adv_def by blast
  have "ls_accepted s \<subseteq>\<^sub>m ls_accepted s2 \<and> ls_sampled s2 = ls_sampled s \<and> ls_bounds s2 = ls_bounds s"
    if "ls_repairs s2 = ls_repairs s"
    using that r assms(1,2) map_le_trans [of "ls_accepted s" "ls_accepted s1" "ls_accepted s2"]
    by (simp add: adv_def)
  then show ?thesis using assms(2) r att dom by (simp add: adv_def)
qed

lemma adv_mono: "adv cfg env K s s' \<Longrightarrow> K \<subseteq> L \<Longrightarrow> adv cfg env L s s'"
  unfolding adv_def by blast

lemma adv_core_left: "adv cfg env K s s' \<Longrightarrow> core s = core s0 \<Longrightarrow> adv cfg env K s0 s'"
  using core_eqD [of s s0] by (simp add: adv_def)

lemma adv_same:
  "adv cfg env K s s' \<Longrightarrow> ls_repairs s' = ls_repairs s \<Longrightarrow> ls_accepted s k = Some r \<Longrightarrow> ls_accepted s' k = Some r"
  unfolding adv_def map_le_def by (metis domI)

lemma adv_complete:
  "adv cfg env K s s' \<Longrightarrow> ls_repairs s' = ls_repairs s \<Longrightarrow> complete plan s j \<Longrightarrow> complete plan s' j"
  unfolding complete_def using adv_same by (metis not_Some_eq)

lemma computed_attempts:
  assumes "computed cfg env s j p r" and "\<forall>k. ls_attempts s k \<le> ls_attempts s' k"
    and "ls_sampled s' j = ls_sampled s j" and "ls_bounds s' j = ls_bounds s j"
    and "\<And>st. stageByID (sc_plan cfg) j = Some st \<Longrightarrow>
      upstream_of (sc_plan cfg) s' st = upstream_of (sc_plan cfg) s st"
  shows "computed cfg env s' j p r"
proof -
  from assms(1) obtain st c w t where t: "stageByID (sc_plan cfg) j = Some st" "p < st_NumPartitions st"
    "ev_exec env c w t = Inr r" "validateTaskResult t st r = None" "tk_JobID t = sc_jobID cfg"
    "tk_Job t = sc_spec cfg" "tk_StageID t = j" "tk_PartitionID t = p" "\<not> tk_Sample t"
    "tk_Attempt t < ls_attempts s (j, p)" "upstream_of (sc_plan cfg) s st = Some (tk_Upstream t)"
    "rejects_unsampled cfg env \<and> st_RangeSort st \<longrightarrow> tk_RangeBounds t = ls_bounds s j \<and> ls_sampled s j"
    unfolding computed_def by blast
  have "tk_Attempt t < ls_attempts s' (j, p)" using t(10) assms(2) less_le_trans by blast
  then show ?thesis unfolding computed_def using t assms(3-5) by (intro exI [of _ st] exI [of _ c] exI [of _ w] exI [of _ t]) simp
qed

lemma adv_bump: "sched_ok cfg env s \<Longrightarrow> adv cfg env K s (bump_attempt k s)"
proof -
  assume ok: "sched_ok cfg env s"
  have up: "upstream_of plan (bump_attempt k s) st = upstream_of plan s st" for plan st
    by (rule upstream_cong) (simp add: bump_attempt_def)
  have "computed cfg env (bump_attempt k s) j p r" if "ls_accepted s (j, p) = Some r" for j p r
  proof (rule computed_attempts [of _ _ s])
    show "computed cfg env s j p r" using ok that by (simp add: sched_ok_def)
  qed (use up in \<open>simp_all add: bump_attempt_def\<close>)
  then have "sched_ok cfg env (bump_attempt k s)"
    using ok by (simp add: sched_ok_def bump_attempt_def)
  then show ?thesis by (auto simp: adv_def bump_attempt_def)
qed

subsection \<open>Accepting a result\<close>

lemma computed_of_task:
  assumes "task_for cfg s st p t" and "stageByID (sc_plan cfg) (st_ID st) = Some st"
    and "ev_exec env c w t = Inr r" and "validateTaskResult t st r = None"
    and "\<forall>j. \<not> ls_sampled s j \<longrightarrow> ls_bounds s j = []"
  shows "computed cfg env s (st_ID st) p r"
proof -
  have "ls_sampled s (st_ID st)" if "rejects_unsampled cfg env" "st_RangeSort st"
  proof (rule ccontr)
    assume "\<not> ls_sampled s (st_ID st)"
    then have "tk_RangeBounds t = []" using assms(1,5) by (simp add: task_for_def)
    then show False using that assms(1-3) unfolding rejects_unsampled_def task_for_def by metis
  qed
  then show ?thesis
    unfolding computed_def using assms(1-4) unfolding task_for_def by metis
qed

lemma upstream_accept:
  assumes ok: "sched_ok cfg env s" and none: "ls_accepted s (j, p) = None"
    and p: "p < stage_parts (sc_plan cfg) j" and acc: "ls_accepted s (j', p') = Some r'"
    and st: "stageByID (sc_plan cfg) j' = Some st"
  shows "upstream_of (sc_plan cfg) (s\<lparr>ls_accepted := (ls_accepted s)((j, p) \<mapsto> r)\<rparr>) st
    = upstream_of (sc_plan cfg) s st"
proof (rule upstream_cong)
  fix k assume k: "k \<in> set (parent_keys (sc_plan cfg) st)"
  obtain ms where "upstream_of (sc_plan cfg) s st = Some ms"
    using ok acc st unfolding sched_ok_def computed_def by fastforce
  then have "ls_accepted s k \<noteq> None" using upstream_Some_accepted k by blast
  then have "k \<noteq> (j, p)" using none by auto
  then show "ls_accepted (s\<lparr>ls_accepted := (ls_accepted s)((j, p) \<mapsto> r)\<rparr>) k = ls_accepted s k" by simp
qed

lemma adv_accept:
  assumes plan: "plan_ok (sc_plan cfg)" and ok: "sched_ok cfg env s" and st: "stageByID (sc_plan cfg) (st_ID st) = Some st"
    and t: "task_for cfg s st p t" and none: "ls_accepted s (st_ID st, p) = None"
    and r: "ev_exec env c w t = Inr r" "validateTaskResult t st r = None"
    and run: "accept_result env t w' r s0 = Inr s'" and s0: "core s0 = core s"
  shows "adv cfg env {(st_ID st, p)} s s' \<and> ls_accepted s' (st_ID st, p) = Some r \<and> ls_repairs s' = ls_repairs s"
proof -
  let ?j = "st_ID st"
  define s1 where "s1 = s\<lparr>ls_accepted := (ls_accepted s)((?j, p) \<mapsto> r)\<rparr>"
  have tk: "tk_StageID t = ?j" "tk_PartitionID t = p" using t by (simp_all add: task_for_def)
  have "core s' = core (s0\<lparr>ls_accepted := (ls_accepted s0)((?j, p) \<mapsto> r)\<rparr>)"
    using run tk by (auto simp: accept_result_def Let_def split: option.splits)
  then have c: "core s' = core s1" using s0 by (simp add: s1_def core_def)
  have num: "p < stage_parts (sc_plan cfg) ?j" using t st by (simp add: task_for_def stage_parts_def)
  have "?j \<notin> set (st_Parents st)" using plan_ok_parent(1) [OF plan st] by blast
  then have self: "upstream_of (sc_plan cfg) s1 st = upstream_of (sc_plan cfg) s st"
    by (intro upstream_cong) (auto simp: s1_def parent_keys_iff)
  have t1: "task_for cfg s1 st p t" using t self by (simp add: task_for_def s1_def)
  have "computed cfg env s1 ?j p r"
    by (rule computed_of_task [OF t1 st r]) (use ok in \<open>simp add: sched_ok_def s1_def\<close>)
  moreover have "computed cfg env s1 j' p' r'" if "ls_accepted s (j', p') = Some r'" for j' p' r'
  proof (rule computed_attempts [of _ _ s])
    show "computed cfg env s j' p' r'" using ok that by (simp add: sched_ok_def)
  qed (use upstream_accept [OF ok none num that] in \<open>simp_all add: s1_def\<close>)
  ultimately have "sched_ok cfg env s1" using ok by (auto simp: sched_ok_def s1_def)
  then have "adv cfg env {(?j, p)} s s1"
    using none by (auto simp: adv_def s1_def map_le_def)
  then have "adv cfg env {(?j, p)} s s'"
    using adv_trans adv_core [OF \<open>sched_ok cfg env s1\<close> c] by (metis order_refl)
  then show ?thesis using core_eqD [OF c] by (simp add: s1_def)
qed


subsection \<open>Repairing a lost map output\<close>

definition forget_lost ::
  "JobPlan \<Rightarrow> nat \<Rightarrow> nat \<Rightarrow> 'r lineageScheduler \<Rightarrow> 'r lineageScheduler" where
  "forget_lost plan src mapID s =
     s\<lparr>ls_repairs := ls_repairs s + 1,
       ls_accepted := \<lambda>k. if k = (src, mapID) \<or> lost plan src k then None else ls_accepted s k,
       ls_sampled := \<lambda>j. if descends plan src j then False else ls_sampled s j,
       ls_bounds := \<lambda>j. if descends plan src j then [] else ls_bounds s j\<rparr>"

lemma invalidate_spec:
  assumes plan: "plan_ok (sc_plan cfg)" and st: "stageByID (sc_plan cfg) (st_ID st) = Some st"
    and run: "invalidate cfg e st s = Inr s'"
  obtains src sst r m where "src \<in> set (st_Parents st)" and "stageByID (sc_plan cfg) src = Some sst"
    and "st_ShuffleID sst = fe_ShuffleID e" and "fe_JobID e = sc_jobID cfg"
    and "ls_accepted s (src, fe_MapID e) = Some r" and "er_Manifest r = Some m" and "Attempt m = fe_Attempt e"
    and "ls_repairs s < sc_MaxRecoveries cfg" and "s' = forget_lost (sc_plan cfg) src (fe_MapID e) s"
proof -
  let ?plan = "sc_plan cfg"
  from run obtain src where job: "fe_JobID e = sc_jobID cfg" and src: "find_source ?plan st (fe_ShuffleID e) = Some src"
    and acc: "case ls_accepted s (src, fe_MapID e) of None \<Rightarrow> False | Some r \<Rightarrow>
      (case er_Manifest r of None \<Rightarrow> False | Some m \<Rightarrow> Attempt m = fe_Attempt e)"
    and lim: "ls_repairs s < sc_MaxRecoveries cfg"
    and s': "s' = forget_descendants src (orderedStages ?plan) [src]
      (s\<lparr>ls_repairs := ls_repairs s + 1, ls_accepted := (ls_accepted s)((src, fe_MapID e) := None)\<rparr>)"
    by (auto simp: invalidate_def Let_def split: if_splits option.splits)
  from src obtain i where fi: "find (\<lambda>i. (case stageByID ?plan i of None \<Rightarrow> 0 | Some st \<Rightarrow> st_ShuffleID st)
        = fe_ShuffleID e) (st_Parents st) = Some i"
      "src = (case stageByID ?plan i of None \<Rightarrow> 0 | Some st \<Rightarrow> st_ID st)"
    by (auto simp: find_source_def)
  then have i: "i \<in> set (st_Parents st)"
    "(case stageByID ?plan i of None \<Rightarrow> 0 | Some st \<Rightarrow> st_ShuffleID st) = fe_ShuffleID e"
    "src = (case stageByID ?plan i of None \<Rightarrow> 0 | Some st \<Rightarrow> st_ID st)"
    by (auto simp: find_Some_iff)
  obtain sst where sst: "stageByID ?plan i = Some sst" using plan_ok_parent(2) [OF plan st i(1)] by blast
  then have si: "src = i" using i(3) stageByID_ID by simp
  have "s' = forget_lost ?plan src (fe_MapID e) s"
    unfolding s' orderedStages_plan_ok [OF plan]
    by (subst forget_descendants_spec [OF plan, of _ 0])
      (auto simp: forget_lost_def fun_eq_iff intro!: lineageScheduler.equality)
  then show thesis
    using that [of src sst] i sst si job acc lim by (auto split: option.splits)
qed

lemma adv_invalidate:
  assumes plan: "plan_ok (sc_plan cfg)" and st: "stageByID (sc_plan cfg) (st_ID st) = Some st"
    and ok: "sched_ok cfg env s" and run: "invalidate cfg e st s = Inr s'"
  shows "adv cfg env {} s s' \<and> ls_repairs s' = ls_repairs s + 1"
proof -
  let ?plan = "sc_plan cfg"
  from invalidate_spec [OF plan st run] obtain src where src: "ls_repairs s < sc_MaxRecoveries cfg"
    and s': "s' = forget_lost ?plan src (fe_MapID e) s" by metis
  have kept: "computed cfg env s' j p r" if acc': "ls_accepted s' (j, p) = Some r" for j p r
  proof -
    have acc: "ls_accepted s (j, p) = Some r" and nl: "\<not> lost ?plan src (j, p)"
      using acc' by (auto simp: s' forget_lost_def split: if_splits)
    have comp: "computed cfg env s j p r" using ok acc by (simp add: sched_ok_def)
    then obtain stj where stj: "stageByID ?plan j = Some stj" "p < st_NumPartitions stj"
      unfolding computed_def by blast
    then have nd: "\<not> descends ?plan src j" using nl by (simp add: lost_def stage_parts_def)
    then have par: "i \<noteq> src \<and> \<not> descends ?plan src i" if "i \<in> set (st_Parents stj)" for i
      using that stj(1) descends_step by blast
    have "upstream_of ?plan s' st' = upstream_of ?plan s st'" if "stageByID ?plan j = Some st'" for st'
    proof (rule upstream_cong)
      fix k assume "k \<in> set (parent_keys ?plan st')"
      then have "fst k \<in> set (st_Parents stj)" 
        using that stj(1) parent_keys_iff [of "fst k" "snd k" ?plan st'] by simp
      then have "fst k \<noteq> src \<and> \<not> descends ?plan src (fst k)" by (rule par)
      then show "ls_accepted s' k = ls_accepted s k" by (auto simp: s' forget_lost_def lost_def)
    qed
    then show ?thesis
      using computed_attempts [OF comp, of s'] nd by (simp add: s' forget_lost_def)
  qed
  have "sched_ok cfg env s'"
    unfolding sched_ok_def
  proof (intro conjI allI impI)
    show "ls_repairs s' \<le> sc_MaxRecoveries cfg" using src s' by (simp add: forget_lost_def)
    show "ls_bounds s' j = []" if "\<not> ls_sampled s' j" for j
      using ok that by (auto simp: s' forget_lost_def sched_ok_def split: if_splits)
    show "computed cfg env s' j p r" if "ls_accepted s' (j, p) = Some r" for j p r by (rule kept [OF that])
  qed
  then show ?thesis by (auto simp: adv_def s' forget_lost_def dom_def)
qed


section \<open>Recomputing one partition\<close>

definition run_ok :: "bool \<Rightarrow> ('a \<Rightarrow> bool) \<Rightarrow> sched_err + 'a \<Rightarrow> bool" where
  "run_ok fuel P res \<longleftrightarrow> (case res of Inl e \<Rightarrow> e \<noteq> Panic \<and> (fuel \<longrightarrow> e \<noteq> Out_of_fuel) | Inr x \<Rightarrow> P x)"

lemma run_ok_simps [simp]:
  "run_ok f P (Inr x) \<longleftrightarrow> P x" "run_ok f P (Inl e) \<longleftrightarrow> e \<noteq> Panic \<and> (f \<longrightarrow> e \<noteq> Out_of_fuel)"
  by (simp_all add: run_ok_def)

lemma run_ok_bind:
  "run_ok f P m \<Longrightarrow> (\<And>x. P x \<Longrightarrow> m = Inr x \<Longrightarrow> run_ok f Q (g x)) \<Longrightarrow> run_ok f Q (bindR m g)"
  by (cases m) auto

lemma run_ok_mono: "run_ok f P m \<Longrightarrow> (\<And>x. P x \<Longrightarrow> Q x) \<Longrightarrow> (f' \<Longrightarrow> f) \<Longrightarrow> run_ok f' Q m"
  by (cases m) auto

lemma accepted_map_manifest:
  assumes "sched_ok cfg env s" and "ls_accepted s (j, p) = Some r"
    and "stageByID (sc_plan cfg) j = Some st" and "st_Kind st = StageShuffleMap"
  shows "\<exists>m. er_Manifest r = Some m"
proof -
  obtain t where "validateTaskResult t st r = None"
    using assms(1-3) unfolding sched_ok_def computed_def by fastforce
  then show ?thesis using assms(4) by (auto simp: validateTaskResult_def split: if_splits option.splits)
qed

lemma complete_upstream:
  assumes plan: "plan_ok (sc_plan cfg)" and ok: "sched_ok cfg env s" and st: "stageByID (sc_plan cfg) i = Some st"
    and "\<And>j. j \<in> set (st_Parents st) \<Longrightarrow> complete (sc_plan cfg) s j"
  shows "\<exists>ms. upstream_of (sc_plan cfg) s st = Some ms"
proof -
  have "manifest_at s k \<noteq> None" if k: "k \<in> set (parent_keys (sc_plan cfg) st)" for k
  proof -
    obtain j p where jp: "k = (j, p)" "j \<in> set (st_Parents st)" "p < stage_parts (sc_plan cfg) j"
      using k parent_keys_iff by (metis prod.collapse)
    then obtain r where r: "ls_accepted s (j, p) = Some r" using assms(4) by (fastforce simp: complete_def)
    obtain sj where "stageByID (sc_plan cfg) j = Some sj" "st_Kind sj = StageShuffleMap"
      using plan_ok_parent(2) [OF plan st jp(2)] by blast
    then show ?thesis using accepted_map_manifest [OF ok r] r jp by (auto simp: manifest_at_def)
  qed
  then have "None \<notin> set (map (manifest_at s) (parent_keys (sc_plan cfg) st))" by (metis imageE list.set_map)
  then show ?thesis
    using those_None [of "map (manifest_at s) (parent_keys (sc_plan cfg) st)"] by (auto simp: upstream_of_def)
qed

definition ens_spec where
  "ens_spec cfg env fuel K j R ens \<longleftrightarrow>
     (\<forall>p s. p < stage_parts (sc_plan cfg) j \<longrightarrow> sched_ok cfg env s \<longrightarrow> R \<le> ls_repairs s \<longrightarrow>
        run_ok fuel (\<lambda>(r, s'). adv cfg env K s s' \<and> ls_accepted s' (j, p) = Some r) (ens p s))"

lemma ensure_parts_spec:
  assumes j: "stageByID (sc_plan cfg) j = Some st" "st_Kind st = StageShuffleMap"
    and ens: "ens_spec cfg env fuel K j R ens"
    and "\<forall>p \<in> set ps. p < stage_parts (sc_plan cfg) j" and "sched_ok cfg env s" and "R \<le> ls_repairs s"
  shows "run_ok fuel (\<lambda>(ms, s'). adv cfg env K s s' \<and>
      (ls_repairs s' = ls_repairs s \<longrightarrow> map (manifest_at s') (map (Pair j) ps) = map Some ms))
    (ensure_parts ens ps s)"
  using assms(4-)
proof (induction ps arbitrary: s)
  case Nil
  then show ?case by (simp add: adv_core)
next
  case (Cons p ps)
  show ?case
    unfolding ensure_parts.simps
  proof (rule run_ok_bind [where P = "\<lambda>(r, s'). adv cfg env K s s' \<and> ls_accepted s' (j, p) = Some r"])
    show "run_ok fuel (\<lambda>(r, s'). adv cfg env K s s' \<and> ls_accepted s' (j, p) = Some r) (ens p s)"
      using ens Cons.prems unfolding ens_spec_def by simp
  next
    fix x assume x: "case x of (r, s') \<Rightarrow> adv cfg env K s s' \<and> ls_accepted s' (j, p) = Some r"
    obtain r s1 where eq: "x = (r, s1)" by fastforce
    with x have s1: "adv cfg env K s s1" "ls_accepted s1 (j, p) = Some r" by auto
    then have ok1: "sched_ok cfg env s1" and R1: "ls_repairs s \<le> ls_repairs s1" by (auto simp: adv_def)
    obtain m where m: "er_Manifest r = Some m" using accepted_map_manifest [OF ok1 s1(2) j] by blast
    have "run_ok fuel (\<lambda>(ms, s'). adv cfg env K s1 s' \<and>
        (ls_repairs s' = ls_repairs s1 \<longrightarrow> map (manifest_at s') (map (Pair j) ps) = map Some ms)) (ensure_parts ens ps s1)"
      using Cons.IH [OF _ ok1] Cons.prems R1 by simp
    then have "run_ok fuel (\<lambda>(ms, s'). adv cfg env K s s' \<and>
        (ls_repairs s' = ls_repairs s \<longrightarrow> map (manifest_at s') (map (Pair j) (p # ps)) = map Some ms))
      (bindR (ensure_parts ens ps s1) (\<lambda>(ms, s2). Inr (m # ms, s2)))"
    proof (rule run_ok_bind, clarify)
      fix ms s2
      assume s2: "adv cfg env K s1 s2" "ls_repairs s2 = ls_repairs s1 \<longrightarrow> map (manifest_at s2) (map (Pair j) ps) = map Some ms"
      have a: "adv cfg env K s s2" using adv_trans [OF s1(1) s2(1)] by blast
      have "map (manifest_at s2) (map (Pair j) (p # ps)) = map Some (m # ms)" if "ls_repairs s2 = ls_repairs s"
      proof -
        have "ls_repairs s2 = ls_repairs s1" using that R1 s2(1) by (simp add: adv_def)
        then show ?thesis using s2 adv_same [OF s2(1) _ s1(2)] m by (simp add: manifest_at_def)
      qed
      then show "run_ok fuel (\<lambda>(ms, s'). adv cfg env K s s' \<and>
          (ls_repairs s' = ls_repairs s \<longrightarrow> map (manifest_at s') (map (Pair j) (p # ps)) = map Some ms)) (Inr (m # ms, s2))"
        using a by simp
    qed
    then show "run_ok fuel (\<lambda>(ms, s'). adv cfg env K s s' \<and>
        (ls_repairs s' = ls_repairs s \<longrightarrow> map (manifest_at s') (map (Pair j) (p # ps)) = map Some ms))
      (case x of (r, s1) \<Rightarrow> (case er_Manifest r of None \<Rightarrow> Inl Panic | Some m \<Rightarrow>
         bindR (ensure_parts ens ps s1) (\<lambda>(ms, s2). Inr (m # ms, s2))))"
      using eq m by simp
  qed
qed


lemma ensure_parents_spec:
  assumes plan: "plan_ok (sc_plan cfg)"
    and ids: "\<forall>j \<in> set ids. \<exists>sj. stageByID (sc_plan cfg) j = Some sj \<and> st_Kind sj = StageShuffleMap \<and>
      ens_spec cfg env fuel K j R (ens sj)"
    and "sched_ok cfg env s" and "R \<le> ls_repairs s"
  shows "run_ok fuel (\<lambda>(ms, s'). adv cfg env K s s' \<and>
      (ls_repairs s' = ls_repairs s \<longrightarrow>
        map (manifest_at s') (concat (map (\<lambda>i. map (Pair i) [0..<stage_parts (sc_plan cfg) i]) ids)) = map Some ms))
    (ensure_parents (sc_plan cfg) ens ids s)"
  using assms(2-)
proof (induction ids arbitrary: s)
  case Nil
  then show ?case by (simp add: adv_core)
next
  case (Cons j ids)
  let ?ps = "[0..<stage_parts (sc_plan cfg) j]"
  let ?rest = "concat (map (\<lambda>i. map (Pair i) [0..<stage_parts (sc_plan cfg) i]) ids)"
  obtain sj where sj: "stageByID (sc_plan cfg) j = Some sj" "st_Kind sj = StageShuffleMap"
    "ens_spec cfg env fuel K j R (ens sj)" using Cons.prems(1) by auto
  have num: "st_NumPartitions sj = stage_parts (sc_plan cfg) j" using sj(1) by (simp add: stage_parts_def)
  have first: "run_ok fuel (\<lambda>(ms, s'). adv cfg env K s s' \<and>
      (ls_repairs s' = ls_repairs s \<longrightarrow> map (manifest_at s') (map (Pair j) ?ps) = map Some ms)) (ensure_parts (ens sj) ?ps s)"
    by (rule ensure_parts_spec [OF sj]) (use Cons.prems in auto)
  have "run_ok fuel (\<lambda>(ms, s'). adv cfg env K s s' \<and>
      (ls_repairs s' = ls_repairs s \<longrightarrow> map (manifest_at s') (map (Pair j) ?ps @ ?rest) = map Some ms))
    (bindR (ensure_parts (ens sj) ?ps s) (\<lambda>(ms, s1).
       bindR (ensure_parents (sc_plan cfg) ens ids s1) (\<lambda>(ms', s2). Inr (ms @ ms', s2))))"
  proof (rule run_ok_bind [OF first], clarify)
    fix ms s1
    assume s1: "adv cfg env K s s1" "ls_repairs s1 = ls_repairs s \<longrightarrow> map (manifest_at s1) (map (Pair j) ?ps) = map Some ms"
    then have ok1: "sched_ok cfg env s1" and R1: "ls_repairs s \<le> ls_repairs s1" by (auto simp: adv_def)
    have "run_ok fuel (\<lambda>(ms, s'). adv cfg env K s1 s' \<and>
      (ls_repairs s' = ls_repairs s1 \<longrightarrow> map (manifest_at s') ?rest = map Some ms)) (ensure_parents (sc_plan cfg) ens ids s1)"
      using Cons.IH [OF _ ok1] Cons.prems R1 by simp
    then show "run_ok fuel (\<lambda>(ms, s'). adv cfg env K s s' \<and>
        (ls_repairs s' = ls_repairs s \<longrightarrow> map (manifest_at s') (map (Pair j) ?ps @ ?rest) = map Some ms))
      (bindR (ensure_parents (sc_plan cfg) ens ids s1) (\<lambda>(ms', s2). Inr (ms @ ms', s2)))"
    proof (rule run_ok_bind, clarify)
      fix ms' s2
      assume s2: "adv cfg env K s1 s2" "ls_repairs s2 = ls_repairs s1 \<longrightarrow> map (manifest_at s2) ?rest = map Some ms'"
      have a: "adv cfg env K s s2" using adv_trans [OF s1(1) s2(1)] by blast
      have "map (manifest_at s2) (map (Pair j) ?ps @ ?rest) = map Some (ms @ ms')" if same: "ls_repairs s2 = ls_repairs s"
      proof -
        have r: "ls_repairs s2 = ls_repairs s1" "ls_repairs s1 = ls_repairs s"
          using same R1 s2(1) by (simp_all add: adv_def)
        have "manifest_at s2 k = manifest_at s1 k" if "k \<in> set (map (Pair j) ?ps)" for k
        proof -
          have "manifest_at s1 k \<in> Some ` set ms" using s1(2) r(2) that by (metis image_eqI list.set_map)
          then obtain r1 where "ls_accepted s1 k = Some r1" by (auto simp: manifest_at_def split: option.splits)
          then show ?thesis using adv_same [OF s2(1) r(1)] by (simp add: manifest_at_def)
        qed
        then have "map (manifest_at s2) (map (Pair j) ?ps) = map Some ms" using s1(2) r(2) by (metis map_cong)
        then show ?thesis using s2(2) r(1) by simp
      qed
      then show "run_ok fuel (\<lambda>(ms, s'). adv cfg env K s s' \<and>
          (ls_repairs s' = ls_repairs s \<longrightarrow> map (manifest_at s') (map (Pair j) ?ps @ ?rest) = map Some ms)) (Inr (ms @ ms', s2))"
        using a by simp
    qed
  qed
  then show ?case using sj(1) num by simp
qed


text \<open>The rank that every recursive call lowers: repairs left, then the level, then attempts left.\<close>

definition retry_rank :: "sched_conf \<Rightarrow> nat \<Rightarrow> nat \<Rightarrow> 'r lineageScheduler \<Rightarrow> nat" where
  "retry_rank cfg failures j s =
     ((sc_MaxRecoveries cfg - ls_repairs s) * Suc (length (jp_Stages (sc_plan cfg))) + j) * Suc (sc_MaxAttempts cfg)
       + (sc_MaxAttempts cfg - failures)"

definition retry_fuel :: "sched_conf \<Rightarrow> nat" where
  "retry_fuel cfg =
     Suc (((sc_MaxRecoveries cfg + 1) * Suc (length (jp_Stages (sc_plan cfg)))) * Suc (sc_MaxAttempts cfg))"

lemma rank_level:
  assumes "a' < (a :: nat)"
  shows "a' * Suc m + (m - f') < a * Suc m + (m - f)"
proof -
  have "a' * Suc m + Suc m \<le> a * Suc m" using assms mult_le_mono1 [of "Suc a'" a "Suc m"] by simp
  then show ?thesis by simp
qed

lemma rank_parent:
  "i < j \<Longrightarrow> ls_repairs s \<le> ls_repairs s' \<Longrightarrow> retry_rank cfg f' i s' < retry_rank cfg f j s"
  unfolding retry_rank_def by (intro rank_level add_le_less_mono mult_le_mono1 diff_le_mono2)

lemma rank_repair:
  assumes "ls_repairs s < ls_repairs s'" and "ls_repairs s' \<le> sc_MaxRecoveries cfg" and "j < length (jp_Stages (sc_plan cfg))"
  shows "retry_rank cfg f' j s' < retry_rank cfg f j s"
  unfolding retry_rank_def
proof (rule rank_level)
  let ?N = "Suc (length (jp_Stages (sc_plan cfg)))"
  have "Suc (sc_MaxRecoveries cfg - ls_repairs s') \<le> sc_MaxRecoveries cfg - ls_repairs s" using assms by simp
  then have "Suc (sc_MaxRecoveries cfg - ls_repairs s') * ?N \<le> (sc_MaxRecoveries cfg - ls_repairs s) * ?N"
    by (rule mult_le_mono1)
  then show "(sc_MaxRecoveries cfg - ls_repairs s') * ?N + j < (sc_MaxRecoveries cfg - ls_repairs s) * ?N + j"
    by simp
qed

lemma rank_failure:
  "f + 1 < sc_MaxAttempts cfg \<Longrightarrow> ls_repairs s' = ls_repairs s \<Longrightarrow> retry_rank cfg (f + 1) j s' < retry_rank cfg f j s"
  unfolding retry_rank_def by (simp only: add_less_cancel_left)

definition retry_post where
  "retry_post cfg env st p s = (\<lambda>(r, s'). adv cfg env (insert (st_ID st, p) {k. fst k < st_ID st}) s s' \<and>
     ls_accepted s' (st_ID st, p) = Some r)"

lemma retry_post_trans:
  assumes "adv cfg env {k. fst k < st_ID st} s s1"
  shows "retry_post cfg env st p s1 x \<Longrightarrow> retry_post cfg env st p s x"
proof -
  assume "retry_post cfg env st p s1 x"
  then obtain r s' where x: "x = (r, s')" "adv cfg env (insert (st_ID st, p) {k. fst k < st_ID st}) s1 s'"
    "ls_accepted s' (st_ID st, p) = Some r" by (auto simp: retry_post_def)
  have "adv cfg env (insert (st_ID st, p) {k. fst k < st_ID st}) s s'"
    by (rule adv_trans [OF assms x(2)]) auto
  then show ?thesis using x by (simp add: retry_post_def)
qed

lemma adv_still_none:
  "adv cfg env {k. fst k < st_ID st} s s1 \<Longrightarrow> ls_accepted s (st_ID st, p) = None \<Longrightarrow> ls_accepted s1 (st_ID st, p) = None"
proof -
  assume a: "adv cfg env {k. fst k < st_ID st} s s1" and none: "ls_accepted s (st_ID st, p) = None"
  have "dom (ls_accepted s1) \<subseteq> dom (ls_accepted s) \<union> {k. fst k < st_ID st}" using a by (simp add: adv_def)
  moreover have "(st_ID st, p) \<notin> dom (ls_accepted s) \<union> {k. fst k < st_ID st}" using none by auto
  ultimately show ?thesis by blast
qed

text \<open>One round of the loop once the parents are available in \<open>s1\<close>.\<close>

lemma dispatch_ok:
  assumes plan: "plan_ok (sc_plan cfg)" and st: "stageByID (sc_plan cfg) (st_ID st) = Some st"
    and p: "p < st_NumPartitions st" and ok1: "sched_ok cfg env s1"
    and none: "ls_accepted s1 (st_ID st, p) = None"
    and up: "upstream_of (sc_plan cfg) s1 st = Some upstream"
    and again: "\<And>f s'. adv cfg env {} s1 s' \<Longrightarrow>
      (ls_repairs s' = ls_repairs s1 + 1 \<and> f = failures \<or>
       ls_repairs s' = ls_repairs s1 \<and> f = failures + 1 \<and> failures + 1 < sc_MaxAttempts cfg) \<Longrightarrow>
      run_ok fuel (retry_post cfg env st p s') (again_f f s')"
  shows "run_ok fuel (retry_post cfg env st p s1) (dispatch cfg env again_f failures st p upstream s1)"
proof -
  define task where "task = make_task cfg s1 st p upstream"
  define s2 where "s2 = bump_attempt (st_ID st, p) s1"
  obtain w s3 where pick: "pickWorkerIndexFor cfg env [] (stageCacheHints st p) s2 = (w, s3)" by fastforce
  have a2: "adv cfg env {} s1 s2" unfolding s2_def by (rule adv_bump [OF ok1])
  then have ok2: "sched_ok cfg env s2" by (simp add: adv_def)
  have c3: "core s3 = core s2" by (rule core_pick [OF pick])
  have c4: "core (tick s3) = core s2" "core (tick (tick s3)) = core s2" using c3 by simp_all
  have a4: "adv cfg env {} s1 s'" if "core s' = core s2" for s'
    using adv_trans [OF a2 adv_core [OF ok2 that]] by blast
  show ?thesis
  proof (cases w)
    case None
    then show ?thesis using pick by (simp add: dispatch_def s2_def Let_def)
  next
    case (Some w')
    define ans where "ans = ev_exec env (ls_clock s3) w' task"
    have task2: "task_for cfg s2 st p task"
    proof -
      have "upstream_of (sc_plan cfg) s2 st = upstream_of (sc_plan cfg) s1 st"
        by (rule upstream_cong) (simp add: s2_def bump_attempt_def)
      then show ?thesis using up p by (simp add: task_for_def task_def make_task_def s2_def bump_attempt_def)
    qed
    have none2: "ls_accepted s2 (st_ID st, p) = None" using none by (simp add: s2_def bump_attempt_def)
    have rep2: "ls_repairs s2 = ls_repairs s1" by (simp add: s2_def bump_attempt_def)
    have good: "run_ok fuel (retry_post cfg env st p s1) (bindR (accept_result env task w' r (tick (tick s3))) (\<lambda>s5. Inr (r, s5)))"
      if "check_answer task st ans = Inr r" for r
    proof (rule run_ok_bind [where P = "\<lambda>s5. adv cfg env {(st_ID st, p)} s2 s5 \<and> ls_accepted s5 (st_ID st, p) = Some r"])
      have r: "ev_exec env (ls_clock s3) w' task = Inr r" "validateTaskResult task st r = None"
        using that by (auto simp: check_answer_def ans_def split: sum.splits option.splits)
      show "run_ok fuel (\<lambda>s5. adv cfg env {(st_ID st, p)} s2 s5 \<and> ls_accepted s5 (st_ID st, p) = Some r)
          (accept_result env task w' r (tick (tick s3)))"
      proof (cases "accept_result env task w' r (tick (tick s3))")
        case (Inl e)
        then show ?thesis by (auto simp: accept_result_def Let_def split: option.splits)
      next
        case (Inr s5)
        then show ?thesis using adv_accept [OF plan ok2 st task2 none2 r Inr c4(2)] by simp
      qed
    next
      fix s5 assume "adv cfg env {(st_ID st, p)} s2 s5 \<and> ls_accepted s5 (st_ID st, p) = Some r"
      then show "run_ok fuel (retry_post cfg env st p s1) (Inr (r, s5))"
        using adv_trans [OF a2] by (fastforce simp: retry_post_def)
    qed
    have lower: "run_ok fuel (retry_post cfg env st p s1) m" if "run_ok fuel (retry_post cfg env st p s') m"
      "adv cfg env {} s1 s'" for m s'
      using that(1) retry_post_trans [OF adv_mono [OF that(2) empty_subsetI]] by (rule run_ok_mono) auto
    have fetch: "run_ok fuel (retry_post cfg env st p s1)
        (bindR (invalidate cfg e st (tick (tick s3))) (again_f failures))" for e
    proof (cases "invalidate cfg e st (tick (tick s3))")
      case (Inl x)
      then show ?thesis by (auto simp: invalidate_def Let_def split: if_splits option.splits)
    next
      case (Inr s5)
      have "sched_ok cfg env (tick (tick s3))" using sched_ok_core [OF c4(2)] ok2 by simp
      from adv_invalidate [OF plan st this Inr] have "adv cfg env {} s1 s5" "ls_repairs s5 = ls_repairs s1 + 1"
        using adv_trans [OF a4 [OF c4(2)]] core_eqD(1) [OF c4(2)] rep2 by (blast, simp)
      then show ?thesis using Inr again [of s5 failures] lower by simp
    qed
    have failed: "run_ok fuel (retry_post cfg env st p s1) (again_f (failures + 1) (tick (tick s3)))"
      if "\<not> failures + 1 \<ge> sc_MaxAttempts cfg"
      using again [OF a4 [OF c4(2)], of "failures + 1"] lower [OF _ a4 [OF c4(2)]] core_eqD(1) [OF c4(2)] rep2 that by simp
    show ?thesis
      using pick Some good fetch failed
      by (auto simp: dispatch_def task_def [symmetric] s2_def [symmetric] Let_def ans_def [symmetric]
          split: sum.split task_error.split)
  qed
qed


lemma retry_loop_spec:
  assumes plan: "plan_ok (sc_plan cfg)"
  shows "stageByID (sc_plan cfg) (st_ID st) = Some st \<Longrightarrow> p < st_NumPartitions st \<Longrightarrow> sched_ok cfg env s \<Longrightarrow>
    ls_accepted s (st_ID st, p) = None \<Longrightarrow>
    run_ok (retry_rank cfg failures (st_ID st) s < n) (retry_post cfg env st p s)
      (retry_loop n cfg env failures st p s)"
proof (induction n arbitrary: failures st p s)
  case 0
  then show ?case by simp
next
  case (Suc n)
  let ?plan = "sc_plan cfg" and ?j = "st_ID st" and ?K = "{k. fst k < st_ID st}"
  let ?fuel = "retry_rank cfg failures (st_ID st) s < Suc n"
  have jlt: "?j < length (jp_Stages ?plan)" using Suc.prems(1) by (simp add: stageByID_plan_ok [OF plan])
  have okt: "sched_ok cfg env (tick s)" using sched_ok_core [of "tick s" s] Suc.prems(3) by simp
  have ens: "ens_spec cfg env ?fuel ?K i (ls_repairs s) (unless_accepted (retry_loop n cfg env 0) si)"
    if i: "i \<in> set (st_Parents st)" "stageByID ?plan i = Some si" for i si
    unfolding ens_spec_def
  proof (intro allI impI)
    fix q s' assume q: "q < stage_parts ?plan i" and ok': "sched_ok cfg env s'" and rep: "ls_repairs s \<le> ls_repairs s'"
    have ID: "st_ID si = i" and ij: "i < ?j"
      using stageByID_ID [OF i(2)] plan_ok_parent(1) [OF plan Suc.prems(1) i(1)] by simp_all
    show "run_ok ?fuel (\<lambda>(r, s''). adv cfg env ?K s' s'' \<and> ls_accepted s'' (i, q) = Some r)
        (unless_accepted (retry_loop n cfg env 0) si q s')"
    proof (cases "ls_accepted s' (i, q)")
      case (Some r)
      then show ?thesis using ID adv_core [OF ok'] by (simp add: unless_accepted_def)
    next
      case None
      have "run_ok (retry_rank cfg 0 (st_ID si) s' < n) (retry_post cfg env si q s') (retry_loop n cfg env 0 si q s')"
        by (rule Suc.IH) (use i(2) ID q ok' None in \<open>simp_all add: stage_parts_def\<close>)
      then have "run_ok ?fuel (\<lambda>(r, s''). adv cfg env ?K s' s'' \<and> ls_accepted s'' (i, q) = Some r)
          (retry_loop n cfg env 0 si q s')"
      proof (rule run_ok_mono)
        fix x assume "retry_post cfg env si q s' x"
        then show "case x of (r, s'') \<Rightarrow> adv cfg env ?K s' s'' \<and> ls_accepted s'' (i, q) = Some r"
          using ID ij by (auto simp: retry_post_def elim!: adv_mono)
      next
        show "?fuel \<Longrightarrow> retry_rank cfg 0 (st_ID si) s' < n"
          using rank_parent [OF ij rep, of cfg 0 failures] ID by simp
      qed
      then show ?thesis using None ID by (simp add: unless_accepted_def)
    qed
  qed
  have parents: "run_ok ?fuel (\<lambda>(ms, s'). adv cfg env ?K (tick s) s' \<and>
      (ls_repairs s' = ls_repairs (tick s) \<longrightarrow> map (manifest_at s') (parent_keys ?plan st) = map Some ms))
    (ensure_parents ?plan (unless_accepted (retry_loop n cfg env 0)) (st_Parents st) (tick s))"
    unfolding parent_keys_def
  proof (rule ensure_parents_spec [OF plan _ okt, where R = "ls_repairs s"])
    show "\<forall>j \<in> set (st_Parents st). \<exists>sj. stageByID ?plan j = Some sj \<and> st_Kind sj = StageShuffleMap \<and>
        ens_spec cfg env ?fuel ?K j (ls_repairs s) (unless_accepted (retry_loop n cfg env 0) sj)"
      using plan_ok_parent(2) [OF plan Suc.prems(1)] ens by blast
  qed (simp add: tick_def)
  show ?case
  proof (cases "ev_cancelled env (ls_clock s)")
    case True
    then show ?thesis by simp
  next
    case False
    have "run_ok ?fuel (retry_post cfg env st p s) (bindR (ensure_parents ?plan (unless_accepted (retry_loop n cfg env 0))
        (st_Parents st) (tick s)) (\<lambda>(upstream, s1).
          if ls_repairs s1 \<noteq> ls_repairs s then retry_loop n cfg env failures st p s1
          else dispatch cfg env (\<lambda>f s'. retry_loop n cfg env f st p s') failures st p upstream s1))"
    proof (rule run_ok_bind [OF parents], clarify)
      fix ms s1
      assume a1: "adv cfg env ?K (tick s) s1"
        and up: "ls_repairs s1 = ls_repairs (tick s) \<longrightarrow> map (manifest_at s1) (parent_keys ?plan st) = map Some ms"
      have a1': "adv cfg env ?K s s1" using adv_core_left [OF a1] by simp
      then have ok1: "sched_ok cfg env s1" and rep1: "ls_repairs s \<le> ls_repairs s1" by (auto simp: adv_def)
      have none1: "ls_accepted s1 (?j, p) = None" by (rule adv_still_none [OF a1' Suc.prems(4)])
      have again: "run_ok ?fuel (retry_post cfg env st p s') (retry_loop n cfg env f st p s')"
        if "sched_ok cfg env s'" "ls_accepted s' (?j, p) = None"
          "retry_rank cfg f ?j s' < retry_rank cfg failures ?j s" for f s'
        by (rule run_ok_mono [OF Suc.IH [OF Suc.prems(1,2) that(1,2), of f]]) (use that(3) in auto)
      show "run_ok ?fuel (retry_post cfg env st p s)
        (if ls_repairs s1 \<noteq> ls_repairs s then retry_loop n cfg env failures st p s1
         else dispatch cfg env (\<lambda>f s'. retry_loop n cfg env f st p s') failures st p ms s1)"
      proof (cases "ls_repairs s1 = ls_repairs s")
        case False
        have "retry_rank cfg failures ?j s1 < retry_rank cfg failures ?j s"
          using rank_repair [of s s1 cfg ?j] False rep1 ok1 jlt by (simp add: sched_ok_def)
        from run_ok_mono [OF again [OF ok1 none1 this] retry_post_trans [OF a1']] False show ?thesis by simp
      next
        case True
        have upst: "upstream_of ?plan s1 st = Some ms"
          using up True by (simp add: upstream_of_def those_Some tick_def)
        have "run_ok ?fuel (retry_post cfg env st p s') (retry_loop n cfg env f st p s')"
          if s': "adv cfg env {} s1 s'" and c: "ls_repairs s' = ls_repairs s1 + 1 \<and> f = failures \<or>
             ls_repairs s' = ls_repairs s1 \<and> f = failures + 1 \<and> failures + 1 < sc_MaxAttempts cfg" for f s'
        proof (rule again)
          show ok': "sched_ok cfg env s'" using s' by (simp add: adv_def)
          show "ls_accepted s' (?j, p) = None" using s' none1 by (auto simp: adv_def dom_def)
          show "retry_rank cfg f ?j s' < retry_rank cfg failures ?j s"
            using c True rank_repair [of s s' cfg ?j] rank_failure [of failures cfg s' s ?j] ok' jlt
            by (auto simp: sched_ok_def)
        qed
        then have again1: "\<And>f s'. adv cfg env {} s1 s' \<Longrightarrow>
           ls_repairs s' = ls_repairs s1 + 1 \<and> f = failures \<or>
           ls_repairs s' = ls_repairs s1 \<and> f = failures + 1 \<and> failures + 1 < sc_MaxAttempts cfg \<Longrightarrow>
           run_ok ?fuel (retry_post cfg env st p s') ((\<lambda>f s'. retry_loop n cfg env f st p s') f s')"
          by blast
        have "run_ok ?fuel (retry_post cfg env st p s1)
            (dispatch cfg env (\<lambda>f s'. retry_loop n cfg env f st p s') failures st p ms s1)"
          by (rule dispatch_ok [OF plan Suc.prems(1,2) ok1 none1 upst again1])
        from run_ok_mono [OF this retry_post_trans [OF a1']] True show ?thesis by simp
      qed
    qed
    then show ?thesis using False by simp
  qed
qed

lemma rank_bounded:
  assumes "j < length (jp_Stages (sc_plan cfg))" and "retry_fuel cfg \<le> n"
  shows "retry_rank cfg f j s < n"
proof -
  let ?N = "Suc (length (jp_Stages (sc_plan cfg)))" and ?r = "sc_MaxRecoveries cfg - ls_repairs s"
  have "?r * ?N + j < (sc_MaxRecoveries cfg + 1) * ?N"
    using assms(1) mult_le_mono1 [of ?r "sc_MaxRecoveries cfg" ?N] by simp
  from rank_level [OF this, of "sc_MaxAttempts cfg" f "sc_MaxAttempts cfg"] show ?thesis
    using assms(2) by (simp add: retry_rank_def retry_fuel_def)
qed

lemma ensureRetry_spec:
  assumes plan: "plan_ok (sc_plan cfg)" and st: "stageByID (sc_plan cfg) (st_ID st) = Some st"
    and p: "p < st_NumPartitions st" and ok: "sched_ok cfg env s"
  shows "run_ok (retry_fuel cfg \<le> n) (retry_post cfg env st p s) (ensureRetry n cfg env failures st p s)"
proof (cases "ls_accepted s (st_ID st, p)")
  case None
  have "st_ID st < length (jp_Stages (sc_plan cfg))" using st by (simp add: stageByID_plan_ok [OF plan])
  then have "run_ok (retry_fuel cfg \<le> n) (retry_post cfg env st p s) (retry_loop n cfg env failures st p s)"
    using run_ok_mono [OF retry_loop_spec [OF plan st p ok None]] rank_bounded by blast
  then show ?thesis using None by (simp add: ensureRetry_def unless_accepted_def)
next
  case (Some r)
  then show ?thesis using adv_core [OF ok]
    by (simp add: ensureRetry_def unless_accepted_def retry_post_def)
qed

section \<open>Running a stage in waves\<close>

text \<open>The tasks of a wave are up to date, for different partitions, none of them accepted yet.\<close>

definition wave_ok :: "sched_conf \<Rightarrow> 'r lineageScheduler \<Rightarrow> Stage \<Rightarrow> Task list \<Rightarrow> bool" where
  "wave_ok cfg s st ts \<longleftrightarrow> distinct (map tk_PartitionID ts) \<and>
     (\<forall>t \<in> set ts. task_for cfg s st (tk_PartitionID t) t \<and> ls_accepted s (st_ID st, tk_PartitionID t) = None)"

lemma wave_ok_core: "core s = core s' \<Longrightarrow> wave_ok cfg s st ts = wave_ok cfg s' st ts"
  unfolding wave_ok_def using task_for_core [of s s'] core_eqD(2) [of s s'] by simp

lemma upstream_adv:
  assumes "adv cfg env K s s'" and "ls_repairs s' = ls_repairs s" and "upstream_of plan s st = Some ms"
  shows "upstream_of plan s' st = Some ms"
proof -
  have "ls_accepted s' k = ls_accepted s k" if "k \<in> set (parent_keys plan st)" for k
    using upstream_Some_accepted [OF assms(3) that] adv_same [OF assms(1,2)] by fastforce
  then show ?thesis using upstream_cong [of plan st s' s] assms(3) by simp
qed

lemma task_for_adv:
  assumes "adv cfg env K s s'" and "ls_repairs s' = ls_repairs s" and "task_for cfg s st p t"
  shows "task_for cfg s' st p t"
proof -
  have "ls_attempts s (st_ID st, p) \<le> ls_attempts s' (st_ID st, p)" "ls_bounds s' = ls_bounds s"
    using assms(1,2) by (simp_all add: adv_def)
  then show ?thesis using assms(3) upstream_adv [OF assms(1,2)] by (simp add: task_for_def)
qed

lemma wave_ok_adv:
  assumes "adv cfg env K s s'" and "ls_repairs s' = ls_repairs s" and "wave_ok cfg s st ts"
    and "\<And>t. t \<in> set ts \<Longrightarrow> (st_ID st, tk_PartitionID t) \<notin> K"
  shows "wave_ok cfg s' st ts"
proof -
  have "dom (ls_accepted s') \<subseteq> dom (ls_accepted s) \<union> K" using assms(1) by (simp add: adv_def)
  then show ?thesis
    using assms(3,4) task_for_adv [OF assms(1,2)] unfolding wave_ok_def by (blast dest: domI)
qed

text \<open>What a wave over the partitions from \<open>p\<close> on leaves: nothing but attempts has changed.\<close>

definition wave_post where
  "wave_post cfg env st p s = (\<lambda>(wave, p', s'). adv cfg env {} s s' \<and> ls_repairs s' = ls_repairs s \<and>
     wave_ok cfg s' st (map fst wave) \<and> p' \<le> st_NumPartitions st \<and>
     (\<forall>q. q < p' \<longrightarrow> p \<le> q \<longrightarrow> ls_accepted s (st_ID st, q) \<noteq> None \<or> q \<in> (tk_PartitionID \<circ> fst) ` set wave))"

lemma wave_ok_snoc:
  assumes "sched_ok cfg env s" and "wave_ok cfg s st ts" and "\<forall>t \<in> set ts. tk_PartitionID t < p"
    and "ls_accepted s (st_ID st, p) = None" and "p < st_NumPartitions st"
    and "upstream_of (sc_plan cfg) s st = Some ms"
  shows "wave_ok cfg (bump_attempt (st_ID st, p) s) st (ts @ [make_task cfg s st p ms])"
proof -
  let ?s = "bump_attempt (st_ID st, p) s" and ?t = "make_task cfg s st p ms"
  have adv: "adv cfg env {} s ?s" by (rule adv_bump [OF assms(1)])
  have rep: "ls_repairs ?s = ls_repairs s" and acc: "ls_accepted ?s = ls_accepted s"
    by (simp_all add: bump_attempt_def)
  have "wave_ok cfg ?s st ts" by (rule wave_ok_adv [OF adv rep assms(2)]) simp
  moreover have "task_for cfg ?s st p ?t"
    using assms(5) upstream_adv [OF adv rep assms(6)] by (simp add: task_for_def make_task_def bump_attempt_def)
  ultimately show ?thesis using assms(3,4) acc by (auto simp: wave_ok_def make_task_def)
qed

lemma build_wave_spec:
  assumes plan: "plan_ok (sc_plan cfg)" and st: "stageByID (sc_plan cfg) (st_ID st) = Some st"
  shows "sched_ok cfg env s \<Longrightarrow> (\<And>j. j \<in> set (st_Parents st) \<Longrightarrow> complete (sc_plan cfg) s j) \<Longrightarrow>
    wave_ok cfg s st (map fst wave) \<Longrightarrow> \<forall>t \<in> set (map fst wave). tk_PartitionID t < p \<Longrightarrow> p \<le> st_NumPartitions st \<Longrightarrow>
    run_ok f (\<lambda>(wave', x). set wave \<subseteq> set wave' \<and> wave_post cfg env st p s (wave', x))
      (build_wave cfg env st p busy wave s)"
proof (induction "st_NumPartitions st - p" arbitrary: p busy wave s rule: less_induct)
  case less
  let ?k = "(st_ID st, p)" and ?goal = "\<lambda>p s (wave', x). set wave \<subseteq> set wave' \<and> wave_post cfg env st p s (wave', x)"
  note IH = less.hyps [OF _ _ less.prems(2)]
  show ?case
  proof (cases "p < st_NumPartitions st \<and> length busy < sc_runners cfg")
    case False
    then show ?thesis using less.prems adv_core [OF less.prems(1)]
      by (subst build_wave.simps) (auto simp: wave_post_def)
  next
    case True
    then have smaller: "st_NumPartitions st - Suc p < st_NumPartitions st - p" by linarith
    show ?thesis
    proof (cases "ls_accepted s ?k")
      case (Some r)
      have "run_ok f (?goal (Suc p) s) (build_wave cfg env st (Suc p) busy wave s)"
        by (rule IH [OF smaller less.prems(1)]) (use less.prems True in \<open>auto simp: less_Suc_eq\<close>)
      then have "run_ok f (?goal p s) (build_wave cfg env st (Suc p) busy wave s)"
        by (rule run_ok_mono) (use Some in \<open>auto simp: wave_post_def Suc_le_eq le_less\<close>)
      then show ?thesis using True Some by (subst build_wave.simps) simp
    next
      case None
      obtain w s1 where pick: "pickWorkerIndexFor cfg env busy (stageCacheHints st p) s = (w, s1)" by fastforce
      have c: "core s1 = core s" by (rule core_pick [OF pick])
      have ok1: "sched_ok cfg env s1" using sched_ok_core [OF c] less.prems(1) by simp
      obtain ms where ms: "upstream_of (sc_plan cfg) s1 st = Some ms"
        using complete_upstream [OF plan ok1 st] complete_core [OF c] less.prems(2) by blast
      define s2 where "s2 = bump_attempt ?k s1"
      have a1: "adv cfg env {} s s1" by (rule adv_core [OF less.prems(1) c])
      have a2: "adv cfg env {} s s2"
        using adv_trans [OF a1 adv_bump [OF ok1]] by (simp add: s2_def)
      have rep: "ls_repairs s2 = ls_repairs s" and acc: "ls_accepted s2 = ls_accepted s"
        using core_eqD(1,2) [OF c] by (simp_all add: s2_def bump_attempt_def)
      define wave1 where "wave1 = wave @ [(make_task cfg s1 st p ms, the w)]"
      have wok: "wave_ok cfg s2 st (map fst wave1)"
        using wave_ok_snoc [OF ok1, of st "map fst wave" p ms] wave_ok_core [OF c] less.prems(3,4) None True ms
          core_eqD(2) [OF c] by (simp add: s2_def wave1_def)
      have "run_ok f (\<lambda>(wave', x). set wave1 \<subseteq> set wave' \<and> wave_post cfg env st (Suc p) s2 (wave', x))
          (build_wave cfg env st (Suc p) (the w # busy) wave1 s2)"
      proof (rule less.hyps [OF smaller _ _ wok])
        show "sched_ok cfg env s2" using a2 by (simp add: adv_def)
        show "complete (sc_plan cfg) s2 j" if "j \<in> set (st_Parents st)" for j
          using adv_complete [OF a2 rep] less.prems(2) that by blast
      qed (use less.prems(4) True in \<open>auto simp: wave1_def make_task_def less_Suc_eq\<close>)
      then have "run_ok f (?goal p s) (build_wave cfg env st (Suc p) (the w # busy) wave1 s2)"
      proof (rule run_ok_mono)
        fix x
        assume x: "case x of (wave', x) \<Rightarrow> set wave1 \<subseteq> set wave' \<and> wave_post cfg env st (Suc p) s2 (wave', x)"
        obtain wave' p' s' where xe: "x = (wave', p', s')" by (cases x)
        have sub: "set wave1 \<subseteq> set wave'" and post: "wave_post cfg env st (Suc p) s2 (wave', p', s')" using x xe by auto
        have "p \<in> (tk_PartitionID \<circ> fst) ` set wave'"
          using sub by (force simp: wave1_def make_task_def)
        moreover have "adv cfg env {} s s'" using adv_trans [OF a2, of "{}" s' "{}"] post by (simp add: wave_post_def)
        ultimately show "?goal p s x"
          using sub post rep acc unfolding xe wave_post_def wave1_def by (auto simp: Suc_le_eq le_less)
      qed simp
      moreover have "run_ok f (?goal p s) (Inr (wave, p, s1))"
        using a1 True less.prems(3) wave_ok_core [OF c] core_eqD(1) [OF c] by (simp add: wave_post_def)
      ultimately show ?thesis
        using True None pick ms
        by (subst build_wave.simps) (auto simp: s2_def wave1_def split: option.split)
    qed
  qed
qed

text \<open>The completions of a wave: every answer is a worker's answer to the task it is paired with.\<close>

definition answered :: "'r environment \<Rightarrow> (Task \<times> nat \<times> (task_error + 'r ExecResult)) list \<Rightarrow> bool" where
  "answered env comps \<longleftrightarrow> (\<forall>(t, w, a) \<in> set comps. \<exists>c. a = ev_exec env c w t)"

lemma exec_wave_spec: "answered env (exec_wave env c wave)" "map fst (exec_wave env c wave) = map fst wave"
proof -
  show "answered env (exec_wave env c wave)"
    by (induction env c wave rule: exec_wave.induct) (auto simp: answered_def)
  show "map fst (exec_wave env c wave) = map fst wave"
    by (induction env c wave rule: exec_wave.induct) auto
qed

definition comps_post where
  "comps_post cfg env st before ts s = (\<lambda>(stop, s'). adv cfg env {k. fst k \<le> st_ID st} s s' \<and>
     (stop \<longleftrightarrow> ls_repairs s' \<noteq> before) \<and>
     (\<not> stop \<longrightarrow> (\<forall>t \<in> set ts. ls_accepted s' (st_ID st, tk_PartitionID t) \<noteq> None)))"

lemma comps_post_step:
  assumes s1: "adv cfg env {k. fst k \<le> st_ID st} s s1" "ls_repairs s1 = before"
    and acc: "ls_accepted s1 (st_ID st, tk_PartitionID t) \<noteq> None"
    and x: "comps_post cfg env st before ts s1 x"
  shows "comps_post cfg env st before (t # ts) s x"
proof -
  obtain stop s' where xe: "x = (stop, s')" by fastforce
  have a: "adv cfg env {k. fst k \<le> st_ID st} s1 s'" and stop: "stop \<longleftrightarrow> ls_repairs s' \<noteq> before"
    and rest: "\<not> stop \<longrightarrow> (\<forall>t \<in> set ts. ls_accepted s' (st_ID st, tk_PartitionID t) \<noteq> None)"
    using x xe by (auto simp: comps_post_def)
  have "ls_accepted s' (st_ID st, tk_PartitionID t) \<noteq> None" if "\<not> stop"
    using adv_same [OF a, of "(st_ID st, tk_PartitionID t)"] acc stop s1(2) that by auto
  then show ?thesis using adv_trans [OF s1(1) a order_refl order_refl] stop rest xe by (auto simp: comps_post_def)
qed

lemma process_wave_spec:
  assumes plan: "plan_ok (sc_plan cfg)" and st: "stageByID (sc_plan cfg) (st_ID st) = Some st"
  shows "sched_ok cfg env s \<Longrightarrow> ls_repairs s = before \<Longrightarrow> answered env comps \<Longrightarrow> wave_ok cfg s st (map fst comps) \<Longrightarrow>
    run_ok (retry_fuel cfg \<le> n) (comps_post cfg env st before (map fst comps) s)
      (process_wave n cfg env st before comps s)"
proof (induction comps arbitrary: s)
  case Nil
  then show ?case using adv_core [OF Nil(1)] by (simp add: comps_post_def)
next
  case (Cons comp comps)
  obtain t w a where comp: "comp = (t, w, a)" by (cases comp)
  let ?p = "tk_PartitionID t" and ?K = "{k. fst k \<le> st_ID st}" and ?fuel = "retry_fuel cfg \<le> n"
  let ?post = "\<lambda>ts s. run_ok ?fuel (comps_post cfg env st before ts s)"
  obtain c where a: "a = ev_exec env c w t" using Cons.prems(3) comp by (auto simp: answered_def)
  have ans: "answered env comps" using Cons.prems(3) by (simp add: answered_def)
  have wave: "wave_ok cfg s st (t # map fst comps)" using Cons.prems(4) comp by simp
  then have t: "task_for cfg s st ?p t" "ls_accepted s (st_ID st, ?p) = None" "?p < st_NumPartitions st"
    by (simp_all add: wave_ok_def task_for_def)
  have diff: "tk_PartitionID t' \<noteq> ?p" if "t' \<in> set (map fst comps)" for t'
    using wave that by (force simp: wave_ok_def image_iff)
  have next_step: "?post (map fst (comp # comps)) s (process_wave n cfg env st before comps s1)"
    if s1: "adv cfg env (insert (st_ID st, ?p) {k. fst k < st_ID st}) s s1" "ls_repairs s1 = before"
      "ls_accepted s1 (st_ID st, ?p) \<noteq> None" for s1
  proof -
    have aK: "adv cfg env ?K s s1" by (rule adv_mono [OF s1(1)]) auto
    have "wave_ok cfg s st (map fst comps)" using wave by (simp add: wave_ok_def)
    then have "wave_ok cfg s1 st (map fst comps)"
      using wave_ok_adv [OF s1(1)] s1(2) Cons.prems(2) diff by fastforce
    then have "?post (map fst comps) s1 (process_wave n cfg env st before comps s1)"
      using Cons.IH [OF _ s1(2) ans] s1(1) by (simp add: adv_def)
    from run_ok_mono [OF this comps_post_step [OF aK s1(2,3)]] show ?thesis using comp by simp
  qed
  have fetched: "?post (map fst (comp # comps)) s (bindR (invalidate cfg e st s) (\<lambda>s1. Inr (True, s1)))" for e
  proof (cases "invalidate cfg e st s")
    case (Inl x)
    then show ?thesis by (auto simp: invalidate_def Let_def split: if_splits option.splits)
  next
    case (Inr s1)
    then show ?thesis
      using adv_invalidate [OF plan st Cons.prems(1) Inr] adv_mono [of cfg env "{}" s s1] Cons.prems(2)
      by (auto simp: comps_post_def)
  qed
  have retried: "?post (map fst (comp # comps)) s (bindR (ensureRetry n cfg env 1 st ?p s) (\<lambda>(r, s1).
      if ls_repairs s1 \<noteq> before then Inr (True, s1) else process_wave n cfg env st before comps s1))"
  proof (rule run_ok_bind [OF ensureRetry_spec [OF plan st t(3) Cons.prems(1)]], clarify)
    fix r s1 assume "retry_post cfg env st ?p s (r, s1)"
    then have s1: "adv cfg env (insert (st_ID st, ?p) {k. fst k < st_ID st}) s s1" "ls_accepted s1 (st_ID st, ?p) = Some r"
      by (simp_all add: retry_post_def)
    have "adv cfg env ?K s s1" by (rule adv_mono [OF s1(1)]) auto
    then show "?post (map fst (comp # comps)) s
        (if ls_repairs s1 \<noteq> before then Inr (True, s1) else process_wave n cfg env st before comps s1)"
      using next_step [OF s1(1)] s1(2) by (simp add: comps_post_def)
  qed
  have accepted: "?post (map fst (comp # comps)) s
      (bindR (accept_result env t w r (tick s)) (\<lambda>s1. process_wave n cfg env st before comps s1))"
    if "check_answer t st a = Inr r" for r
  proof (cases "accept_result env t w r (tick s)")
    case (Inl e)
    then show ?thesis by (auto simp: accept_result_def Let_def split: option.splits)
  next
    case (Inr s1)
    have r: "ev_exec env c w t = Inr r" "validateTaskResult t st r = None"
      using that a by (auto simp: check_answer_def split: sum.splits option.splits)
    have s1: "adv cfg env {(st_ID st, ?p)} s s1 \<and> ls_accepted s1 (st_ID st, ?p) = Some r \<and> ls_repairs s1 = ls_repairs s"
      by (rule adv_accept [OF plan Cons.prems(1) st t(1,2) r Inr]) simp
    then have "adv cfg env (insert (st_ID st, ?p) {k. fst k < st_ID st}) s s1" by (auto elim: adv_mono)
    then show ?thesis using next_step s1 Cons.prems(2) Inr by simp
  qed
  show ?case
    using accepted fetched retried comp by (auto split: sum.split task_error.split)
qed

text \<open>A stage: without a repair it ends with every partition accepted.\<close>

definition stage_post where
  "stage_post cfg env st s = (\<lambda>s'. adv cfg env {k. fst k \<le> st_ID st} s s' \<and>
     (ls_repairs s' = ls_repairs s \<longrightarrow> complete (sc_plan cfg) s' (st_ID st)))"

lemma run_waves_spec:
  assumes plan: "plan_ok (sc_plan cfg)" and st: "stageByID (sc_plan cfg) (st_ID st) = Some st"
  shows "sched_ok cfg env s \<Longrightarrow> (\<And>j. j \<in> set (st_Parents st) \<Longrightarrow> complete (sc_plan cfg) s j) \<Longrightarrow>
    (\<And>q. q < p \<Longrightarrow> ls_accepted s (st_ID st, q) \<noteq> None) \<Longrightarrow>
    run_ok (retry_fuel cfg \<le> n) (stage_post cfg env st s) (run_waves n cfg env st p s)"
proof (induction "st_NumPartitions st - p" arbitrary: p s rule: less_induct)
  case less
  let ?K = "{k. fst k \<le> st_ID st}" and ?fuel = "retry_fuel cfg \<le> n"
  have parts: "stage_parts (sc_plan cfg) (st_ID st) = st_NumPartitions st" using st by (simp add: stage_parts_def)
  show ?case
  proof (cases "p < st_NumPartitions st \<and> \<not> ev_cancelled env (ls_clock s)")
    case False
    then show ?thesis using less.prems(3) parts adv_core [OF less.prems(1)]
      by (subst run_waves.simps) (auto simp: stage_post_def complete_def)
  next
    case True
    have okt: "sched_ok cfg env (tick s)" using sched_ok_core [of "tick s" s] less.prems(1) by simp
    have cplt: "complete (sc_plan cfg) (tick s) j" if "j \<in> set (st_Parents st)" for j
      using complete_core [of "tick s" s] less.prems(2) [OF that] by simp
    have bw: "run_ok ?fuel (\<lambda>(wave', x). set [] \<subseteq> set wave' \<and> wave_post cfg env st p (tick s) (wave', x))
        (build_wave cfg env st p [] [] (tick s))"
      by (rule build_wave_spec [OF plan st okt cplt]) (use True in \<open>simp_all add: wave_ok_def\<close>)
    show ?thesis
    proof (cases "build_wave cfg env st p [] [] (tick s)")
      case (Inl e)
      then show ?thesis using bw True by (subst run_waves.simps) simp
    next
      case (Inr x)
      obtain wave p' s1 where x: "x = (wave, p', s1)" by (cases x)
      have s1: "adv cfg env {} (tick s) s1" "ls_repairs s1 = ls_repairs s" "wave_ok cfg s1 st (map fst wave)"
        "p' \<le> st_NumPartitions st" and covered: "\<And>q. q < p' \<Longrightarrow> p \<le> q \<Longrightarrow>
          ls_accepted s (st_ID st, q) \<noteq> None \<or> q \<in> (tk_PartitionID \<circ> fst) ` set wave"
        using bw Inr x by (auto simp: wave_post_def tick_def)
      have a1: "adv cfg env ?K s s1" using adv_mono [OF adv_core_left [OF s1(1)]] by simp
      define s2 where "s2 = s1\<lparr>ls_clock := ls_clock s1 + length wave\<rparr>"
      have c2: "core (tick s2) = core s1" by (simp add: s2_def)
      have a2: "adv cfg env ?K s (tick s2)"
        using adv_trans [OF a1 adv_core [OF _ c2] order_refl order_refl] a1 by (simp add: adv_def)
      have rep2: "ls_repairs (tick s2) = ls_repairs s" using core_eqD(1) [OF c2] s1(2) by simp
      have pw: "run_ok ?fuel (comps_post cfg env st (ls_repairs s) (map fst wave) (tick s2))
          (process_wave n cfg env st (ls_repairs s) (exec_wave env (ls_clock s1) wave) (tick s2))"
        using process_wave_spec [OF plan st, of env "tick s2" "ls_repairs s" "exec_wave env (ls_clock s1) wave" n]
          exec_wave_spec [where env = env and c = "ls_clock s1" and wave = wave]
          a2 rep2 wave_ok_core [OF c2] s1(3) by (simp add: adv_def)
      have empty: "stage_post cfg env st s s1" if "wave = []" "p' = st_NumPartitions st"
      proof -
        have "ls_accepted s (st_ID st, q) \<noteq> None" if "q < st_NumPartitions st" for q
          using less.prems(3) [of q] covered [of q] \<open>wave = []\<close> \<open>p' = st_NumPartitions st\<close> that by (cases "q < p") auto
        then have "complete (sc_plan cfg) s (st_ID st)" by (simp add: complete_def parts)
        then show ?thesis using a1 adv_complete [OF a1] by (simp add: stage_post_def)
      qed
      have stopped: "stage_post cfg env st s s3"
        if "comps_post cfg env st (ls_repairs s) (map fst wave) (tick s2) (True, s3)" for s3
        using that adv_trans [OF a2 _ order_refl order_refl] by (simp add: comps_post_def stage_post_def)
      have more: "run_ok ?fuel (stage_post cfg env st s) (run_waves n cfg env st p' s3)"
        if post: "comps_post cfg env st (ls_repairs s) (map fst wave) (tick s2) (False, s3)" and ne: "wave \<noteq> []" for s3
      proof -
        have a3: "adv cfg env ?K s s3" and rep3: "ls_repairs s3 = ls_repairs s"
          and got: "\<And>t. t \<in> fst ` set wave \<Longrightarrow> ls_accepted s3 (st_ID st, tk_PartitionID t) \<noteq> None"
          using post adv_trans [OF a2 _ order_refl order_refl] by (auto simp: comps_post_def)
        have pp: "p < p'" using build_wave_progress [OF Inr [unfolded x]] ne by simp
        have "run_ok ?fuel (stage_post cfg env st s3) (run_waves n cfg env st p' s3)"
        proof (rule less.hyps)
          show "st_NumPartitions st - p' < st_NumPartitions st - p" using pp True by linarith
          show "sched_ok cfg env s3" using a3 by (simp add: adv_def)
          show "complete (sc_plan cfg) s3 j" if "j \<in> set (st_Parents st)" for j
            by (rule adv_complete [OF a3 rep3 less.prems(2) [OF that]])
          show "ls_accepted s3 (st_ID st, q) \<noteq> None" if q: "q < p'" for q
            using less.prems(3) [of q] covered [OF q] got adv_same [OF a3 rep3, of "(st_ID st, q)"]
            by (cases "q < p") fastforce+
        qed
        then show ?thesis
          by (rule run_ok_mono) (use adv_trans [OF a3 _ order_refl order_refl] rep3 in \<open>auto simp: stage_post_def\<close>)
      qed
      show ?thesis
      proof (cases "process_wave n cfg env st (ls_repairs s) (exec_wave env (ls_clock s1) wave) (tick s2)")
        case Inl2: (Inl e)
        then show ?thesis using True Inr x empty pw
          by (subst run_waves.simps) (simp add: s2_def [symmetric] Let_def)
      next
        case Inr2: (Inr y)
        then show ?thesis using True Inr x empty pw stopped more
          by (subst run_waves.simps) (cases y, auto simp: s2_def [symmetric] Let_def)
      qed
    qed
  qed
qed

lemma runStage_spec:
  assumes "plan_ok (sc_plan cfg)" and "stageByID (sc_plan cfg) (st_ID st) = Some st" and "sched_ok cfg env s"
    and "\<And>j. j \<in> set (st_Parents st) \<Longrightarrow> complete (sc_plan cfg) s j"
  shows "run_ok (retry_fuel cfg \<le> n) (stage_post cfg env st s) (runStage n cfg env st s)"
  unfolding runStage_def by (rule run_waves_spec) (use assms in simp_all)

section \<open>Sampling\<close>

text \<open>
  Sampling leaves everything of importance as it was, unless a lost map output ends it: then
  there is one repair.
\<close>

definition sample_post where
  "sample_post cfg env s stop s' \<longleftrightarrow> sched_ok cfg env s' \<and>
     (if stop then ls_repairs s' = ls_repairs s + 1 else core s' = core s)"

lemma sampleTask_ready:
  assumes "core s' = core s" and "upstream_of (sc_plan cfg) s st = Some ms"
  shows "\<exists>t. sampleTask cfg s' st p a = Some t"
  using assms upstream_core [OF assms(1)] by (simp add: sampleTask_def)

lemma build_samples_spec:
  assumes up: "upstream_of (sc_plan cfg) s st = Some ms"
  shows "core s' = core s \<Longrightarrow> run_ok f (\<lambda>(wave', p', s''). core s'' = core s) (build_samples cfg env st p busy wave s')"
proof (induction "st_NumPartitions st - p" arbitrary: p busy wave s' rule: less_induct)
  case less
  obtain w s1 where pick: "pickWorkerIndexFor cfg env busy (stageCacheHints st p) s' = (w, s1)" by fastforce
  have c: "core s1 = core s" using core_pick [OF pick] less.prems by simp
  obtain t where t: "sampleTask cfg s1 st p 0 = Some t" using sampleTask_ready [OF c up] by blast
  have "run_ok f (\<lambda>(wave', p', s''). core s'' = core s) (build_samples cfg env st (Suc p) busy' wave'' s1)"
    if "p < st_NumPartitions st" for busy' wave''
    by (rule less.hyps [OF _ c]) (use that in linarith)
  then show ?case using pick t c less.prems
    by (subst build_samples.simps) (auto split: option.split)
qed

lemma retry_sample_spec:
  assumes up: "upstream_of (sc_plan cfg) s st = Some ms"
  shows "core s' = core s \<Longrightarrow> run_ok f (\<lambda>(got, s''). core s'' = core s) (retry_sample cfg env st p a s')"
proof (induction "sc_MaxAttempts cfg - a" arbitrary: a s' rule: less_induct)
  case less
  obtain w s1 where pick: "pickWorkerIndexFor cfg env [] (stageCacheHints st p) s' = (w, s1)" by fastforce
  have c: "core s1 = core s" using core_pick [OF pick] less.prems by simp
  obtain t where t: "sampleTask cfg s1 st p a = Some t" using sampleTask_ready [OF c up] by blast
  have "run_ok f (\<lambda>(got, s''). core s'' = core s) (retry_sample cfg env st p (Suc a) (tick s1))"
    if "a < sc_MaxAttempts cfg"
    by (rule less.hyps) (use that c in \<open>linarith, simp\<close>)
  then show ?case using pick t c less.prems
    by (subst retry_sample.simps) (auto split: option.split sum.split task_error.split)
qed

lemma process_samples_spec:
  assumes plan: "plan_ok (sc_plan cfg)" and st: "stageByID (sc_plan cfg) (st_ID st) = Some st"
    and ok: "sched_ok cfg env s" and up: "upstream_of (sc_plan cfg) s st = Some ms"
  shows "core s' = core s \<Longrightarrow> run_ok f (\<lambda>(stop, _, _, s''). sample_post cfg env s stop s'')
    (process_samples cfg env st comps samples seen s')"
proof (induction comps arbitrary: samples seen s')
  case Nil
  then show ?case using sched_ok_core [OF Nil] ok by (simp add: sample_post_def)
next
  case (Cons comp comps)
  obtain t w a where comp: "comp = (t, w, a)" by (cases comp)
  have fetched: "run_ok f (\<lambda>(stop, _, _, s''). sample_post cfg env s stop s'')
      (bindR (invalidate cfg e st s1) (\<lambda>s2. Inr (True, samples, seen, s2)))" if c: "core s1 = core s" for e s1
  proof (cases "invalidate cfg e st s1")
    case (Inl x)
    then show ?thesis by (auto simp: invalidate_def Let_def split: if_splits option.splits)
  next
    case (Inr s2)
    have "sched_ok cfg env s1" using sched_ok_core [OF c] ok by simp
    then show ?thesis using adv_invalidate [OF plan st _ Inr] Inr core_eqD(1) [OF c]
      by (simp add: sample_post_def adv_def)
  qed
  show ?case
    unfolding comp process_samples.simps
  proof (rule run_ok_bind [where P = "\<lambda>(got, s1). core s1 = core s"])
    show "run_ok f (\<lambda>(got, s1). core s1 = core s)
        (case check_sample (tk_PartitionID t) a of Inl (Fetch e) \<Rightarrow> Inr (Inl e, s')
         | Inl (Failed _) \<Rightarrow> retry_sample cfg env st (tk_PartitionID t) 1 s' | Inr r \<Rightarrow> Inr (Inr (w, r), s'))"
      using retry_sample_spec [OF up Cons.prems] Cons.prems by (auto split: sum.split task_error.split)
  next
    fix x :: "(FetchError + nat \<times> 'a ExecResult) \<times> 'a lineageScheduler"
    assume "case x of (got, s1) \<Rightarrow> core s1 = core s"
    then obtain got s1 where x: "x = (got, s1)" "core s1 = core s" by auto
    then show "run_ok f (\<lambda>(stop, _, _, s''). sample_post cfg env s stop s'')
        (case x of (got, s1) \<Rightarrow> (case got of
            Inl e \<Rightarrow> bindR (invalidate cfg e st s1) (\<lambda>s2. Inr (True, samples, seen, s2))
          | Inr (w', r) \<Rightarrow>
              (case appendSortSamples samples (er_Samples r) seen of
                 (samples', seen') \<Rightarrow> process_samples cfg env st comps samples' seen'
                     (rememberWorkerCache w' (er_Cached r) (er_Dropped r) s1))))"
      using fetched Cons.IH by (auto split: sum.split prod.split)
  qed
qed

lemma sample_waves_spec:
  assumes plan: "plan_ok (sc_plan cfg)" and st: "stageByID (sc_plan cfg) (st_ID st) = Some st"
    and ok: "sched_ok cfg env s" and up: "upstream_of (sc_plan cfg) s st = Some ms"
  shows "core s' = core s \<Longrightarrow> run_ok f (\<lambda>(stop, _, s''). sample_post cfg env s stop s'')
    (sample_waves cfg env st p samples seen s')"
proof (induction "st_NumPartitions st - p" arbitrary: p samples seen s' rule: less_induct)
  case less
  show ?case
  proof (cases "p < st_NumPartitions st \<and> \<not> ev_cancelled env (ls_clock s')")
    case False
    then show ?thesis using less.prems ok sched_ok_core [OF less.prems]
      by (subst sample_waves.simps) (auto simp: sample_post_def)
  next
    case True
    have "core (tick s') = core s" using less.prems by simp
    note bs = build_samples_spec [OF up this, of f env p "[]" "[]"]
    show ?thesis
    proof (cases "build_samples cfg env st p [] [] (tick s')")
      case (Inl e)
      then show ?thesis using bs True by (subst sample_waves.simps) simp
    next
      case (Inr x)
      obtain wave p' s1 where x: "x = (wave, p', s1)" by (cases x)
      have c1: "core s1 = core s" using bs Inr x by simp
      define s2 where "s2 = s1\<lparr>ls_clock := ls_clock s1 + length wave\<rparr>"
      define m where "m = process_samples cfg env st (exec_wave env (ls_clock s1) wave) samples seen (tick s2)"
      have ps: "run_ok f (\<lambda>(stop, _, _, s''). sample_post cfg env s stop s'') m"
        unfolding m_def by (rule process_samples_spec [OF plan st ok up]) (simp add: s2_def c1)
      have more: "run_ok f (\<lambda>(stop, _, s''). sample_post cfg env s stop s'') (sample_waves cfg env st p' samples' seen' s3)"
        if "core s3 = core s" "wave \<noteq> []" for samples' seen' s3
      proof (rule less.hyps [OF _ that(1)])
        show "st_NumPartitions st - p' < st_NumPartitions st - p"
          using build_samples_progress [OF Inr [unfolded x]] that(2) True by linarith
      qed
      have same: "core s3 = core s" if "sample_post cfg env s False s3" for s3 using that by (simp add: sample_post_def)
      show ?thesis
        using True Inr x ps more [OF same]
        by (subst sample_waves.simps)
          (cases m, auto simp: s2_def [symmetric] m_def [symmetric] Let_def)
    qed
  qed
qed

lemma sched_ok_set_bounds:
  assumes ok: "sched_ok cfg env s" and j: "\<not> ls_sampled s j" and st: "stageByID (sc_plan cfg) j = Some st" "st_RangeSort st"
  shows "sched_ok cfg env (s\<lparr>ls_bounds := (ls_bounds s)(j := blob), ls_sampled := (ls_sampled s)(j := True)\<rparr>)"
proof -
  let ?s = "s\<lparr>ls_bounds := (ls_bounds s)(j := blob), ls_sampled := (ls_sampled s)(j := True)\<rparr>"
  have up: "upstream_of plan ?s st' = upstream_of plan s st'" for plan st' by (rule upstream_cong) simp
  have "computed cfg env ?s i p r" if acc: "ls_accepted s (i, p) = Some r" for i p r
  proof -
    have c: "computed cfg env s i p r" using ok acc by (simp add: sched_ok_def)
    show ?thesis
    proof (cases "i = j")
      case False
      then show ?thesis using computed_attempts [OF c, of ?s] up by simp
    next
      case True
      then have "\<not> rejects_unsampled cfg env" using c j st unfolding computed_def by auto
      then show ?thesis using c up unfolding computed_def by simp
    qed
  qed
  then show ?thesis using ok by (simp add: sched_ok_def)
qed

text \<open>Sampling as a whole; without a repair it changes only the boundaries of the stage.\<close>

lemma sampleStage_spec:
  assumes plan: "plan_ok (sc_plan cfg)" and st: "stageByID (sc_plan cfg) (st_ID st) = Some st"
    and ok: "sched_ok cfg env s" and up: "\<And>j. j \<in> set (st_Parents st) \<Longrightarrow> complete (sc_plan cfg) s j"
    and sort: "st_RangeSort st" "jp_sortLess (sc_plan cfg) (st_ID st) \<noteq> None" "\<not> ls_sampled s (st_ID st)"
  shows "run_ok f (\<lambda>s'. sched_ok cfg env s' \<and> ls_repairs s \<le> ls_repairs s' \<and>
      (ls_repairs s' = ls_repairs s \<longrightarrow> ls_accepted s' = ls_accepted s \<and> ls_sampled s' (st_ID st)))
    (sampleStage cfg env st s)"
proof -
  obtain ms where ms: "upstream_of (sc_plan cfg) s st = Some ms" using complete_upstream [OF plan ok st up] by blast
  obtain lt where lt: "jp_sortLess (sc_plan cfg) (st_ID st) = Some lt" using sort(2) by blast
  show ?thesis
    unfolding sampleStage_def
  proof (rule run_ok_bind [OF sample_waves_spec [OF plan st ok ms refl]], clarify)
    fix stop samples s1 assume post: "sample_post cfg env s stop s1"
    have "sched_ok cfg env (s1\<lparr>ls_bounds := (ls_bounds s1)(st_ID st := blob), ls_sampled := (ls_sampled s1)(st_ID st := True)\<rparr>)"
      if "\<not> stop" for blob
    proof (rule sched_ok_set_bounds [OF _ _ st sort(1)])
      show "sched_ok cfg env s1" "\<not> ls_sampled s1 (st_ID st)"
        using post that sort(3) core_eqD(4) [of s1 s] by (simp_all add: sample_post_def)
    qed
    then show "run_ok f (\<lambda>s'. sched_ok cfg env s' \<and> ls_repairs s \<le> ls_repairs s' \<and>
        (ls_repairs s' = ls_repairs s \<longrightarrow> ls_accepted s' = ls_accepted s \<and> ls_sampled s' (st_ID st)))
      (if stop then Inr s1 else case jp_sortLess (sc_plan cfg) (st_ID st) of
          None \<Rightarrow> Inl Panic
        | Some lt \<Rightarrow> (case ev_encode env (selectRangeBounds samples (st_NumReducers st) lt) of
            Inl e \<Rightarrow> Inl (Fail e)
          | Inr blob \<Rightarrow> Inr (s1\<lparr>ls_bounds := (ls_bounds s1)(st_ID st := blob),
                ls_sampled := (ls_sampled s1)(st_ID st := True)\<rparr>)))"
      using post lt core_eqD [of s1 s] by (auto simp: sample_post_def split: sum.split)
  qed
qed

section \<open>The whole job\<close>

definition sorts_known :: "JobPlan \<Rightarrow> bool" where
  "sorts_known plan \<longleftrightarrow> (\<forall>st \<in> set (jp_Stages plan). st_RangeSort st \<longrightarrow> jp_sortLess plan (st_ID st) \<noteq> None)"

definition pass_post ::
  "sched_conf \<Rightarrow> 'r environment \<Rightarrow> 'r lineageScheduler \<Rightarrow> bool \<times> 'r lineageScheduler \<Rightarrow> bool" where
  "pass_post cfg env s = (\<lambda>(stop, s'). sched_ok cfg env s' \<and> ls_repairs s \<le> ls_repairs s' \<and>
     (stop \<longleftrightarrow> ls_repairs s' \<noteq> ls_repairs s) \<and>
     (\<not> stop \<longrightarrow> (\<forall>j < length (jp_Stages (sc_plan cfg)). complete (sc_plan cfg) s' j)))"

lemma stage_pass_spec:
  assumes plan: "plan_ok (sc_plan cfg)" "sorts_known (sc_plan cfg)"
  shows "sched_ok cfg env s \<Longrightarrow> stages = drop k (jp_Stages (sc_plan cfg)) \<Longrightarrow> k \<le> length (jp_Stages (sc_plan cfg)) \<Longrightarrow>
    (\<And>j. j < k \<Longrightarrow> complete (sc_plan cfg) s j) \<Longrightarrow>
    run_ok (retry_fuel cfg \<le> n) (pass_post cfg env s) (stage_pass n cfg env stages s)"
proof (induction stages arbitrary: k s)
  case Nil
  then show ?case by (simp add: pass_post_def)
next
  case (Cons st stages)
  let ?plan = "sc_plan cfg"
  have k: "k < length (jp_Stages ?plan)" using Cons.prems(2) by (metis drop_eq_Nil leI list.distinct(1))
  then have "drop k (jp_Stages ?plan) = jp_Stages ?plan ! k # drop (Suc k) (jp_Stages ?plan)" by (rule Cons_nth_drop_Suc [symmetric])
  then have stk: "st = jp_Stages ?plan ! k" and rest: "stages = drop (Suc k) (jp_Stages ?plan)" using Cons.prems(2) by auto
  then have byk: "stageByID ?plan k = Some st" using k by (simp add: stageByID_plan_ok [OF plan(1)])
  have ID: "st_ID st = k" by (rule stageByID_ID [OF byk])
  then have st: "stageByID ?plan (st_ID st) = Some st" using byk by simp
  have par: "complete ?plan s j" if "j \<in> set (st_Parents st)" for j
    by (rule Cons.prems(4) [OF plan_ok_parent(1) [OF plan(1) byk that]])
  let ?mid = "\<lambda>s1. sched_ok cfg env s1 \<and> ls_repairs s \<le> ls_repairs s1 \<and>
    (ls_repairs s1 = ls_repairs s \<longrightarrow> ls_accepted s1 = ls_accepted s)"
  have sample: "run_ok (retry_fuel cfg \<le> n) ?mid
      (if st_RangeSort st \<and> \<not> ls_sampled s (st_ID st) then sampleStage cfg env st s else Inr s)"
  proof (cases "st_RangeSort st \<and> \<not> ls_sampled s (st_ID st)")
    case True
    have "jp_sortLess ?plan (st_ID st) \<noteq> None" using plan(2) True nth_mem [OF k] stk by (simp add: sorts_known_def)
    then have "run_ok (retry_fuel cfg \<le> n) ?mid (sampleStage cfg env st s)"
      using True by (intro run_ok_mono [OF sampleStage_spec [OF plan(1) st Cons.prems(1) par]]) auto
    then show ?thesis using True by simp
  qed (use Cons.prems(1) in auto)
  have run: "run_ok (retry_fuel cfg \<le> n) (pass_post cfg env s) (bindR (runStage n cfg env st s1) (\<lambda>s2.
      if ls_repairs s2 \<noteq> ls_repairs s then Inr (True, s2) else stage_pass n cfg env stages s2))"
    if s1: "?mid s1" "ls_repairs s1 = ls_repairs s" for s1
  proof (rule run_ok_bind [OF runStage_spec [OF plan(1) st]])
    show "sched_ok cfg env s1" using s1 by simp
    have kept: "complete ?plan s1 j = complete ?plan s j" for j using s1 by (simp add: complete_def)
    then show "complete ?plan s1 j" if "j \<in> set (st_Parents st)" for j using par [OF that] by simp
    fix s2 assume "stage_post cfg env st s1 s2"
    then have s2: "adv cfg env {k. fst k \<le> st_ID st} s1 s2"
      "ls_repairs s2 = ls_repairs s1 \<longrightarrow> complete ?plan s2 k" by (simp_all add: stage_post_def ID)
    then have ok2: "sched_ok cfg env s2" and rep2: "ls_repairs s \<le> ls_repairs s2" using s1(2) by (auto simp: adv_def)
    show "run_ok (retry_fuel cfg \<le> n) (pass_post cfg env s)
        (if ls_repairs s2 \<noteq> ls_repairs s then Inr (True, s2) else stage_pass n cfg env stages s2)"
    proof (cases "ls_repairs s2 = ls_repairs s")
      case False
      then show ?thesis using ok2 rep2 by (simp add: pass_post_def)
    next
      case True
      have "complete ?plan s2 j" if "j < Suc k" for j
        using adv_complete [OF s2(1)] kept Cons.prems(4) s2(2) True s1(2) that by (cases "j = k") auto
      then have "run_ok (retry_fuel cfg \<le> n) (pass_post cfg env s2) (stage_pass n cfg env stages s2)"
        using Cons.IH [OF ok2 rest] k by simp
      then show ?thesis using True by (simp add: pass_post_def)
    qed
  qed
  show ?case
    unfolding stage_pass.simps
    by (rule run_ok_bind [OF sample]) (use run in \<open>auto simp: pass_post_def\<close>)
qed

definition job_post where
  "job_post cfg env result = (\<lambda>(results, s'). sched_ok cfg env s' \<and> collect_results s' result = Some results \<and>
     (\<forall>j < length (jp_Stages (sc_plan cfg)). complete (sc_plan cfg) s' j))"

lemma schedule_loop_spec:
  assumes plan: "plan_ok (sc_plan cfg)" "sorts_known (sc_plan cfg)"
    and result: "stageByID (sc_plan cfg) (jp_ResultStageID (sc_plan cfg)) = Some result"
  shows "sched_ok cfg env s \<Longrightarrow>
    run_ok (retry_fuel cfg \<le> n \<and> sc_MaxRecoveries cfg - ls_repairs s < k) (job_post cfg env result)
      (schedule_loop k n cfg env result s)"
proof (induction k arbitrary: s)
  case (Suc k)
  have "run_ok (retry_fuel cfg \<le> n) (pass_post cfg env s) (stage_pass n cfg env (orderedStages (sc_plan cfg)) s)"
    unfolding orderedStages_plan_ok [OF plan(1)] by (rule stage_pass_spec [OF plan Suc.prems, of _ 0]) simp_all
  then have "run_ok (retry_fuel cfg \<le> n \<and> sc_MaxRecoveries cfg - ls_repairs s < Suc k) (pass_post cfg env s)
    (stage_pass n cfg env (orderedStages (sc_plan cfg)) s)" by (rule run_ok_mono) auto
  then show ?case
    unfolding schedule_loop.simps
  proof (rule run_ok_bind, clarify)
    fix stop s1 assume post: "pass_post cfg env s (stop, s1)"
    then have ok: "sched_ok cfg env s1" by (simp add: pass_post_def)
    have some: "\<exists>rs. collect_results s1 result = Some rs" if "\<not> stop"
    proof -
      have "jp_ResultStageID (sc_plan cfg) < length (jp_Stages (sc_plan cfg))"
        using result by (simp add: stageByID_plan_ok [OF plan(1)])
      then have "complete (sc_plan cfg) s1 (st_ID result)"
        using post that stageByID_ID [OF result] by (auto simp: pass_post_def)
      then have "None \<notin> set (map (\<lambda>p. ls_accepted s1 (st_ID result, p)) [0..<st_NumPartitions result])"
        using result stageByID_ID [OF result] by (force simp: complete_def stage_parts_def)
      then show ?thesis unfolding collect_results_def using those_None by blast
    qed
    have fewer: "sc_MaxRecoveries cfg - ls_repairs s1 < sc_MaxRecoveries cfg - ls_repairs s" if stop
      using post that ok by (auto simp: pass_post_def sched_ok_def)
    have "run_ok (retry_fuel cfg \<le> n \<and> sc_MaxRecoveries cfg - ls_repairs s < Suc k) (job_post cfg env result)
        (schedule_loop k n cfg env result s1)" if stop
      by (rule run_ok_mono [OF Suc.IH [OF ok]]) (use fewer [OF that] in auto)
    then show "run_ok (retry_fuel cfg \<le> n \<and> sc_MaxRecoveries cfg - ls_repairs s < Suc k) (job_post cfg env result)
        (if stop then schedule_loop k n cfg env result s1 else case collect_results s1 result of
           None \<Rightarrow> schedule_loop k n cfg env result s1 | Some results \<Rightarrow> Inr (results, s1))"
      using some post by (auto simp: job_post_def pass_post_def)
  qed
qed simp

end
