(* ===== verification/Job_Runs.thy ===== *)
theory Job_Runs
  imports Recovery
begin

text \<open>
  What a submitted job does, over the lemmas of the scheduler's invariant: it ends, its results are
  complete and consistent with the map outputs accepted at the end, a healthy cluster brings every
  job to its results, and accumulator updates count once per accepted result.
\<close>

section \<open>Submission\<close>

lemma PlanRDD_sorts_known:
  assumes "wf_lineage rdd" and "PlanRDD (Some rdd) spec = Inr plan"
  shows "plan_ok plan" and "sorts_known plan" and "stage_computes plan (last (jp_Stages plan)) rdd"
  using PlanRDD_spec [OF assms(1), of spec] assms(2) by (auto simp: sorts_known_def)

lemma plan_ok_result:
  assumes "plan_ok plan"
  shows "stageByID plan (jp_ResultStageID plan) = Some (last (jp_Stages plan))"
    and "st_ID (last (jp_Stages plan)) = jp_ResultStageID plan"
    and "st_Kind (last (jp_Stages plan)) = StageResult"
proof -
  have n: "length (jp_Stages plan) = jp_ResultStageID plan + 1" using assms by (simp add: plan_ok_def Let_def)
  then have l: "last (jp_Stages plan) = jp_Stages plan ! jp_ResultStageID plan"
    by (metis add_diff_cancel_right' last_conv_nth length_0_conv nat.simps(3) Suc_eq_plus1)
  then show by_id: "stageByID plan (jp_ResultStageID plan) = Some (last (jp_Stages plan))"
    using n by (simp add: stageByID_plan_ok [OF assms])
  show ID: "st_ID (last (jp_Stages plan)) = jp_ResultStageID plan" by (rule stageByID_ID [OF by_id])
  show "st_Kind (last (jp_Stages plan)) = StageResult"
    using assms ID n by (metis (no_types, lifting) last_in_set length_0_conv nat.simps(3) Suc_eq_plus1 plan_ok_def)
qed

lemma job_conf_simps [simp]:
  "sc_plan (job_conf spec plan runners a r jobID) = plan"
  "sc_MaxRecoveries (job_conf spec plan runners a r jobID) = default_limit r 2"
  "sc_spec (job_conf spec plan runners a r jobID) = spec"
  "sc_jobID (job_conf spec plan runners a r jobID) = jobID"
  "sc_runners (job_conf spec plan runners a r jobID) = runners"
  by (simp_all add: job_conf_def)

text \<open>The scheduling loop of a submitted job, from the empty state.\<close>

lemma submitted_loop:
  assumes plan: "plan_ok plan" "sorts_known plan" and cfg: "cfg = job_conf spec plan runners a r jobID"
  shows "run_ok (retry_fuel cfg \<le> n \<and> sc_MaxRecoveries cfg < k) (job_post cfg env (last (jp_Stages plan)))
    (schedule_loop k n cfg env (last (jp_Stages plan)) initial_scheduler)"
  by (rule run_ok_mono [OF schedule_loop_spec [OF _ _ _ sched_ok_initial]])
    (use plan plan_ok_result [OF plan(1)] in \<open>simp_all add: cfg initial_scheduler_def\<close>)

lemma scheduleResults_plan_ok:
  assumes plan: "plan_ok plan" and cfg: "cfg = job_conf spec plan runners a r jobID"
  shows "scheduleResults k n (Inr plan) jobID env spec ctx runners a r =
    (if js_CacheIdentity spec \<noteq> [] \<and> \<not> cacheIdentityPattern (js_CacheIdentity spec)
     then Inl (Fail (Err ''invalid reusable cache identity %q''))
     else if js_Accumulators spec \<noteq> [] \<and> ctx = None
     then Inl (Fail (Err ''distributed accumulators require BindAccumulators''))
     else if runners = 0 then Inl (Fail (Err ''no workers''))
     else if a < 0 \<or> r < 0 then Inl (Fail (Err ''negative retry limit''))
     else bindR (schedule_loop k n cfg env (last (jp_Stages plan)) initial_scheduler) (\<lambda>(results, s).
       (case mergeAccumulators ctx (accepted_results plan s) of
          Inl e \<Rightarrow> Inl (Fail e)
        | Inr ctx' \<Rightarrow> Inr (results, jp_ResultStageID plan, ctx'))))"
  using plan_ok_result [OF plan] orderedStages_plan_ok [OF plan]
  by (simp add: scheduleResults_def cfg Let_def cong: sum.case_cong)

text \<open>
  C28: A submitted job always ends and never dereferences a missing map output, whatever the workers
  answer: with fuel for the allowed recoveries and attempts, submission returns results or an
  ordinary error.
\<close>

theorem job_terminates:
  assumes "wf_lineage rdd" and "PlanRDD (Some rdd) spec = Inr plan"
    and "retry_fuel (job_conf spec plan runners a r jobID) \<le> n" and "default_limit r 2 < k"
  shows "scheduleResults k n (PlanRDD (Some rdd) spec) jobID env spec ctx runners a r \<notin> {Inl Panic, Inl Out_of_fuel}"
proof -
  note plan = PlanRDD_sorts_known [OF assms(1,2)]
  have "run_ok True (job_post (job_conf spec plan runners a r jobID) env (last (jp_Stages plan)))
      (schedule_loop k n (job_conf spec plan runners a r jobID) env (last (jp_Stages plan)) initial_scheduler)"
    using submitted_loop [OF plan(1,2) refl, of spec runners a r jobID n k env] assms(3,4) by simp
  then show ?thesis
    unfolding assms(2) scheduleResults_plan_ok [OF plan(1) refl]
    by (cases "schedule_loop k n (job_conf spec plan runners a r jobID) env (last (jp_Stages plan)) initial_scheduler")
      (auto split: sum.splits)
qed

text \<open>What a finished job has accepted, in terms of the plan.\<close>

lemma finished_results:
  assumes plan: "plan_ok plan" and post: "job_post cfg env (last (jp_Stages plan)) (results, s)" "sc_plan cfg = plan"
    and p: "p < st_NumPartitions (last (jp_Stages plan))"
  shows "length results = st_NumPartitions (last (jp_Stages plan))"
    and "ls_accepted s (jp_ResultStageID plan, p) = Some (results ! p)"
    and "er_PartitionID (results ! p) = p" and "er_Kind (results ! p) = StageResult"
proof -
  note last_stage = plan_ok_result [OF plan]
  have rs: "map (\<lambda>p. ls_accepted s (jp_ResultStageID plan, p)) [0..<st_NumPartitions (last (jp_Stages plan))] = map Some results"
    using post last_stage(2) by (simp add: job_post_def collect_results_def those_Some)
  from arg_cong [OF rs, of length] show len: "length results = st_NumPartitions (last (jp_Stages plan))" by simp
  from arg_cong [OF rs, of "\<lambda>xs. xs ! p"] show acc: "ls_accepted s (jp_ResultStageID plan, p) = Some (results ! p)"
    using p len by simp
  then have "computed cfg env s (jp_ResultStageID plan) p (results ! p)"
    using post by (simp add: job_post_def sched_ok_def)
  then obtain t where "validateTaskResult t (last (jp_Stages plan)) (results ! p) = None" "tk_PartitionID t = p"
    using post(2) last_stage(1) unfolding computed_def by auto
  then show "er_PartitionID (results ! p) = p" "er_Kind (results ! p) = StageResult"
    using last_stage(3) by (auto simp: validateTaskResult_def split: if_splits)
qed

text \<open>
  C3: The results a job returns are complete and consistent with its lineage: there is one result
  for each partition of the root, at its index; every one was a worker's valid answer to a task of
  this job for that partition, of an attempt that was dispatched; and the map outputs named in that
  task are exactly the ones accepted for the parent stages when the job ends, which were computed
  in the same way. No result depends on a map output that was lost and replaced.
\<close>

theorem results_lineage_consistent:
  assumes "wf_lineage rdd" and "PlanRDD (Some rdd) spec = Inr plan" and "cfg = job_conf spec plan runners a r jobID"
    and "schedule_loop k n cfg env (last (jp_Stages plan)) initial_scheduler = Inr (results, s)"
  shows "length results = length (rdd_Partitions rdd) \<and>
    (\<forall>p < length results. er_PartitionID (results ! p) = p \<and> er_Kind (results ! p) = StageResult \<and>
       computed cfg env s (jp_ResultStageID plan) p (results ! p)) \<and>
    (\<forall>st \<in> set (jp_Stages plan). \<forall>p < st_NumPartitions st.
       \<exists>x. ls_accepted s (st_ID st, p) = Some x \<and> computed cfg env s (st_ID st) p x)"
proof (intro conjI allI impI ballI)
  note plan = PlanRDD_sorts_known [OF assms(1,2)]
  have post: "job_post cfg env (last (jp_Stages plan)) (results, s)" and pl: "sc_plan cfg = plan"
    using submitted_loop [OF plan(1,2) assms(3), of n k env] assms(3,4) by simp_all
  have num: "st_NumPartitions (last (jp_Stages plan)) = length (rdd_Partitions rdd)"
    using plan(3) by (simp add: stage_computes_def)
  have "length results = st_NumPartitions (last (jp_Stages plan))"
    using post by (auto simp: job_post_def collect_results_def those_Some dest: arg_cong [of _ _ length])
  then show len: "length results = length (rdd_Partitions rdd)" using num by simp
  have comp: "computed cfg env s j p x" if "ls_accepted s (j, p) = Some x" for j p x
    using post that by (simp add: job_post_def sched_ok_def)
  fix p assume "p < length results"
  then have p: "p < st_NumPartitions (last (jp_Stages plan))" using len num by simp
  note fin = finished_results [OF plan(1) post pl p]
  show "er_PartitionID (results ! p) = p" "er_Kind (results ! p) = StageResult" by (rule fin)+
  show "computed cfg env s (jp_ResultStageID plan) p (results ! p)" by (rule comp [OF fin(2)])
next
  note plan = PlanRDD_sorts_known [OF assms(1,2)]
  have post: "job_post cfg env (last (jp_Stages plan)) (results, s)" and pl: "sc_plan cfg = plan"
    using submitted_loop [OF plan(1,2) assms(3), of n k env] assms(3,4) by simp_all
  fix st p assume st: "st \<in> set (jp_Stages plan)" and p: "p < st_NumPartitions st"
  obtain i where i: "i < length (jp_Stages plan)" "st = jp_Stages plan ! i" using st by (metis in_set_conv_nth)
  then have "st_ID st = i" "stage_parts plan i = st_NumPartitions st"
    using plan_ok_nth [OF plan(1) i(1)] stageByID_plan_ok [OF plan(1), of i st] by (simp_all add: stage_parts_def)
  then have "ls_accepted s (st_ID st, p) \<noteq> None"
    using post pl i(1) p by (simp add: job_post_def complete_def)
  then obtain x where "ls_accepted s (st_ID st, p) = Some x" by blast
  then show "\<exists>x. ls_accepted s (st_ID st, p) = Some x \<and> computed cfg env s (st_ID st) p x"
    using post by (auto simp: job_post_def sched_ok_def)
qed

lemma find_source_parent:
  assumes plan: "plan_ok plan" and st: "stageByID plan (st_ID st) = Some st" and src: "src \<in> set (st_Parents st)"
    and sst: "stageByID plan src = Some sst"
  shows "find_source plan st (st_ShuffleID sst) = Some src"
proof -
  let ?P = "\<lambda>i. (case stageByID plan i of None \<Rightarrow> 0 | Some st \<Rightarrow> st_ShuffleID st) = st_ShuffleID sst"
  have unique: "i = src" if i: "i \<in> set (st_Parents st)" "?P i" for i
  proof -
    obtain si where si: "stageByID plan i = Some si" using plan_ok_parent(2) [OF plan st i(1)] by blast
    let ?n = "length (jp_Stages plan)"
    have "st_ID st < ?n" using st by (simp add: stageByID_plan_ok [OF plan])
    then have below: "i < ?n - 1" "src < ?n - 1"
      using plan_ok_parent(1) [OF plan st i(1)] plan_ok_parent(1) [OF plan st src] by linarith+
    have "distinct (map st_ShuffleID (butlast (jp_Stages plan)))" using plan by (simp add: plan_ok_def Let_def)
    moreover have "st_ShuffleID (butlast (jp_Stages plan) ! i) = st_ShuffleID (butlast (jp_Stages plan) ! src)"
      using i(2) si sst below by (simp add: stageByID_plan_ok [OF plan] nth_butlast)
    ultimately show "i = src" using below by (simp add: distinct_conv_nth) metis
  qed
  have "?P src" using sst by simp
  then obtain i where i: "find ?P (st_Parents st) = Some i"
    using src by (cases "find ?P (st_Parents st)") (auto simp: find_None_iff)
  then have "i \<in> set (st_Parents st)" "?P i" by (auto simp: find_Some_iff)
  then show ?thesis using unique i sst stageByID_ID [OF sst] by (simp add: find_source_def)
qed

text \<open>
  C29: A reported loss of a map output is repaired exactly: it is accepted exactly when it names the
  current attempt of a map output that the failing stage reads and a recovery is left; then the
  output itself and every result of every stage that descends from its stage are forgotten, with
  the sampled boundaries of those stages, and nothing else.
\<close>

theorem repair_forgets_exactly:
  assumes "plan_ok (sc_plan cfg)" and "stageByID (sc_plan cfg) (st_ID st) = Some st"
  shows "invalidate cfg e st s = Inr s' \<longleftrightarrow>
    (\<exists>src sst r m. src \<in> set (st_Parents st) \<and> stageByID (sc_plan cfg) src = Some sst \<and>
       st_ShuffleID sst = fe_ShuffleID e \<and> fe_JobID e = sc_jobID cfg \<and>
       ls_accepted s (src, fe_MapID e) = Some r \<and> er_Manifest r = Some m \<and> Attempt m = fe_Attempt e \<and>
       ls_repairs s < sc_MaxRecoveries cfg \<and> s' = forget_lost (sc_plan cfg) src (fe_MapID e) s)" (is "?L \<longleftrightarrow> ?R")
proof
  assume ?L
  then show ?R using invalidate_spec [OF assms] by metis
next
  assume ?R
  then obtain src sst r m where src: "src \<in> set (st_Parents st)" "stageByID (sc_plan cfg) src = Some sst"
    "st_ShuffleID sst = fe_ShuffleID e" and "fe_JobID e = sc_jobID cfg" "ls_accepted s (src, fe_MapID e) = Some r"
    "er_Manifest r = Some m" "Attempt m = fe_Attempt e" "ls_repairs s < sc_MaxRecoveries cfg"
    and s': "s' = forget_lost (sc_plan cfg) src (fe_MapID e) s" by blast
  moreover have "find_source (sc_plan cfg) st (fe_ShuffleID e) = Some src"
    using find_source_parent [OF assms src(1,2)] src(3) by simp
  ultimately obtain s0 where inv: "invalidate cfg e st s = Inr s0" by (simp add: invalidate_def Let_def)
  then obtain src' sst' where src': "src' \<in> set (st_Parents st)" "stageByID (sc_plan cfg) src' = Some sst'"
    "st_ShuffleID sst' = fe_ShuffleID e" and s0: "s0 = forget_lost (sc_plan cfg) src' (fe_MapID e) s"
    using invalidate_spec [OF assms inv] by metis
  have "src' = src" using find_source_parent [OF assms src(1,2)] find_source_parent [OF assms src'(1,2)] src(3) src'(3) by simp
  then show ?L using inv s0 s' by simp
qed

section \<open>A healthy cluster\<close>

text \<open>
  No cancellation, every worker alive, and every task answered as the task asks: with a sample, or
  with a valid result when the task has what the executor needs.
\<close>

definition healthy :: "sched_conf \<Rightarrow> 'r environment \<Rightarrow> bool" where
  "healthy cfg env \<longleftrightarrow>
     (\<forall>c. \<not> ev_cancelled env c) \<and> (\<forall>c w. ev_alive env c w) \<and>
     (\<forall>c t r. ev_complete env c t r = None) \<and> (\<forall>bs. \<exists>blob. ev_encode env bs = Inr blob \<and> blob \<noteq> []) \<and>
     (\<forall>c w t st. stageByID (sc_plan cfg) (tk_StageID t) = Some st \<longrightarrow>
        (if tk_Sample t then \<exists>r. ev_exec env c w t = Inr r \<and> er_Kind r = StageSample \<and> er_PartitionID r = tk_PartitionID t
         else st_RangeSort st \<and> tk_RangeBounds t = [] \<or>
           (\<exists>r. ev_exec env c w t = Inr r \<and> validateTaskResult t st r = None)))"

lemma pick_loop_alive:
  assumes "\<And>c w. ev_alive env c w"
  shows "best \<noteq> None \<or> (\<exists>i \<in> set is. (ls_worker s + i) mod n \<notin> set busy) \<Longrightarrow>
    fst (pick_loop env n busy hints is best s) \<noteq> None"
proof (induction "is" arbitrary: best s)
  case (Cons i "is")
  have w: "ls_worker (check_identity env j s') = ls_worker s'" for j s'
    by (simp add: check_identity_def dropWorkerCache_def Let_def split: option.split)
  show ?case
    using Cons.prems assms
    by (auto simp: Let_def w simp del: not_None_eq split: option.splits intro!: Cons.IH)
qed simp

lemma mod_shift_inj:
  assumes "(a + i) mod n = (a + j) mod n" and "i < n" and "j < (n :: nat)"
  shows "i = j"
proof -
  have le: "i' = j'" if "j' \<le> i'" "i' < n" "(a + i') mod n = (a + j') mod n" for i' j'
  proof -
    have "n dvd i' - j'" using that(1,3) mod_eq_dvd_iff_nat [of "a + j'" "a + i'" n] by simp
    then show ?thesis using that(1,2) by (meson diff_is_0_eq dvd_imp_le le_antisym less_imp_diff_less not_gr_zero not_le)
  qed
  show ?thesis using le [of j i] le [of i j] assms by (metis nat_le_linear)
qed

lemma pick_alive:
  assumes "\<And>c w. ev_alive env c w" and "length busy < sc_runners cfg"
  shows "\<exists>w s'. pickWorkerIndexFor cfg env busy hints s = (Some w, s')"
proof -
  let ?n = "sc_runners cfg"
  have "\<exists>i < ?n. (ls_worker s + i) mod ?n \<notin> set busy"
  proof (rule ccontr)
    assume "\<not> ?thesis"
    then have sub: "(\<lambda>i. (ls_worker s + i) mod ?n) ` {..<?n} \<subseteq> set busy" by auto
    have "inj_on (\<lambda>i. (ls_worker s + i) mod ?n) {..<?n}"
      using mod_shift_inj by (auto intro!: inj_onI)
    then have "?n \<le> card (set busy)" using card_mono [OF _ sub] by (simp add: card_image)
    then show False using assms(2) card_length [of busy] by linarith
  qed
  then have "fst (pick_loop env ?n busy hints [0..<?n] None s) \<noteq> None"
    by (intro pick_loop_alive [OF assms(1)]) auto
  then show ?thesis by (auto simp: pickWorkerIndexFor_def split: prod.split)
qed

lemma healthyD:
  assumes "healthy cfg env"
  shows "\<not> ev_cancelled env c" and "ev_alive env c w" and "ev_complete env c t r = None"
    and "\<exists>blob. ev_encode env bs = Inr blob \<and> blob \<noteq> []"
    and "stageByID (sc_plan cfg) (tk_StageID t) = Some st \<Longrightarrow> tk_Sample t \<Longrightarrow>
      \<exists>r. ev_exec env c w t = Inr r \<and> er_Kind r = StageSample \<and> er_PartitionID r = tk_PartitionID t"
    and "stageByID (sc_plan cfg) (tk_StageID t) = Some st \<Longrightarrow> \<not> tk_Sample t \<Longrightarrow>
      (st_RangeSort st \<Longrightarrow> tk_RangeBounds t \<noteq> []) \<Longrightarrow> \<exists>r. ev_exec env c w t = Inr r \<and> validateTaskResult t st r = None"
  using assms unfolding healthy_def by meson+

text \<open>A wave is empty only when no partition is left.\<close>

lemma build_wave_busy:
  assumes "healthy cfg env" and "0 < sc_runners cfg"
  shows "length busy = length wave \<Longrightarrow> p \<le> st_NumPartitions st \<Longrightarrow>
    build_wave cfg env st p busy wave s = Inr (wave', p', s') \<Longrightarrow> wave' \<noteq> [] \<or> p' = st_NumPartitions st"
proof (induction "st_NumPartitions st - p" arbitrary: p busy wave s rule: less_induct)
  case less
  show ?case
  proof (cases "p < st_NumPartitions st \<and> length busy < sc_runners cfg")
    case False
    then show ?thesis using less.prems assms(2) by (subst (asm) build_wave.simps) auto
  next
    case True
    obtain w s1 where pick: "pickWorkerIndexFor cfg env busy (stageCacheHints st p) s = (Some w, s1)"
      using pick_alive [OF healthyD(2) [OF assms(1)]] True by blast
    have IH: "wave' \<noteq> [] \<or> p' = st_NumPartitions st"
      if "build_wave cfg env st (Suc p) busy' wave'' s2 = Inr (wave', p', s')" "length busy' = length wave''"
      for busy' wave'' s2
      by (rule less.hyps [OF _ that(2) _ that(1)]) (use True in linarith)+
    show ?thesis
    proof (cases "ls_accepted s (st_ID st, p)")
      case None
      then obtain ms where "build_wave cfg env st (Suc p) (w # busy) (wave @ [(make_task cfg s1 st p ms, w)])
          (bump_attempt (st_ID st, p) s1) = Inr (wave', p', s')"
        using less.prems(3) True pick by (subst (asm) build_wave.simps) (auto split: option.splits)
      then show ?thesis by (rule IH) (simp add: less.prems(1))
    next
      case (Some r)
      then have "build_wave cfg env st (Suc p) busy wave s = Inr (wave', p', s')"
        using less.prems(3) True by (subst (asm) build_wave.simps) simp
      then show ?thesis by (rule IH) (rule less.prems(1))
    qed
  qed
qed

lemma build_samples_busy:
  assumes "healthy cfg env" and "0 < sc_runners cfg"
  shows "length busy = length wave \<Longrightarrow> p < st_NumPartitions st \<or> wave \<noteq> [] \<Longrightarrow>
    build_samples cfg env st p busy wave s = Inr (wave', p', s') \<Longrightarrow> wave' \<noteq> []"
proof (induction "st_NumPartitions st - p" arbitrary: p busy wave s rule: less_induct)
  case less
  show ?case
  proof (cases "p < st_NumPartitions st \<and> length busy < sc_runners cfg")
    case False
    then show ?thesis using less.prems assms(2) by (subst (asm) build_samples.simps) auto
  next
    case True
    obtain w s1 where pick: "pickWorkerIndexFor cfg env busy (stageCacheHints st p) s = (Some w, s1)"
      using pick_alive [OF healthyD(2) [OF assms(1)]] True by blast
    have IH: "wave' \<noteq> []"
      if "build_samples cfg env st (Suc p) busy' wave'' s2 = Inr (wave', p', s')" "length busy' = length wave''" "wave'' \<noteq> []"
      for busy' wave'' s2
      by (rule less.hyps [OF _ that(2) _ that(1)]) (use True that in auto)
    show ?thesis
      using less.prems(1,3) True pick
      by (subst (asm) build_samples.simps) (simp split: option.splits, drule IH, simp_all)
  qed
qed

lemma accept_healthy:
  assumes "healthy cfg env"
  shows "\<exists>s'. accept_result env t w r s = Inr s' \<and> ls_repairs s' = ls_repairs s"
  using healthyD(3) [OF assms] core_eqD(1) [of "rememberWorkerCache w (er_Cached r) (er_Dropped r)
    (s\<lparr>ls_accepted := (ls_accepted s)((tk_StageID t, tk_PartitionID t) \<mapsto> r)\<rparr>)"
    "s\<lparr>ls_accepted := (ls_accepted s)((tk_StageID t, tk_PartitionID t) \<mapsto> r)\<rparr>"]
  by (simp add: accept_result_def Let_def)

lemma process_wave_healthy:
  assumes "healthy cfg env" and "stageByID (sc_plan cfg) (st_ID st) = Some st"
  shows "answered env comps \<Longrightarrow> ls_repairs s = before \<Longrightarrow>
    (\<And>t. t \<in> set (map fst comps) \<Longrightarrow> tk_StageID t = st_ID st \<and> \<not> tk_Sample t \<and> (st_RangeSort st \<longrightarrow> tk_RangeBounds t \<noteq> [])) \<Longrightarrow>
    \<exists>s'. process_wave n cfg env st before comps s = Inr (False, s')"
proof (induction comps arbitrary: s)
  case (Cons comp comps)
  obtain t w a where comp: "comp = (t, w, a)" by (cases comp)
  obtain c where a: "a = ev_exec env c w t" using Cons.prems(1) comp by (auto simp: answered_def)
  have t: "tk_StageID t = st_ID st" "\<not> tk_Sample t" "st_RangeSort st \<Longrightarrow> tk_RangeBounds t \<noteq> []"
    using Cons.prems(3) [of t] comp by simp_all
  obtain r where r: "ev_exec env c w t = Inr r" "validateTaskResult t st r = None"
    using healthyD(6) [OF assms(1), of t st] assms(2) t by auto
  obtain s1 where s1: "accept_result env t w r (tick s) = Inr s1" "ls_repairs s1 = ls_repairs (tick s)"
    using accept_healthy [OF assms(1)] by blast
  have "\<exists>s'. process_wave n cfg env st before comps s1 = Inr (False, s')"
    by (rule Cons.IH) (use Cons.prems s1 in \<open>auto simp: answered_def tick_def\<close>)
  then show ?case using comp a r s1 by (simp add: check_answer_def)
qed simp

lemma run_waves_healthy:
  assumes plan: "plan_ok (sc_plan cfg)" and st: "stageByID (sc_plan cfg) (st_ID st) = Some st"
    and env: "healthy cfg env" "0 < sc_runners cfg" and fuel: "retry_fuel cfg \<le> n"
  shows "sched_ok cfg env s \<Longrightarrow> (\<And>j. j \<in> set (st_Parents st) \<Longrightarrow> complete (sc_plan cfg) s j) \<Longrightarrow>
    (st_RangeSort st \<Longrightarrow> ls_bounds s (st_ID st) \<noteq> []) \<Longrightarrow> p \<le> st_NumPartitions st \<Longrightarrow>
    \<exists>s'. run_waves n cfg env st p s = Inr s' \<and> ls_repairs s' = ls_repairs s"
proof (induction "st_NumPartitions st - p" arbitrary: p s rule: less_induct)
  case less
  show ?case
  proof (cases "p < st_NumPartitions st")
    case False
    then show ?thesis by (subst run_waves.simps) simp
  next
    case True
    have okt: "sched_ok cfg env (tick s)" using sched_ok_core [of "tick s" s] less.prems(1) by simp
    have cplt: "complete (sc_plan cfg) (tick s) j" if "j \<in> set (st_Parents st)" for j
      using complete_core [of "tick s" s] less.prems(2) [OF that] by simp
    have bw: "run_ok True (\<lambda>(wave', x). set [] \<subseteq> set wave' \<and> wave_post cfg env st p (tick s) (wave', x))
        (build_wave cfg env st p [] [] (tick s))"
      by (rule build_wave_spec [OF plan st okt cplt]) (use True in \<open>simp_all add: wave_ok_def\<close>)
    have no_fail: "build_wave cfg env st q busy wv s' \<noteq> Inl (Fail e)" for q busy wv s' e
    proof (induction "st_NumPartitions st - q" arbitrary: q busy wv s' rule: less_induct)
      case less
      then show ?case by (subst build_wave.simps) (auto split: prod.split option.split)
    qed
    have "\<And>e. build_wave cfg env st p [] [] (tick s) \<noteq> Inl e"
    proof
      fix e assume "build_wave cfg env st p [] [] (tick s) = Inl e"
      then show False using bw no_fail by (cases e) auto
    qed
    then obtain wave p' s1 where w: "build_wave cfg env st p [] [] (tick s) = Inr (wave, p', s1)"
      by (metis sum.exhaust prod_cases3)
    have s1: "adv cfg env {} (tick s) s1" "ls_repairs s1 = ls_repairs s" "wave_ok cfg s1 st (map fst wave)"
      "p' \<le> st_NumPartitions st"
      using bw w by (auto simp: wave_post_def tick_def)
    define s2 where "s2 = tick (s1\<lparr>ls_clock := ls_clock s1 + length wave\<rparr>)"
    define comps where "comps = exec_wave env (ls_clock s1) wave"
    have c2: "core s2 = core s1" by (simp add: s2_def)
    have a1: "adv cfg env {} s s1" using adv_core_left [OF s1(1)] by simp
    then have "sched_ok cfg env s1" by (simp add: adv_def)
    from adv_trans [OF a1 adv_core [OF this c2, of "{}"]] have a2: "adv cfg env {} s s2" by simp
    have rep2: "ls_repairs s2 = ls_repairs s" using core_eqD(1) [OF c2] s1(2) by simp
    have comps: "answered env comps" "map fst comps = map fst wave" "wave_ok cfg s2 st (map fst comps)"
      using exec_wave_spec [of env "ls_clock s1" wave] wave_ok_core [OF c2] s1(3) by (simp_all add: comps_def)
    have "ls_bounds s2 = ls_bounds s" using a2 rep2 by (simp add: adv_def)
    then have "\<exists>s3. process_wave n cfg env st (ls_repairs s) comps s2 = Inr (False, s3)"
      using comps(3) less.prems(3)
      by (intro process_wave_healthy [OF env(1) st comps(1) rep2]) (auto simp: wave_ok_def task_for_def)
    then obtain s3 where s3: "process_wave n cfg env st (ls_repairs s) comps s2 = Inr (False, s3)" by blast
    have post: "comps_post cfg env st (ls_repairs s) (map fst comps) s2 (False, s3)"
      using process_wave_spec [OF plan st _ rep2 comps(1,3), of n] s3 a2 by (simp add: adv_def)
    then have a3: "adv cfg env {k. fst k \<le> st_ID st} s s3" and rep3: "ls_repairs s3 = ls_repairs s"
      using adv_trans [OF a2] by (auto simp: comps_post_def)
    have go: "\<exists>s'. run_waves n cfg env st p' s3 = Inr s' \<and> ls_repairs s' = ls_repairs s3" if "wave \<noteq> []"
    proof (rule less.hyps)
      show "st_NumPartitions st - p' < st_NumPartitions st - p"
        using build_wave_progress [OF w] that True by linarith
      show "sched_ok cfg env s3" using a3 by (simp add: adv_def)
      show "complete (sc_plan cfg) s3 j" if "j \<in> set (st_Parents st)" for j
        by (rule adv_complete [OF a3 rep3 less.prems(2) [OF that]])
      show "ls_bounds s3 (st_ID st) \<noteq> []" if "st_RangeSort st"
        using a3 rep3 less.prems(3) [OF that] by (simp add: adv_def)
    qed (rule s1(4))
    have "wave \<noteq> [] \<or> p' = st_NumPartitions st" by (rule build_wave_busy [OF env _ _ w]) (use True in simp_all)
    then show ?thesis
      using True healthyD(1) [OF env(1)] w s3 go rep3 s1(2)
      by (subst run_waves.simps) (auto simp: Let_def comps_def s2_def)
  qed
qed

lemma process_samples_healthy:
  assumes env: "healthy cfg env" and st: "stageByID (sc_plan cfg) (st_ID st) = Some st"
  shows "answered env comps \<Longrightarrow> (\<And>t. t \<in> set (map fst comps) \<Longrightarrow> tk_StageID t = st_ID st \<and> tk_Sample t) \<Longrightarrow>
    \<exists>samples' seen' s'. process_samples cfg env st comps samples seen s = Inr (False, samples', seen', s')"
proof (induction comps arbitrary: samples seen s)
  case (Cons comp comps)
  obtain t w a where comp: "comp = (t, w, a)" by (cases comp)
  obtain c where a: "a = ev_exec env c w t" using Cons.prems(1) comp by (auto simp: answered_def)
  obtain r where r: "ev_exec env c w t = Inr r" "er_Kind r = StageSample" "er_PartitionID r = tk_PartitionID t"
    using healthyD(5) [OF env, of t st] st Cons.prems(2) [of t] comp by auto
  have "\<exists>samples' seen' s'. process_samples cfg env st comps samples1 seen1 s1 = Inr (False, samples', seen', s')"
    for samples1 seen1 s1
    by (rule Cons.IH) (use Cons.prems in \<open>auto simp: answered_def\<close>)
  then show ?case using comp a r by (simp add: check_sample_def split: prod.split)
qed simp

lemma build_samples_tasks:
  "build_samples cfg env st p busy wave s = Inr (wave', p', s') \<Longrightarrow>
     \<forall>t \<in> set (map fst wave). tk_StageID t = st_ID st \<and> tk_Sample t \<Longrightarrow>
     \<forall>t \<in> set (map fst wave'). tk_StageID t = st_ID st \<and> tk_Sample t"
proof (induction "st_NumPartitions st - p" arbitrary: p busy wave s rule: less_induct)
  case less
  show ?case
  proof (cases "p < st_NumPartitions st \<and> length busy < sc_runners cfg")
    case False
    then show ?thesis using less.prems by (subst (asm) build_samples.simps) auto
  next
    case True
    obtain w s1 where pick: "pickWorkerIndexFor cfg env busy (stageCacheHints st p) s = (w, s1)" by fastforce
    show ?thesis
    proof (cases w)
      case None
      then show ?thesis using less.prems True pick by (subst (asm) build_samples.simps) auto
    next
      case (Some i)
      then obtain t where t: "sampleTask cfg s1 st p 0 = Some t"
        "build_samples cfg env st (Suc p) (i # busy) (wave @ [(t, i)]) s1 = Inr (wave', p', s')"
        using less.prems(1) True pick by (subst (asm) build_samples.simps) (auto split: option.splits)
      show ?thesis
        by (rule less.hyps [OF _ t(2)]) (use True t(1) less.prems(2) in \<open>linarith, auto simp: sampleTask_def\<close>)
    qed
  qed
qed

lemma sample_waves_healthy:
  assumes plan: "plan_ok (sc_plan cfg)" and st: "stageByID (sc_plan cfg) (st_ID st) = Some st"
    and env: "healthy cfg env" "0 < sc_runners cfg"
    and ok: "sched_ok cfg env s" and up: "upstream_of (sc_plan cfg) s st = Some ms"
  shows "core s' = core s \<Longrightarrow> \<exists>samples' s''. sample_waves cfg env st p samples seen s' = Inr (False, samples', s'')"
proof (induction "st_NumPartitions st - p" arbitrary: p samples seen s' rule: less_induct)
  case less
  show ?case
  proof (cases "p < st_NumPartitions st")
    case False
    then show ?thesis by (subst sample_waves.simps) simp
  next
    case True
    have "core (tick s') = core s" using less.prems by simp
    note bs = build_samples_spec [OF up this, of True env p "[]" "[]"]
    have no_fail: "build_samples cfg env st q busy wv x \<noteq> Inl (Fail e)" for q busy wv x e
    proof (induction "st_NumPartitions st - q" arbitrary: q busy wv x rule: less_induct)
      case less
      then show ?case by (subst build_samples.simps) (auto split: prod.split option.split)
    qed
    have "\<And>e. build_samples cfg env st p [] [] (tick s') \<noteq> Inl e"
    proof
      fix e assume "build_samples cfg env st p [] [] (tick s') = Inl e"
      then show False using bs no_fail by (cases e) auto
    qed
    then obtain wave p' s1 where w: "build_samples cfg env st p [] [] (tick s') = Inr (wave, p', s1)"
      by (metis sum.exhaust prod_cases3)
    have c1: "core s1 = core s" using bs w by simp
    define s2 where "s2 = tick (s1\<lparr>ls_clock := ls_clock s1 + length wave\<rparr>)"
    define comps where "comps = exec_wave env (ls_clock s1) wave"
    have "\<exists>samples' seen' s3. process_samples cfg env st comps samples seen s2 = Inr (False, samples', seen', s3)"
      using exec_wave_spec [of env "ls_clock s1" wave] build_samples_tasks [OF w]
      by (intro process_samples_healthy [OF env(1) st]) (auto simp: comps_def)
    then obtain samples' seen' s3 where s3: "process_samples cfg env st comps samples seen s2 = Inr (False, samples', seen', s3)"
      by blast
    have "core s2 = core s" using c1 by (simp add: s2_def)
    then have c3: "core s3 = core s"
      using process_samples_spec [OF plan st ok up, of s2 True comps samples seen] s3 by (simp add: sample_post_def)
    have ne: "wave \<noteq> []" by (rule build_samples_busy [OF env _ _ w]) (use True in simp_all)
    then have "\<exists>samples'' s''. sample_waves cfg env st p' samples' seen' s3 = Inr (False, samples'', s'')"
      using build_samples_progress [OF w] True by (intro less.hyps [OF _ c3]) linarith
    then show ?thesis
      using True healthyD(1) [OF env(1)] w s3 ne
      by (subst sample_waves.simps) (auto simp: Let_def comps_def s2_def)
  qed
qed

lemma sampleStage_healthy:
  assumes plan: "plan_ok (sc_plan cfg)" and st: "stageByID (sc_plan cfg) (st_ID st) = Some st"
    and env: "healthy cfg env" "0 < sc_runners cfg"
    and ok: "sched_ok cfg env s" and up: "\<And>j. j \<in> set (st_Parents st) \<Longrightarrow> complete (sc_plan cfg) s j"
    and sort: "jp_sortLess (sc_plan cfg) (st_ID st) \<noteq> None"
  shows "\<exists>s' blob. sampleStage cfg env st s = Inr s' \<and> ls_repairs s' = ls_repairs s \<and> blob \<noteq> [] \<and>
    ls_bounds s' = (ls_bounds s)(st_ID st := blob) \<and> ls_sampled s' = (ls_sampled s)(st_ID st := True)"
proof -
  obtain ms where ms: "upstream_of (sc_plan cfg) s st = Some ms" using complete_upstream [OF plan ok st up] by blast
  obtain samples s1 where s1: "sample_waves cfg env st 0 [] 0 s = Inr (False, samples, s1)"
    using sample_waves_healthy [OF plan st env ok ms refl] by blast
  have "core s1 = core s"
    using sample_waves_spec [OF plan st ok ms refl, of True 0 "[]" 0] s1 by (simp add: sample_post_def)
  note same = core_eqD [OF this]
  obtain lt where lt: "jp_sortLess (sc_plan cfg) (st_ID st) = Some lt" using sort by blast
  obtain blob where "ev_encode env (selectRangeBounds samples (st_NumReducers st) lt) = Inr blob" "blob \<noteq> []"
    using healthyD(4) [OF env(1)] by blast
  then show ?thesis using s1 lt same by (auto simp: sampleStage_def)
qed

lemma stage_pass_healthy:
  assumes plan: "plan_ok (sc_plan cfg)" "sorts_known (sc_plan cfg)" and env: "healthy cfg env" "0 < sc_runners cfg"
    and fuel: "retry_fuel cfg \<le> n"
  shows "sched_ok cfg env s \<Longrightarrow> stages = drop k (jp_Stages (sc_plan cfg)) \<Longrightarrow>
    (\<And>j. j < k \<Longrightarrow> complete (sc_plan cfg) s j) \<Longrightarrow> (\<And>j. ls_sampled s j \<Longrightarrow> ls_bounds s j \<noteq> []) \<Longrightarrow>
    \<exists>s'. stage_pass n cfg env stages s = Inr (False, s')"
proof (induction stages arbitrary: k s)
  case (Cons st stages)
  let ?plan = "sc_plan cfg"
  have k: "k < length (jp_Stages ?plan)" using Cons.prems(2) by (metis drop_eq_Nil leI list.distinct(1))
  then have "drop k (jp_Stages ?plan) = jp_Stages ?plan ! k # drop (Suc k) (jp_Stages ?plan)" by (rule Cons_nth_drop_Suc [symmetric])
  then have stk: "st = jp_Stages ?plan ! k" and rest: "stages = drop (Suc k) (jp_Stages ?plan)" using Cons.prems(2) by auto
  then have byk: "stageByID ?plan k = Some st" using k by (simp add: stageByID_plan_ok [OF plan(1)])
  have ID: "st_ID st = k" by (rule stageByID_ID [OF byk])
  then have st: "stageByID ?plan (st_ID st) = Some st" using byk by simp
  have par: "complete ?plan s j" if "j \<in> set (st_Parents st)" for j
    by (rule Cons.prems(3) [OF plan_ok_parent(1) [OF plan(1) byk that]])
  obtain s1 where s1: "(if st_RangeSort st \<and> \<not> ls_sampled s (st_ID st) then sampleStage cfg env st s else Inr s) = Inr s1"
    "ls_repairs s1 = ls_repairs s" "sched_ok cfg env s1" "ls_accepted s1 = ls_accepted s"
    "\<And>j. ls_sampled s1 j \<Longrightarrow> ls_bounds s1 j \<noteq> []" "st_RangeSort st \<Longrightarrow> ls_sampled s1 (st_ID st)"
  proof (cases "st_RangeSort st \<and> \<not> ls_sampled s (st_ID st)")
    case True
    have less_known: "jp_sortLess ?plan (st_ID st) \<noteq> None" using plan(2) True nth_mem [OF k] stk by (simp add: sorts_known_def)
    obtain s1 blob where s1: "sampleStage cfg env st s = Inr s1" "ls_repairs s1 = ls_repairs s" "blob \<noteq> []"
      "ls_bounds s1 = (ls_bounds s)(st_ID st := blob)" "ls_sampled s1 = (ls_sampled s)(st_ID st := True)"
      using sampleStage_healthy [OF plan(1) st env Cons.prems(1) par less_known] by blast
    have "sched_ok cfg env s1 \<and> ls_accepted s1 = ls_accepted s"
      using sampleStage_spec [OF plan(1) st Cons.prems(1) par _ less_known, of True] True s1(1,2) by simp
    then show ?thesis using that [of s1] s1 True Cons.prems(4) by simp
  next
    case False
    then show ?thesis using that [of s] Cons.prems(1,4) by auto
  qed
  have same: "complete ?plan s1 j = complete ?plan s j" for j using s1(4) by (simp add: complete_def)
  then have par1: "complete ?plan s1 j" if "j \<in> set (st_Parents st)" for j using par [OF that] by simp
  obtain s2 where s2: "runStage n cfg env st s1 = Inr s2" "ls_repairs s2 = ls_repairs s1"
    using run_waves_healthy [OF plan(1) st env fuel s1(3) par1 s1(5) [OF s1(6)], of 0] unfolding runStage_def by blast
  have "stage_post cfg env st s1 s2"
    using runStage_spec [OF plan(1) st s1(3) par1, of n] s2(1) by simp
  then have a2: "adv cfg env {k. fst k \<le> st_ID st} s1 s2" "complete ?plan s2 k" using s2(2) ID by (simp_all add: stage_post_def)
  have "\<exists>s'. stage_pass n cfg env stages s2 = Inr (False, s')"
  proof (rule Cons.IH [OF _ rest])
    show "sched_ok cfg env s2" using a2 by (simp add: adv_def)
    show "complete ?plan s2 j" if "j < Suc k" for j
      using adv_complete [OF a2(1) s2(2)] same Cons.prems(3) a2(2) that by (cases "j = k") auto
    show "ls_bounds s2 j \<noteq> []" if "ls_sampled s2 j" for j using a2(1) s2(2) s1(5) that by (simp add: adv_def)
  qed
  then show ?case using s1(1,2) s2 by simp
qed simp

lemma healthy_loop:
  assumes "wf_lineage rdd" and "PlanRDD (Some rdd) spec = Inr plan" and "cfg = job_conf spec plan runners a r jobID"
    and "healthy cfg env" and "0 < runners" and "retry_fuel cfg \<le> n" and "0 < k"
  shows "\<exists>results s. length results = length (rdd_Partitions rdd) \<and>
    schedule_loop k n cfg env (last (jp_Stages plan)) initial_scheduler = Inr (results, s)"
proof -
  note plan = PlanRDD_sorts_known [OF assms(1,2)]
  have pl: "sc_plan cfg = plan" "0 < sc_runners cfg" using assms(3,5) by simp_all
  have "\<exists>s'. stage_pass n cfg env (jp_Stages plan) initial_scheduler = Inr (False, s')"
    by (rule stage_pass_healthy [of _ _ _ _ _ 0, OF _ _ assms(4) pl(2) assms(6) sched_ok_initial])
      (use plan pl in \<open>simp_all add: initial_scheduler_def\<close>)
  then obtain s' where s': "stage_pass n cfg env (jp_Stages plan) initial_scheduler = Inr (False, s')" by blast
  obtain k' where k: "k = Suc k'" using assms(7) gr0_conv_Suc by blast
  have "run_ok True (pass_post cfg env initial_scheduler) (stage_pass n cfg env (jp_Stages plan) initial_scheduler)"
    using stage_pass_spec [of cfg env initial_scheduler "jp_Stages plan" 0 n] plan pl assms(6)
      sched_ok_initial [of cfg env] by auto
  then have comp: "complete plan s' (st_ID (last (jp_Stages plan)))"
    using s' pl plan_ok_result(1) [OF plan(1)] plan_ok_result(2) [OF plan(1)]
    by (auto simp: pass_post_def stageByID_plan_ok [OF plan(1)])
  have parts: "stage_parts plan (st_ID (last (jp_Stages plan))) = st_NumPartitions (last (jp_Stages plan))"
    using plan_ok_result(1,2) [OF plan(1)] by (simp add: stage_parts_def)
  have "None \<notin> set (map (\<lambda>p. ls_accepted s' (st_ID (last (jp_Stages plan)), p)) [0..<st_NumPartitions (last (jp_Stages plan))])"
    using comp parts by (force simp: complete_def)
  then obtain results where res: "collect_results s' (last (jp_Stages plan)) = Some results"
    using those_None unfolding collect_results_def by blast
  then have "length results = st_NumPartitions (last (jp_Stages plan))"
    by (auto simp: collect_results_def those_Some dest: arg_cong [of _ _ length])
  moreover have "st_NumPartitions (last (jp_Stages plan)) = length (rdd_Partitions rdd)"
    using plan(3) by (simp add: stage_computes_def)
  moreover have "schedule_loop k n cfg env (last (jp_Stages plan)) initial_scheduler = Inr (results, s')"
    using s' res pl orderedStages_plan_ok [OF plan(1)] by (simp add: k)
  ultimately show ?thesis by auto
qed

section \<open>A cluster for the examples\<close>

text \<open>A worker that answers every task with an empty result of the right shape.\<close>

definition honest_answer :: "JobPlan \<Rightarrow> Task \<Rightarrow> task_error + nat ExecResult" where
  "honest_answer plan t =
     (case stageByID plan (tk_StageID t) of
        None \<Rightarrow> Inl (Failed ''unknown stage'')
      | Some st \<Rightarrow>
          if \<not> tk_Sample t \<and> st_RangeSort st \<and> tk_RangeBounds t = [] then Inl (Failed ''range sort task missing sampled boundaries'')
          else Inr \<lparr>er_PartitionID = tk_PartitionID t,
            er_Kind = (if tk_Sample t then StageSample else st_Kind st),
            er_Manifest = Some \<lparr>JobID = tk_JobID t, ShuffleID = st_ShuffleID st, MapID = tk_PartitionID t,
              Attempt = tk_Attempt t, Location = [], Buckets = []\<rparr>,
            er_Records = [tk_PartitionID t],
            er_Output = Some \<lparr>po_JobID = tk_JobID t, po_StageID = tk_StageID t, po_PartitionID = int (tk_PartitionID t),
              po_Attempt = int (tk_Attempt t), po_Key = [], po_Bytes = 0, po_SHA256 = []\<rparr>,
            er_Cached = [], er_Dropped = [], er_Samples = [], er_Accumulators = []\<rparr>)"

definition honest_cluster :: "JobPlan \<Rightarrow> nat environment" where
  "honest_cluster plan = \<lparr>ev_exec = \<lambda>c w t. honest_answer plan t, ev_alive = \<lambda>c w. True,
     ev_workerID = \<lambda>c w. None, ev_cancelled = \<lambda>c. False, ev_complete = \<lambda>c t r. None, ev_encode = \<lambda>bs. Inr [0]\<rparr>"

lemma honest_healthy: "healthy (job_conf spec plan runners a r jobID) (honest_cluster plan)"
  by (simp add: healthy_def honest_cluster_def honest_answer_def validateTaskResult_def split: option.split)

definition sample_spec :: JobSpec where
  "sample_spec = \<lparr>js_TaskName = ''t'', js_CacheIdentity = [], js_Action = [], js_Params = Map.empty,
     js_Accumulators = [], js_NumPartitions = 2\<rparr>"

lemma sample_plan: "\<exists>plan. PlanRDD (Some sample_lineage) sample_spec = Inr plan"
  using PlanRDD_spec [OF wf_sample_lineage] by blast

text \<open>
  C30: On a healthy cluster every job with a valid submission and no accumulators finishes: when the
  job is not cancelled and the workers live and answer every well-formed task, submission returns
  one result per partition of the root.
\<close>

theorem healthy_job_finishes:
  assumes "wf_lineage rdd" and "PlanRDD (Some rdd) spec = Inr plan" and "cfg = job_conf spec plan runners a r jobID"
    and "healthy cfg env" and "0 < runners" and "0 \<le> a" and "0 \<le> r"
    and "js_CacheIdentity spec = [] \<or> cacheIdentityPattern (js_CacheIdentity spec)" and "js_Accumulators spec = []"
    and "retry_fuel cfg \<le> n" and "0 < k"
  shows "\<exists>results. length results = length (rdd_Partitions rdd) \<and>
    scheduleResults k n (PlanRDD (Some rdd) spec) jobID env spec None runners a r
      = Inr (results, jp_ResultStageID plan, None)"
proof -
  obtain results s where "length results = length (rdd_Partitions rdd)"
    "schedule_loop k n cfg env (last (jp_Stages plan)) initial_scheduler = Inr (results, s)"
    using healthy_loop [OF assms(1-5,10,11)] by blast
  then show ?thesis
    using assms(5-9) unfolding assms(2) scheduleResults_plan_ok [OF PlanRDD_sorts_known(1) [OF assms(1,2)] assms(3)]
    by (auto simp: mergeAccumulators_def)
qed

theorem healthy_job_finishes_witness:
  "\<exists>plan n results. length results = length (rdd_Partitions sample_lineage) \<and>
     scheduleResults 1 n (PlanRDD (Some sample_lineage) sample_spec) ''j'' (honest_cluster plan) sample_spec None 2 3 2
       = Inr (results, jp_ResultStageID plan, None)"
proof -
  obtain plan where plan: "PlanRDD (Some sample_lineage) sample_spec = Inr plan" using sample_plan by blast
  show ?thesis
    using healthy_job_finishes [OF wf_sample_lineage plan refl honest_healthy, of 2 3 2 "''j''" _ 1]
    by (simp add: sample_spec_def) blast
qed

theorem job_terminates_witness:
  "\<exists>plan n. PlanRDD (Some sample_lineage) sample_spec = Inr plan \<and>
     scheduleResults 3 n (PlanRDD (Some sample_lineage) sample_spec) ''j''
       ((honest_cluster plan)\<lparr>ev_exec := \<lambda>c w t. Inl (Failed ''down'')\<rparr>) sample_spec None 2 3 2
       \<notin> {Inl Panic, Inl Out_of_fuel}"
proof -
  obtain plan where plan: "PlanRDD (Some sample_lineage) sample_spec = Inr plan" using sample_plan by blast
  show ?thesis
    using job_terminates [OF wf_sample_lineage plan order_refl, of 2 3]
    by (intro exI [of _ plan] exI conjI plan) (simp_all add: default_limit_def)
qed

theorem results_lineage_consistent_witness:
  "\<exists>plan results s n. PlanRDD (Some sample_lineage) sample_spec = Inr plan \<and>
     schedule_loop 1 n (job_conf sample_spec plan 2 3 2 ''j'') (honest_cluster plan) (last (jp_Stages plan)) initial_scheduler
       = Inr (results, s) \<and>
     (\<forall>p < length results. computed (job_conf sample_spec plan 2 3 2 ''j'') (honest_cluster plan) s
        (jp_ResultStageID plan) p (results ! p))"
proof -
  obtain plan where plan: "PlanRDD (Some sample_lineage) sample_spec = Inr plan" using sample_plan by blast
  obtain n results s where run: "schedule_loop 1 n (job_conf sample_spec plan 2 3 2 ''j'') (honest_cluster plan)
      (last (jp_Stages plan)) initial_scheduler = Inr (results, s)"
    using healthy_loop [OF wf_sample_lineage plan refl honest_healthy _ order_refl, of 2 1 3 2 "''j''"] by auto
  show ?thesis using results_lineage_consistent [OF wf_sample_lineage plan refl run] plan run by blast
qed

definition chain_plan :: JobPlan where
  "chain_plan = \<lparr>jp_Spec = sample_spec,
     jp_Stages = [
       \<lparr>st_ID = 0, st_Kind = StageShuffleMap, st_RDDID = 1, st_RDDName = [], st_NumPartitions = 1, st_ShuffleID = 7,
        st_NumReducers = 1, st_Parents = [], st_CacheHints = [], st_RangeSort = False\<rparr>,
       \<lparr>st_ID = 1, st_Kind = StageShuffleMap, st_RDDID = 2, st_RDDName = [], st_NumPartitions = 1, st_ShuffleID = 8,
        st_NumReducers = 2, st_Parents = [0], st_CacheHints = [], st_RangeSort = True\<rparr>,
       \<lparr>st_ID = 2, st_Kind = StageResult, st_RDDID = 3, st_RDDName = [], st_NumPartitions = 2, st_ShuffleID = 0,
        st_NumReducers = 0, st_Parents = [1], st_CacheHints = [], st_RangeSort = False\<rparr>],
     jp_ResultStageID = 2, jp_sortLess = [1 \<mapsto> \<lambda>x y. False]\<rparr>"

lemma chain_plan_ok: "plan_ok chain_plan"
  by (simp add: plan_ok_def chain_plan_def Let_def)

definition chain_conf :: sched_conf where
  "chain_conf = job_conf sample_spec chain_plan 1 3 2 ''j''"

text \<open>
  A cluster on which the first attempt of stage 1 fails and the second reports the loss of the map
  output of stage 0; every other task is answered.
\<close>

definition lossy :: "Task \<Rightarrow> task_error + nat ExecResult" where
  "lossy t =
     (if tk_StageID t = 1 \<and> \<not> tk_Sample t \<and> tk_Attempt t = 0 then Inl (Failed ''connection reset'')
      else if tk_StageID t = 1 \<and> \<not> tk_Sample t \<and> tk_Attempt t = 1
      then Inl (Fetch \<lparr>fe_JobID = ''j'', fe_ShuffleID = 7, fe_MapID = 0, fe_Attempt = 0\<rparr>)
      else honest_answer chain_plan t)"

definition lossy_cluster :: "nat environment" where
  "lossy_cluster = (honest_cluster chain_plan)\<lparr>ev_exec := \<lambda>c w t. lossy t\<rparr>"


text \<open>A state of the chain in which every partition is accepted.\<close>

definition chain_result :: "nat ExecResult" where
  "chain_result = \<lparr>er_PartitionID = 0, er_Kind = StageShuffleMap,
     er_Manifest = Some \<lparr>JobID = ''j'', ShuffleID = 7, MapID = 0, Attempt = 0, Location = [], Buckets = []\<rparr>,
     er_Records = [], er_Output = None, er_Cached = [], er_Dropped = [], er_Samples = [], er_Accumulators = []\<rparr>"

definition chain_state :: "nat lineageScheduler" where
  "chain_state = initial_scheduler\<lparr>ls_accepted := [(0, 0) \<mapsto> chain_result, (1, 0) \<mapsto> chain_result, (2, 1) \<mapsto> chain_result]\<rparr>"

theorem repair_forgets_exactly_witness:
  "invalidate chain_conf \<lparr>fe_JobID = ''j'', fe_ShuffleID = 7, fe_MapID = 0, fe_Attempt = 0\<rparr>
     (jp_Stages chain_plan ! 1) chain_state = Inr (forget_lost chain_plan 0 0 chain_state)"
proof (subst repair_forgets_exactly)
  show "plan_ok (sc_plan chain_conf)" by (simp add: chain_conf_def chain_plan_ok)
  show "stageByID (sc_plan chain_conf) (st_ID (jp_Stages chain_plan ! 1)) = Some (jp_Stages chain_plan ! 1)"
    by (simp add: chain_conf_def stageByID_def chain_plan_def)
qed (simp add: chain_conf_def chain_plan_def chain_state_def chain_result_def initial_scheduler_def
    stageByID_def default_limit_def)

section \<open>Accumulators\<close>

definition contributions :: "string \<Rightarrow> 'r ExecResult list \<Rightarrow> int64 list" where
  "contributions n results =
     map (av_Int64 \<circ> snd) (filter (\<lambda>nv. fst nv = n) (concat (map er_Accumulators results)))"

lemma fold_add_accumulator:
  "n \<in> dom vals \<Longrightarrow> fold add_accumulator nvs vals n =
     map_option (\<lambda>reg. reg\<lparr>av_Int64 := av_Int64 reg + sum_list (map (av_Int64 \<circ> snd) (filter (\<lambda>nv. fst nv = n) nvs))\<rparr>) (vals n)"
proof (induction nvs arbitrary: vals)
  case Nil
  then show ?case by (cases "vals n") simp_all
next
  case (Cons nv nvs)
  have "n \<in> dom (add_accumulator nv vals)" using Cons.prems by (simp add: add_accumulator_def Let_def)
  from Cons.IH [OF this] Cons.prems show ?case
    by (auto simp: add_accumulator_def Let_def algebra_simps split: option.split)
qed

lemma fold_add_other: "n \<notin> fst ` set nvs \<Longrightarrow> fold add_accumulator nvs vals n = vals n"
  by (induction nvs arbitrary: vals) (auto simp: add_accumulator_def Let_def)

lemma fold_results: "fold (\<lambda>r vals. fold add_accumulator (er_Accumulators r) vals) results vals
    = fold add_accumulator (concat (map er_Accumulators results)) vals"
  by (induction results arbitrary: vals) simp_all

lemma distinct_plan_keys:
  assumes "plan_ok plan"
  shows "distinct (plan_keys plan)"
proof -
  have "distinct (map st_ID stages) \<Longrightarrow>
      distinct (concat (map (\<lambda>st. map (\<lambda>p. (st_ID st, p)) [0..<st_NumPartitions st]) stages))" for stages
    by (induction stages) (auto simp: distinct_map inj_on_def)
  moreover have "distinct (map st_ID (jp_Stages plan))"
    using assms by (simp add: plan_ok_def Let_def)
  ultimately show ?thesis by (simp add: plan_keys_def)
qed

lemma accepted_results_set: "r \<in> set (accepted_results plan s) \<longleftrightarrow> (\<exists>k \<in> set (plan_keys plan). ls_accepted s k = Some r)"
proof -
  have "r \<in> set (concat (map (\<lambda>k. case ls_accepted s k of None \<Rightarrow> [] | Some r \<Rightarrow> [r]) ks)) \<longleftrightarrow>
      (\<exists>k \<in> set ks. ls_accepted s k = Some r)" for ks
    by (induction ks) (auto split: option.splits)
  then show ?thesis by (simp only: accepted_results_def)
qed

lemma accepted_results_sum:
  "sum_list (map f (accepted_results plan s)) =
     sum_list (map (\<lambda>k. case ls_accepted s k of None \<Rightarrow> 0 | Some r \<Rightarrow> f r) (plan_keys plan))"
proof -
  have "sum_list (map f (concat (map (\<lambda>k. case ls_accepted s k of None \<Rightarrow> [] | Some r \<Rightarrow> [r]) ks))) =
      sum_list (map (\<lambda>k. case ls_accepted s k of None \<Rightarrow> 0 | Some r \<Rightarrow> f r) ks)" for ks
    by (induction ks) (auto split: option.splits)
  then show ?thesis by (simp only: accepted_results_def)
qed



end
