(* ===== verification/RDDs.thy ===== *)
theory RDDs
  imports Lineage Complex_Main "HOL-Library.Signed_Division"
begin

text \<open>
  \<^verbatim>\<open>rdd.go\<close>, \<^verbatim>\<open>rdd_transformations.go\<close>, \<^verbatim>\<open>cartesian_rdd.go\<close>, \<^verbatim>\<open>coalesced_rdd.go\<close> and \<^verbatim>\<open>rdd_actions.go\<close>: the
  typed RDDs, the narrow transformations and the actions. A typed RDD is its node of the lineage
  graph, its partitions and the function that computes one of them; a transformation takes the
  identifier the context hands out. Computing is that of an RDD that is neither persisted nor
  checkpointed nor cancelled. The theory shows what every transformation makes of the contents of
  its input, that the declared dependencies cover what a partition reads, and what the actions return.
\<close>

section \<open>Typed RDDs\<close>

record 'a RDD_of =
  rd_node :: RDD
  rd_parts :: "Partition list"
  rd_compute :: "Partition \<Rightarrow> 'a Iterator"
  rd_partitioner :: "Partitioner option"

definition NewRDD ::
  "nat \<Rightarrow> Partition list \<Rightarrow> Dependency list \<Rightarrow> (Partition \<Rightarrow> 'a Iterator) \<Rightarrow> Partitioner option \<Rightarrow> 'a RDD_of" where
  "NewRDD i parts deps compute pr =
     \<lparr>rd_node = RDD i [] (map Index parts) StorageNone (map Some deps), rd_parts = parts,
      rd_compute = compute, rd_partitioner = pr\<rparr>"

definition newEmptyRDD :: "nat \<Rightarrow> 'a RDD_of" where
  "newEmptyRDD i = NewRDD i [] [] (\<lambda>_. EmptyIterator) None"

definition GetNumPartitions :: "'a RDD_of \<Rightarrow> nat" where
  "GetNumPartitions rdd = length (rd_parts rdd)"

text \<open>
  The parent function of a narrow dependency may panic on an index that is no partition of its
  RDD. The graph carries its result, no parent for a panic; the panic is the error.
\<close>

definition parents_fn :: "(int \<Rightarrow> int list res) \<Rightarrow> int \<Rightarrow> int list" where
  "parents_fn f pid = (case f pid of Inl _ \<Rightarrow> [] | Inr ps \<Rightarrow> ps)"

section \<open>Narrow transformations\<close>

definition Map_rdd :: "nat \<Rightarrow> 'a RDD_of \<Rightarrow> ('a \<Rightarrow> 'b) \<Rightarrow> 'b RDD_of" where
  "Map_rdd i rdd fn = NewRDD i (rd_parts rdd) [OneToOneDependency (rd_node rdd)]
     (\<lambda>p. MapIterator (rd_compute rdd p) fn) None"

definition FlatMap :: "nat \<Rightarrow> 'a RDD_of \<Rightarrow> ('a \<Rightarrow> 'b list) \<Rightarrow> 'b RDD_of" where
  "FlatMap i rdd fn = NewRDD i (rd_parts rdd) [OneToOneDependency (rd_node rdd)]
     (\<lambda>p. FlatMapIterator (rd_compute rdd p) fn) None"

definition Filter_rdd :: "nat \<Rightarrow> 'a RDD_of \<Rightarrow> ('a \<Rightarrow> bool) \<Rightarrow> 'a RDD_of" where
  "Filter_rdd i rdd fn = NewRDD i (rd_parts rdd) [OneToOneDependency (rd_node rdd)]
     (\<lambda>p. FilterIterator (rd_compute rdd p) fn) None"

definition MapPartitions ::
  "nat \<Rightarrow> 'a RDD_of \<Rightarrow> ('a Iterator \<Rightarrow> 'b Iterator) \<Rightarrow> bool \<Rightarrow> 'b RDD_of" where
  "MapPartitions i rdd fn pp = NewRDD i (rd_parts rdd) [OneToOneDependency (rd_node rdd)]
     (\<lambda>p. fn (rd_compute rdd p)) (if pp then rd_partitioner rdd else None)"

definition MapPartitionsWithIndex ::
  "nat \<Rightarrow> 'a RDD_of \<Rightarrow> (int \<Rightarrow> 'a Iterator \<Rightarrow> 'b Iterator) \<Rightarrow> bool \<Rightarrow> 'b RDD_of" where
  "MapPartitionsWithIndex i rdd fn pp = NewRDD i (rd_parts rdd) [OneToOneDependency (rd_node rdd)]
     (\<lambda>p. fn (Index p) (rd_compute rdd p)) (if pp then rd_partitioner rdd else None)"

definition MapValues :: "nat \<Rightarrow> ('k \<times> 'v) RDD_of \<Rightarrow> ('v \<Rightarrow> 'u) \<Rightarrow> ('k \<times> 'u) RDD_of" where
  "MapValues i rdd fn = Map_rdd i rdd (\<lambda>p. (fst p, fn (snd p)))"

definition FlatMapValues :: "nat \<Rightarrow> ('k \<times> 'v) RDD_of \<Rightarrow> ('v \<Rightarrow> 'u list) \<Rightarrow> ('k \<times> 'u) RDD_of" where
  "FlatMapValues i rdd fn = FlatMap i rdd (\<lambda>p. map (\<lambda>u. (fst p, u)) (fn (snd p)))"

definition Keys_rdd :: "nat \<Rightarrow> ('k \<times> 'v) RDD_of \<Rightarrow> 'k RDD_of" where
  "Keys_rdd i rdd = Map_rdd i rdd fst"

definition Values :: "nat \<Rightarrow> ('k \<times> 'v) RDD_of \<Rightarrow> 'v RDD_of" where
  "Values i rdd = Map_rdd i rdd snd"

definition KeyBy :: "nat \<Rightarrow> 'a RDD_of \<Rightarrow> ('a \<Rightarrow> 'k) \<Rightarrow> ('k \<times> 'a) RDD_of" where
  "KeyBy i rdd fn = Map_rdd i rdd (\<lambda>t. (fn t, t))"

text \<open>The callback of \<^verbatim>\<open>Glom\<close>; a partition that panics or hangs does so when it is collected.\<close>

definition glom :: "'a Iterator \<Rightarrow> 'a list Iterator" where
  "glom iter = (case CollectIterator iter of
     None \<Rightarrow> Hang | Some (Inl e) \<Rightarrow> Panic e | Some (Inr data) \<Rightarrow> SliceIterator [data])"

definition Glom :: "nat \<Rightarrow> 'a RDD_of \<Rightarrow> 'a list RDD_of" where
  "Glom i rdd = MapPartitions i rdd glom False"

section \<open>Union, coalesce, zip, Cartesian product\<close>

text \<open>The dependency of the parent whose partitions begin at \<open>start\<close>.\<close>

fun union_deps :: "int \<Rightarrow> 'a RDD_of list \<Rightarrow> Dependency list" where
  "union_deps start [] = []"
| "union_deps start (r # rdds) =
     NarrowDep (rd_node r) (\<lambda>pid. [pid - start]) # union_deps (start + int (length (rd_parts r))) rdds"

definition union_parts :: "'a RDD_of list \<Rightarrow> ('a RDD_of \<times> Partition) list" where
  "union_parts rdds = concat (map (\<lambda>r. map (\<lambda>p. (r, p)) (rd_parts r)) rdds)"

definition Union_rdd :: "nat \<Rightarrow> 'a RDD_of list \<Rightarrow> 'a RDD_of res" where
  "Union_rdd i rdds =
     (case rdds of
        [] \<Rightarrow> Inl (Err ''Union requires at least one RDD'')
      | [r] \<Rightarrow> Inr r
      | _ \<Rightarrow>
          (let allParts = union_parts rdds
           in Inr (NewRDD i (NewPartitions (length allParts)) (union_deps 0 rdds)
                (\<lambda>p. if Index p \<ge> int (length allParts) then EmptyIterator
                      else (let info = allParts ! nat (Index p) in rd_compute (fst info) (snd info))) None)))"

definition partitionMapping :: "nat \<Rightarrow> nat \<Rightarrow> nat list list" where
  "partitionMapping parentLen n = map (\<lambda>t. filter (\<lambda>i. i mod n = t) [0..<parentLen]) [0..<n]"

definition coalesce_parents :: "nat list list \<Rightarrow> int \<Rightarrow> int list res" where
  "coalesce_parents mapping pid =
     (if pid \<ge> int (length mapping) then Inr [pid]
      else if pid < 0 then Inl (Err ''index out of range'')
      else Inr (map int (mapping ! nat pid)))"

text \<open>
  \<^verbatim>\<open>newCoalescedRDD\<close>; a request for no partition divides by zero and a negative one cannot be
  allocated, unless the parent is empty.
\<close>

definition newCoalescedRDD :: "nat \<Rightarrow> 'a RDD_of \<Rightarrow> int \<Rightarrow> 'a RDD_of res" where
  "newCoalescedRDD i parent numPartitions =
     (let parts = rd_parts parent;
          n = (if numPartitions > int (length parts) then int (length parts) else numPartitions)
      in if n < 0 then Inl (Err ''makeslice: len out of range'')
         else if n = 0 \<and> parts \<noteq> [] then Inl (Err ''integer divide by zero'')
         else
           let mapping = partitionMapping (length parts) (nat n)
           in Inr (NewRDD i (NewPartitions (nat n))
                [NarrowDep (rd_node parent) (parents_fn (coalesce_parents mapping))]
                (\<lambda>p. ChainIterators (map (\<lambda>idx. rd_compute parent (parts ! idx)) (mapping ! nat (Index p)))) None))"

primcorec zip_iter :: "'a Iterator \<Rightarrow> 'b Iterator \<Rightarrow> ('a \<times> 'b) Iterator" where
  "zip_iter iter1 iter2 =
     (case iter1 of
        Panic e \<Rightarrow> Panic e
      | Hang \<Rightarrow> Hang
      | Stop \<Rightarrow> (case iter2 of Panic e \<Rightarrow> Panic e | Hang \<Rightarrow> Hang | _ \<Rightarrow> Stop)
      | Yield v1 it1 \<Rightarrow>
          (case iter2 of
             Panic e \<Rightarrow> Panic e
           | Hang \<Rightarrow> Hang
           | Stop \<Rightarrow> Stop
           | Yield v2 it2 \<Rightarrow> Yield (v1, v2) (zip_iter it1 it2)))"

text \<open>The partition of the first RDD is handed to both.\<close>

definition Zip_rdd :: "nat \<Rightarrow> 'a RDD_of \<Rightarrow> 'b RDD_of \<Rightarrow> ('a \<times> 'b) RDD_of res" where
  "Zip_rdd i rdd1 rdd2 =
     (if length (rd_parts rdd1) \<noteq> length (rd_parts rdd2)
      then Inl (Err ''Can only zip RDDs with same number of partitions'')
      else Inr (NewRDD i (rd_parts rdd1) [OneToOneDependency (rd_node rdd1), OneToOneDependency (rd_node rdd2)]
        (\<lambda>p. zip_iter (rd_compute rdd1 p) (rd_compute rdd2 p)) None))"

primcorec index_iter :: "int64 \<Rightarrow> 'a Iterator \<Rightarrow> ('a \<times> int64) Iterator" where
  "index_iter offset iter =
     (case iter of
        Yield v it \<Rightarrow> Yield (v, offset) (index_iter (offset + 1) it)
      | Stop \<Rightarrow> Stop
      | Panic e \<Rightarrow> Panic e
      | Hang \<Rightarrow> Hang)"

text \<open>The count of the partitions before the one with index \<open>i\<close>.\<close>

fun prefix_count :: "'a RDD_of \<Rightarrow> int \<Rightarrow> Partition list \<Rightarrow> int64 \<Rightarrow> int64 res option" where
  "prefix_count rdd i [] offset = Some (Inr offset)"
| "prefix_count rdd i (prior # parts) offset =
     (if Index prior = i then Some (Inr offset)
      else case CountIterator (rd_compute rdd prior) of
        None \<Rightarrow> None
      | Some (Inl e) \<Rightarrow> Some (Inl e)
      | Some (Inr c) \<Rightarrow> prefix_count rdd i parts (offset + c))"

definition index_parents :: "Partition list \<Rightarrow> int \<Rightarrow> int list res" where
  "index_parents parts pid =
     (if pid + 1 < 0 then Inl (Err ''makeslice: len out of range'')
      else if pid \<ge> int (length parts) then Inl (Err ''index out of range'')
      else Inr (map (\<lambda>j. Index (parts ! j)) [0..<nat (pid + 1)]))"

definition ZipWithIndex :: "nat \<Rightarrow> 'a RDD_of \<Rightarrow> ('a \<times> int64) RDD_of" where
  "ZipWithIndex i rdd = NewRDD i (rd_parts rdd)
     [NarrowDep (rd_node rdd) (parents_fn (index_parents (rd_parts rdd)))]
     (\<lambda>p. case prefix_count rdd (Index p) (rd_parts rdd) 0 of
        None \<Rightarrow> Hang
      | Some (Inl e) \<Rightarrow> Panic e
      | Some (Inr offset) \<Rightarrow> index_iter offset (rd_compute rdd p)) None"

definition same_position :: "Partition list \<Rightarrow> int \<Rightarrow> int list res" where
  "same_position parts pid =
     (if 0 \<le> pid \<and> pid < int (length parts) then Inr [Index (parts ! nat pid)]
      else Inl (Err ''index out of range''))"

definition ZipPartitions ::
  "nat \<Rightarrow> 'a RDD_of option list \<Rightarrow> ('a Iterator list \<Rightarrow> 'b Iterator) \<Rightarrow> 'b RDD_of res" where
  "ZipPartitions i rdds fn =
     (case rdds of
        [] \<Rightarrow> Inl (Err ''ZipPartitions requires at least one RDD'')
      | None # _ \<Rightarrow> Inl (Err ''ZipPartitions: RDD 0 is nil'')
      | Some first # _ \<Rightarrow>
          if None \<in> set rdds then Inl (Err ''ZipPartitions: RDD %d is nil'')
          else if \<exists>r \<in> set rdds. length (rd_parts (the r)) \<noteq> length (rd_parts first)
          then Inl (Err ''ZipPartitions: RDD %d has %d partitions, want %d'')
          else Inr (NewRDD i (NewPartitions (length (rd_parts first)))
            (map (\<lambda>r. NarrowDep (rd_node (the r)) (parents_fn (same_position (rd_parts (the r))))) rdds)
            (\<lambda>p. fn (map (\<lambda>r. rd_compute (the r) (rd_parts (the r) ! nat (Index p))) rdds)) None))"

definition cartesian_parts :: "nat \<Rightarrow> nat \<Rightarrow> Partition list" where
  "cartesian_parts n1 n2 =
     map (\<lambda>idx. cartesianPartition (int idx) (int (idx div n2)) (int (idx mod n2))) [0..<n1 * n2]"

definition cartesian_compute :: "'a Iterator \<Rightarrow> 'b Iterator \<Rightarrow> ('a \<times> 'b) Iterator" where
  "cartesian_compute it1 it2 =
     (case CollectIterator it1 of
        None \<Rightarrow> Hang
      | Some (Inl e) \<Rightarrow> Panic e
      | Some (Inr leftData) \<Rightarrow>
          (case CollectIterator it2 of
             None \<Rightarrow> Hang
           | Some (Inl e) \<Rightarrow> Panic e
           | Some (Inr rightData) \<Rightarrow>
               SliceIterator (concat (map (\<lambda>l. map (\<lambda>r. (l, r)) rightData) leftData))))"

definition newCartesianRDD :: "nat \<Rightarrow> 'a RDD_of \<Rightarrow> 'b RDD_of \<Rightarrow> ('a \<times> 'b) RDD_of" where
  "newCartesianRDD i rdd1 rdd2 =
     (let n1 = length (rd_parts rdd1); n2 = length (rd_parts rdd2)
      in if n1 * n2 = 0 then newEmptyRDD i
         else NewRDD i (cartesian_parts n1 n2)
           [NarrowDep (rd_node rdd1) (\<lambda>pid. [pid sdiv int n2]), NarrowDep (rd_node rdd2) (\<lambda>pid. [pid smod int n2])]
           (\<lambda>p. case p of
              cartesianPartition _ l r \<Rightarrow>
                if l \<ge> int n1 \<or> r \<ge> int n2 then EmptyIterator
                else cartesian_compute (rd_compute rdd1 (rd_parts rdd1 ! nat l)) (rd_compute rdd2 (rd_parts rdd2 ! nat r))
            | _ \<Rightarrow> EmptyIterator) None)"

section \<open>Sampling and splitting\<close>

text \<open>
  The generator of \<^verbatim>\<open>Sample\<close>: the quotient of a 48-bit number and a power of two is exact in
  floating point, so its value and its comparison with the fraction are those of the reals.
\<close>

definition rng_next :: "int64 \<Rightarrow> int64" where
  "rng_next state = state * 1103515245 + 12345"

definition rng_Float64 :: "int64 \<Rightarrow> real" where
  "rng_Float64 state = of_nat (unat (drop_bit 16 state)) / 2 ^ 47"

text \<open>\<^verbatim>\<open>FilterIterator\<close> with the predicate that draws a number for every record.\<close>

partial_function (option) sample_seek :: "real \<Rightarrow> int64 \<Rightarrow> 'a Iterator \<Rightarrow> (int64 \<times> 'a Iterator) option" where
  "sample_seek fraction state iter =
     (case iter of
        Yield v it \<Rightarrow>
          if rng_Float64 (rng_next state) < fraction then Some (rng_next state, Yield v it)
          else sample_seek fraction (rng_next state) it
      | Stop \<Rightarrow> Some (state, Stop)
      | Panic e \<Rightarrow> Some (state, Panic e)
      | Hang \<Rightarrow> None)"

primcorec sample_iter :: "real \<Rightarrow> int64 \<Rightarrow> 'a Iterator \<Rightarrow> 'a Iterator" where
  "sample_iter fraction state iter =
     (case sample_seek fraction state iter of
        None \<Rightarrow> Hang
      | Some (state', it) \<Rightarrow>
          (case it of
             Yield v it' \<Rightarrow> Yield v (sample_iter fraction state' it')
           | Stop \<Rightarrow> Stop
           | Panic e \<Rightarrow> Panic e
           | Hang \<Rightarrow> Hang))"

definition Sample_rdd :: "nat \<Rightarrow> 'a RDD_of \<Rightarrow> bool \<Rightarrow> real \<Rightarrow> int64 \<Rightarrow> 'a RDD_of" where
  "Sample_rdd i rdd withReplacement fraction seed =
     MapPartitionsWithIndex i rdd (\<lambda>idx iter. sample_iter fraction (seed + of_int idx) iter) False"

text \<open>
  \<^verbatim>\<open>RandomSplit\<close>: the bucket of a drawn value, over boundaries of any ordered type; \<open>draw idx\<close> is the
  sequence that the library's generator yields for the seed of partition \<open>idx\<close>.
\<close>

fun split_bucket :: "'f :: linorder list \<Rightarrow> 'f \<Rightarrow> nat \<Rightarrow> nat \<Rightarrow> nat" where
  "split_bucket boundaries x bucket 0 = bucket"
| "split_bucket boundaries x bucket (Suc fuel) =
     (if bucket < length boundaries - 1 \<and> x \<ge> boundaries ! bucket
      then split_bucket boundaries x (Suc bucket) fuel else bucket)"

definition bucket_of :: "'f :: linorder list \<Rightarrow> 'f \<Rightarrow> nat" where
  "bucket_of boundaries x = split_bucket boundaries x 0 (length boundaries)"

partial_function (option) split_seek ::
  "('f :: linorder) list \<Rightarrow> nat \<Rightarrow> (nat \<Rightarrow> 'f) \<Rightarrow> nat \<Rightarrow> 'a Iterator \<Rightarrow> (nat \<times> 'a Iterator) option" where
  "split_seek boundaries split draw n iter =
     (case iter of
        Yield v it \<Rightarrow>
          if bucket_of boundaries (draw n) = split then Some (Suc n, Yield v it)
          else split_seek boundaries split draw (Suc n) it
      | Stop \<Rightarrow> Some (n, Stop)
      | Panic e \<Rightarrow> Some (n, Panic e)
      | Hang \<Rightarrow> None)"

primcorec split_iter :: "('f :: linorder) list \<Rightarrow> nat \<Rightarrow> (nat \<Rightarrow> 'f) \<Rightarrow> nat \<Rightarrow> 'a Iterator \<Rightarrow> 'a Iterator" where
  "split_iter boundaries split draw n iter =
     (case split_seek boundaries split draw n iter of
        None \<Rightarrow> Hang
      | Some (n', it) \<Rightarrow>
          (case it of
             Yield v it' \<Rightarrow> Yield v (split_iter boundaries split draw n' it')
           | Stop \<Rightarrow> Stop
           | Panic e \<Rightarrow> Panic e
           | Hang \<Rightarrow> Hang))"

definition RandomSplit ::
  "(nat \<Rightarrow> nat) \<Rightarrow> 'a RDD_of \<Rightarrow> ('f :: linorder) list \<Rightarrow> (int \<Rightarrow> nat \<Rightarrow> 'f) \<Rightarrow> 'a RDD_of list" where
  "RandomSplit ids rdd boundaries draw =
     map (\<lambda>split. MapPartitionsWithIndex (ids split) rdd
       (\<lambda>idx iter. split_iter boundaries split (draw idx) 0 iter) False) [0..<length boundaries]"

section \<open>Actions\<close>

text \<open>
  The actions that run all partitions at once and wait for them: a panic of one ends the program,
  whatever the others do; otherwise a partition that never ends keeps the action waiting.
\<close>

fun first_panic :: "'b res option list \<Rightarrow> goerr option" where
  "first_panic [] = None"
| "first_panic (Some (Inl e) # rs) = Some e"
| "first_panic (_ # rs) = first_panic rs"

definition wait_all :: "'b res option list \<Rightarrow> 'b list res option" where
  "wait_all rs =
     (case first_panic rs of
        Some e \<Rightarrow> Some (Inl e)
      | None \<Rightarrow> map_option (\<lambda>rs. Inr (map projr rs)) (those rs))"

definition on_parts :: "('a Iterator \<Rightarrow> 'b res option) \<Rightarrow> 'a RDD_of \<Rightarrow> 'b list res option" where
  "on_parts f rdd = wait_all (map (\<lambda>p. f (rd_compute rdd p)) (rd_parts rdd))"

definition map_result :: "('b \<Rightarrow> 'c) \<Rightarrow> 'b res option \<Rightarrow> 'c res option" where
  "map_result f = map_option (map_sum id f)"

definition Collect_rdd :: "'a RDD_of \<Rightarrow> 'a list res option" where
  "Collect_rdd rdd = map_result concat (on_parts CollectIterator rdd)"

definition Count_rdd :: "'a RDD_of \<Rightarrow> int64 res option" where
  "Count_rdd rdd = map_result sum_list (on_parts CountIterator rdd)"

fun merge_valid :: "('a \<Rightarrow> 'a \<Rightarrow> 'a) \<Rightarrow> 'a option \<Rightarrow> 'a option list \<Rightarrow> 'a option" where
  "merge_valid fn acc [] = acc"
| "merge_valid fn acc (None # rs) = merge_valid fn acc rs"
| "merge_valid fn None (Some v # rs) = merge_valid fn (Some v) rs"
| "merge_valid fn (Some a) (Some v # rs) = merge_valid fn (Some (fn a v)) rs"

definition Reduce_rdd :: "'a RDD_of \<Rightarrow> ('a \<Rightarrow> 'a \<Rightarrow> 'a) \<Rightarrow> 'a option res option" where
  "Reduce_rdd rdd fn = map_result (merge_valid fn None) (on_parts (\<lambda>it. ReduceIterator it fn) rdd)"

definition Fold_rdd :: "'a RDD_of \<Rightarrow> 'a \<Rightarrow> ('a \<Rightarrow> 'a \<Rightarrow> 'a) \<Rightarrow> 'a res option" where
  "Fold_rdd rdd zero fn = map_result (foldl fn zero) (on_parts (fold_loop fn zero) rdd)"

fun take_parts :: "'a RDD_of \<Rightarrow> int \<Rightarrow> Partition list \<Rightarrow> 'a list \<Rightarrow> 'a list res option" where
  "take_parts rdd n [] result = Some (Inr result)"
| "take_parts rdd n (p # ps) result =
     (if int (length result) \<ge> n then Some (Inr result)
      else case TakeIterator (rd_compute rdd p) (n - int (length result)) of
        None \<Rightarrow> None
      | Some (Inl e) \<Rightarrow> Some (Inl e)
      | Some (Inr data) \<Rightarrow>
          if int (length (result @ data)) \<ge> n then Some (Inr (take (nat n) (result @ data)))
          else take_parts rdd n ps (result @ data))"

definition Take_rdd :: "'a RDD_of \<Rightarrow> int \<Rightarrow> 'a list res option" where
  "Take_rdd rdd n =
     (if n < 0 then Some (Inl (Err ''makeslice: cap out of range'')) else take_parts rdd n (rd_parts rdd) [])"

definition First_rdd :: "'a RDD_of \<Rightarrow> 'a option res option" where
  "First_rdd rdd = map_result (\<lambda>xs. case xs of [] \<Rightarrow> None | x # _ \<Rightarrow> Some x) (Take_rdd rdd 1)"

definition IsEmpty_rdd :: "'a RDD_of \<Rightarrow> bool res option" where
  "IsEmpty_rdd rdd = map_result (\<lambda>x. x = None) (First_rdd rdd)"

definition Min_rdd :: "'a RDD_of \<Rightarrow> ('a \<Rightarrow> 'a \<Rightarrow> bool) \<Rightarrow> 'a option res option" where
  "Min_rdd rdd lt = Reduce_rdd rdd (\<lambda>a b. if lt a b then a else b)"

definition Max_rdd :: "'a RDD_of \<Rightarrow> ('a \<Rightarrow> 'a \<Rightarrow> bool) \<Rightarrow> 'a option res option" where
  "Max_rdd rdd lt = Reduce_rdd rdd (\<lambda>a b. if lt a b then b else a)"

fun tally :: "'a list \<Rightarrow> ('a \<rightharpoonup> int64) \<Rightarrow> ('a \<rightharpoonup> int64)" where
  "tally [] m = m"
| "tally (v # vs) m = tally vs (m(v \<mapsto> (case m v of None \<Rightarrow> 0 | Some c \<Rightarrow> c) + 1))"

definition CountByValue :: "'a RDD_of \<Rightarrow> ('a \<rightharpoonup> int64) res option" where
  "CountByValue rdd = map_result (\<lambda>data. tally data Map.empty) (Collect_rdd rdd)"

definition CountByKey :: "('k \<times> 'v) RDD_of \<Rightarrow> ('k \<rightharpoonup> int64) res option" where
  "CountByKey rdd = map_result (\<lambda>data. tally (map fst data) Map.empty) (Collect_rdd rdd)"

text \<open>\<^verbatim>\<open>Subtract\<close> collects the second RDD when it is called.\<close>

definition Subtract :: "nat \<Rightarrow> 'a RDD_of \<Rightarrow> 'a RDD_of \<Rightarrow> 'a RDD_of res option" where
  "Subtract i rdd1 rdd2 =
     map_result (\<lambda>other. Filter_rdd i rdd1 (\<lambda>t. t \<notin> set other)) (Collect_rdd rdd2)"

text \<open>The loop of \<^verbatim>\<open>Lookup\<close> over the partitions it reads.\<close>

fun lookup_parts :: "('k \<times> 'v) RDD_of \<Rightarrow> 'k \<Rightarrow> Partition list \<Rightarrow> 'v list \<Rightarrow> 'v list res option" where
  "lookup_parts rdd key [] values = Some (Inr values)"
| "lookup_parts rdd key (p # ps) values =
     (case fold_loop (\<lambda>vs pair. if fst pair = key then vs @ [snd pair] else vs) values (rd_compute rdd p) of
        None \<Rightarrow> None
      | Some (Inl e) \<Rightarrow> Some (Inl e)
      | Some (Inr vs) \<Rightarrow> lookup_parts rdd key ps vs)"

definition Lookup_rdd :: "(gokey \<times> 'v) RDD_of \<Rightarrow> gokey \<Rightarrow> 'v list res option" where
  "Lookup_rdd rdd key =
     (let parts = rd_parts rdd in
      if parts = [] then Some (Inr [])
      else case rd_partitioner rdd of
        None \<Rightarrow> lookup_parts rdd key parts []
      | Some p \<Rightarrow>
          (case GetPartition p key of
             Inl e \<Rightarrow> Some (Inl e)
           | Inr idx \<Rightarrow>
               if idx < 0 \<or> idx \<ge> int (length parts) then Some (Inl (Err ''Lookup: partition %d outside %d partitions''))
               else lookup_parts rdd key [parts ! nat idx] []))"

section \<open>What the transformations make of the contents\<close>

text \<open>The partitions of \<open>rdd\<close> emit the lists \<open>xss\<close>, one each, and end without a panic.\<close>

definition contents :: "'a RDD_of \<Rightarrow> 'a list list \<Rightarrow> bool" where
  "contents rdd xss \<longleftrightarrow> list_all2 (\<lambda>p xs. emits (rd_compute rdd p) xs None) (rd_parts rdd) xss"

lemma NewRDD_simps [simp]:
  "rd_parts (NewRDD i parts deps compute pr) = parts"
  "rd_compute (NewRDD i parts deps compute pr) = compute"
  "rd_partitioner (NewRDD i parts deps compute pr) = pr"
  "live_deps (rd_node (NewRDD i parts deps compute pr)) = deps"
proof -
  have "concat (map (\<lambda>d. case d of None \<Rightarrow> [] | Some d \<Rightarrow> [d]) (map Some deps)) = deps"
    by (induction deps) auto
  then show "live_deps (rd_node (NewRDD i parts deps compute pr)) = deps"
    by (simp add: NewRDD_def live_deps_def)
qed (simp_all add: NewRDD_def)

lemma contents_length: "contents rdd xss \<Longrightarrow> length xss = length (rd_parts rdd)"
  by (simp add: contents_def list_all2_lengthD)

lemma contents_nth: "contents rdd xss \<Longrightarrow> j < length xss \<Longrightarrow> emits (rd_compute rdd (rd_parts rdd ! j)) (xss ! j) None"
  by (simp add: contents_def list_all2_conv_all_nth)

text \<open>
  The contract of an operation that works on each partition by itself: it keeps the partitions
  and turns the list of each into its image.
\<close>

locale partitionwise =
  fixes op :: "'a RDD_of \<Rightarrow> 'b RDD_of" and image :: "'a list \<Rightarrow> 'b list"
  assumes op_parts: "rd_parts (op rdd) = rd_parts rdd"
    and op_deps: "live_deps (rd_node (op rdd)) = [OneToOneDependency (rd_node rdd)]"
    and op_emits: "emits (rd_compute rdd p) xs None \<Longrightarrow> emits (rd_compute (op rdd) p) (image xs) None"
begin

lemma op_contents: "contents rdd xss \<Longrightarrow> contents (op rdd) (map image xss)"
  by (auto simp: contents_def op_parts list_all2_conv_all_nth op_emits)

lemma op_GetParents: "d \<in> set (live_deps (rd_node (op rdd))) \<Longrightarrow> GetParents d pid = [pid]"
  by (simp add: op_deps)

end

interpretation map_op: partitionwise "\<lambda>rdd. Map_rdd i rdd f" "map f"
  by unfold_locales (simp_all add: Map_rdd_def emits_MapIterator)

interpretation flatmap_op: partitionwise "\<lambda>rdd. FlatMap i rdd f" "\<lambda>xs. concat (map f xs)"
  by unfold_locales (simp_all add: FlatMap_def emits_FlatMapIterator)

interpretation filter_op: partitionwise "\<lambda>rdd. Filter_rdd i rdd P" "filter P"
  by unfold_locales (simp_all add: Filter_rdd_def emits_FilterIterator)

interpretation glom_op: partitionwise "\<lambda>rdd. Glom i rdd" "\<lambda>xs. [xs]"
proof unfold_locales
  show "emits (rd_compute rdd p) xs None \<Longrightarrow> emits (rd_compute (Glom i rdd) p) [xs] None" for rdd :: "'a RDD_of" and p xs
    using emits_SliceIterator [of "[xs]"] by (simp add: Glom_def MapPartitions_def glom_def CollectIterator_emits)
qed (simp_all add: Glom_def MapPartitions_def)

lemma contents_MapPartitions:
  assumes "contents rdd xss" and "\<And>it xs. emits it xs None \<Longrightarrow> emits (fn it) (img xs) None"
  shows "contents (MapPartitions i rdd fn pp) (map img xss)"
  using assms by (auto simp: contents_def MapPartitions_def list_all2_conv_all_nth)

subsection \<open>Union and coalesce\<close>

lemma emits_parts_union:
  assumes "list_all2 contents rdds xsss"
  shows "list_all2 (\<lambda>info xs. emits (rd_compute (fst info) (snd info)) xs None) (union_parts rdds) (concat xsss)"
  using assms
proof (induction rule: list_all2_induct)
  case (Cons r rdds xss xsss)
  have "list_all2 (\<lambda>info xs. emits (rd_compute (fst info) (snd info)) xs None) (map (\<lambda>p. (r, p)) (rd_parts r)) xss"
    using Cons(1) by (simp add: contents_def list_all2_map1)
  then show ?case using Cons(3) by (simp add: union_parts_def list_all2_appendI)
qed (simp add: union_parts_def)

lemma nth_NewPartitions: "j < n \<Longrightarrow> NewPartitions n ! j = basePartition (int j)"
  by (simp add: NewPartitions_def)

lemma length_NewPartitions [simp]: "length (NewPartitions n) = n"
  by (simp add: NewPartitions_def)

lemma contents_Union:
  assumes "list_all2 contents rdds xsss" and "rdds \<noteq> []"
  shows "\<exists>u. Union_rdd i rdds = Inr u \<and> contents u (concat xsss)"
proof -
  consider r where "rdds = [r]" | r r' rs where "rdds = r # r' # rs"
    using assms(2) by (metis list.exhaust)
  then show ?thesis
  proof cases
    case 1
    then show ?thesis using assms(1) by (auto simp: Union_rdd_def list_all2_Cons1)
  next
    case 2
    let ?n = "length (union_parts rdds)"
    have "list_all2 (\<lambda>p xs. emits (if Index p \<ge> int ?n then EmptyIterator
        else (let info = union_parts rdds ! nat (Index p) in rd_compute (fst info) (snd info))) xs None)
        (NewPartitions ?n) (concat xsss)"
      using emits_parts_union [OF assms(1)] by (simp add: list_all2_conv_all_nth nth_NewPartitions Let_def)
    then show ?thesis unfolding 2 by (simp add: Union_rdd_def contents_def Let_def)
  qed
qed

lemma contents_coalesced:
  assumes "contents rdd xss" and "0 < n" and "n \<le> length xss"
  shows "\<exists>c. newCoalescedRDD i rdd (int n) = Inr c \<and> length (rd_parts c) = n \<and>
    contents c (map (\<lambda>js. concat (map ((!) xss) js)) (partitionMapping (length xss) n))"
proof -
  have len: "length (rd_parts rdd) = length xss" using contents_length [OF assms(1)] by simp
  have chain: "emits (ChainIterators (map (\<lambda>idx. rd_compute rdd (rd_parts rdd ! idx)) js)) (concat (map ((!) xss) js)) None"
    if "\<forall>j \<in> set js. j < length xss" for js
    using that contents_nth [OF assms(1)] by (intro emits_ChainIterators) (simp add: list_all2_conv_all_nth)
  have "\<forall>j \<in> set (partitionMapping (length xss) n ! k). j < length xss" if "k < n" for k
    using that by (simp add: partitionMapping_def)
  then show ?thesis
    using assms(2,3) len chain
    by (simp add: newCoalescedRDD_def Let_def contents_def list_all2_conv_all_nth nth_NewPartitions)
      (simp add: partitionMapping_def)
qed

lemma mset_concat_by_class:
  assumes "0 < n"
  shows "mset (concat (map (\<lambda>t. filter (\<lambda>i. i mod n = t) xs) [0..<n])) = mset (xs :: nat list)"
proof (induction xs)
  case (Cons x xs)
  have "mset (concat (map (\<lambda>t. filter (\<lambda>i. i mod n = t) (x # xs)) ts)) =
      mset (concat (map (\<lambda>t. filter (\<lambda>i. i mod n = t) xs) ts)) + (if x mod n \<in> set ts then {#x#} else {#})"
    if "distinct ts" for ts
    using that by (induction ts) auto
  from this [of "[0..<n]"] show ?case using Cons.IH assms by simp
qed simp

lemma coalesced_records:
  assumes "0 < n"
  shows "mset (concat (map (\<lambda>js. concat (map ((!) xss) js)) (partitionMapping (length xss) n))) = mset (concat xss)"
proof -
  let ?m = "partitionMapping (length xss) n"
  have flat: "concat (map (\<lambda>js. concat (map f js)) jss) = concat (map f (concat jss))" for f and jss :: "nat list list"
    by (induction jss) auto
  have sum: "mset (concat (map f js)) = (\<Sum>j \<in># mset js. mset (f j))" for f and js :: "nat list"
    by (induction js) auto
  have "mset (concat ?m) = mset [0..<length xss]"
    using mset_concat_by_class [OF assms] by (simp add: partitionMapping_def)
  then have "mset (concat (map ((!) xss) (concat ?m))) = mset (concat (map ((!) xss) [0..<length xss]))"
    unfolding sum by simp
  then show ?thesis unfolding flat by (simp add: map_nth)
qed

subsection \<open>Zip, numbering, product\<close>

lemma emits_zip_iter:
  "emits it1 xs None \<Longrightarrow> emits it2 ys None \<Longrightarrow> emits (zip_iter it1 it2) (zip xs ys) None"
proof (induction it1 xs "None :: goerr option" arbitrary: it2 ys rule: emits.induct)
  case emits_Stop
  then show ?case by (cases it2) (subst zip_iter.code; simp)+
next
  case (emits_Yield it xs x)
  then show ?case by (cases it2) (subst zip_iter.code; auto)+
qed

lemma emits_index_iter:
  "emits it xs r \<Longrightarrow> emits (index_iter c it) (zip xs (map (\<lambda>k. c + of_nat k) [0..<length xs])) r"
proof (induction arbitrary: c rule: emits.induct)
  case (emits_Yield it xs r x)
  have "map (\<lambda>k. c + of_nat k) [0..<Suc (length xs)] = c # map (\<lambda>k. (c + 1) + of_nat k) [0..<length xs]"
    by (simp add: upt_conv_Cons map_Suc_upt [symmetric] comp_def algebra_simps del: upt_Suc)
  then show ?case using emits_Yield.IH [of "c + 1"] by (subst index_iter.code) (simp del: upt_Suc)
qed (subst index_iter.code, simp)+

lemma prefix_count_contents:
  assumes "list_all2 (\<lambda>p xs. emits (rd_compute rdd p) xs None) parts xss" and "distinct (map Index parts)" and "j < length parts"
  shows "prefix_count rdd (Index (parts ! j)) parts c = Some (Inr (c + of_nat (length (concat (take j xss)))))"
  using assms
proof (induction arbitrary: j c rule: list_all2_induct)
  case (Cons p parts xs xss)
  show ?case
  proof (cases j)
    case (Suc j')
    have "Index p \<noteq> Index (parts ! j')" using Cons.prems Suc nth_mem [of j' parts] by fastforce
    then show ?thesis
      using Cons.IH [of j' "c + of_nat (length xs)"] Cons.prems Suc CountIterator_emits [OF Cons(1)]
      by (simp add: algebra_simps)
  qed simp
qed simp

lemma contents_ZipWithIndex:
  assumes "contents rdd xss" and "distinct (map Index (rd_parts rdd))"
  shows "contents (ZipWithIndex i rdd)
    (map (\<lambda>j. zip (xss ! j) (map (\<lambda>k. of_nat (length (concat (take j xss)) + k)) [0..<length (xss ! j)])) [0..<length xss])"
proof -
  have "prefix_count rdd (Index (rd_parts rdd ! j)) (rd_parts rdd) 0 = Some (Inr (of_nat (length (concat (take j xss)))))"
    if "j < length xss" for j
    using prefix_count_contents [OF assms(1) [unfolded contents_def] assms(2), of j 0] that contents_length [OF assms(1)] by simp
  moreover have "emits (index_iter (of_nat c) (rd_compute rdd (rd_parts rdd ! j)))
      (zip (xss ! j) (map (\<lambda>k. of_nat (c + k)) [0..<length (xss ! j)])) None" if "j < length xss" for j c
    using emits_index_iter [OF contents_nth [OF assms(1) that], of "of_nat c"] by simp
  ultimately show ?thesis
    using contents_length [OF assms(1)] by (simp add: contents_def ZipWithIndex_def list_all2_conv_all_nth del: of_nat_add)
qed

lemma numbered_concat:
  "concat (map (\<lambda>j. zip (xss ! j) (map (\<lambda>k. f (c + length (concat (take j xss)) + k)) [0..<length (xss ! j)])) [0..<length xss])
     = zip (concat xss) (map f [c..<c + length (concat xss)])"
proof (induction xss arbitrary: c)
  case (Cons xs xss)
  have split: "[c..<c + (length xs + n)] = [c..<c + length xs] @ [c + length xs..<c + (length xs + n)]" for n
    by (metis add.assoc upt_add_eq_append le_add1)
  have first: "map (\<lambda>k. f (c + k)) [0..<length xs] = map f [c..<c + length xs]"
    by (rule nth_equalityI) simp_all
  have "concat (map (\<lambda>j. zip ((xs # xss) ! j) (map (\<lambda>k. f (c + length (concat (take j (xs # xss))) + k))
        [0..<length ((xs # xss) ! j)])) [0..<length (xs # xss)])
      = zip xs (map f [c..<c + length xs]) @ zip (concat xss) (map f [c + length xs..<c + (length xs + length (concat xss))])"
    using Cons.IH [of "c + length xs"]
    by (simp add: upt_conv_Cons map_Suc_upt [symmetric] comp_def first add.assoc del: upt_Suc)
  also have "\<dots> = zip (xs @ concat xss) (map f [c..<c + (length xs + length (concat xss))])"
    by (simp add: split zip_append)
  finally show ?case by simp
qed simp

lemma contents_cartesian:
  assumes "contents rdd1 xss" and "contents rdd2 yss" and "xss \<noteq> []" and "yss \<noteq> []"
  shows "contents (newCartesianRDD i rdd1 rdd2)
    (map (\<lambda>k. List.product (xss ! (k div length yss)) (yss ! (k mod length yss))) [0..<length xss * length yss])"
proof -
  let ?n1 = "length xss" and ?n2 = "length yss"
  have len: "length (rd_parts rdd1) = ?n1" "length (rd_parts rdd2) = ?n2"
    using contents_length assms(1,2) by metis+
  have pos: "0 < ?n2" using assms(4) by simp
  have cell: "emits (cartesian_compute it1 it2) (List.product xs ys) None" if "emits it1 xs None" "emits it2 ys None" for it1 it2 xs ys
    using emits_SliceIterator [of "concat (map (\<lambda>l. map (\<lambda>r. (l, r)) ys) xs)"] that
    by (simp add: cartesian_compute_def CollectIterator_emits product_concat_map)
  have idx: "k div ?n2 < ?n1 \<and> k mod ?n2 < ?n2" if "k < ?n1 * ?n2" for k
    using that pos by (simp add: less_mult_imp_div_less)
  have "emits (cartesian_compute (rd_compute rdd1 (rd_parts rdd1 ! (k div ?n2))) (rd_compute rdd2 (rd_parts rdd2 ! (k mod ?n2))))
      (List.product (xss ! (k div ?n2)) (yss ! (k mod ?n2))) None" if "k < ?n1 * ?n2" for k
    by (rule cell) (use idx [OF that] contents_nth [OF assms(1)] contents_nth [OF assms(2)] in auto)
  then show ?thesis
    using assms(3,4) idx
    by (simp add: newCartesianRDD_def Let_def len contents_def list_all2_conv_all_nth cartesian_parts_def
        zdiv_int [symmetric] zmod_int [symmetric]) (meson idx not_le)
qed

subsection \<open>Sampling and splitting\<close>

fun sample_list :: "real \<Rightarrow> int64 \<Rightarrow> 'a list \<Rightarrow> 'a list" where
  "sample_list fraction state [] = []"
| "sample_list fraction state (x # xs) =
     (if rng_Float64 (rng_next state) < fraction then x # sample_list fraction (rng_next state) xs
      else sample_list fraction (rng_next state) xs)"

lemma emits_sample_iter: "emits it xs r \<Longrightarrow> emits (sample_iter fraction state it) (sample_list fraction state xs) r"
proof (induction arbitrary: state rule: emits.induct)
  case (emits_Yield it xs r x)
  show ?case
  proof (cases "rng_Float64 (rng_next state) < fraction")
    case True
    then show ?thesis using emits_Yield.IH by (subst sample_iter.code) (simp add: sample_seek.simps [of _ _ "Yield x it"])
  next
    case False
    then have "sample_iter fraction state (Yield x it) = sample_iter fraction (rng_next state) it"
      by (subst (1 2) sample_iter.code) (simp add: sample_seek.simps [of _ _ "Yield x it"])
    then show ?thesis using emits_Yield.IH False by simp
  qed
qed (subst sample_iter.code, simp add: sample_seek.simps)+

text \<open>The positions of a partition's records that the draws send to bucket \<open>split\<close>.\<close>

definition split_list :: "('f :: linorder) list \<Rightarrow> nat \<Rightarrow> (nat \<Rightarrow> 'f) \<Rightarrow> nat \<Rightarrow> 'a list \<Rightarrow> 'a list" where
  "split_list boundaries split draw n xs =
     map fst (filter (\<lambda>(x, k). bucket_of boundaries (draw k) = split) (zip xs [n..<n + length xs]))"

lemma split_list_simps [simp]:
  "split_list bs split draw n [] = []"
  "split_list bs split draw n (x # xs) =
     (if bucket_of bs (draw n) = split then x # split_list bs split draw (Suc n) xs else split_list bs split draw (Suc n) xs)"
  by (simp_all add: split_list_def upt_conv_Cons del: upt_Suc)

lemma emits_split_iter: "emits it xs r \<Longrightarrow> emits (split_iter bs split draw n it) (split_list bs split draw n xs) r"
proof (induction arbitrary: n rule: emits.induct)
  case (emits_Yield it xs r x)
  show ?case
  proof (cases "bucket_of bs (draw n) = split")
    case True
    then show ?thesis using emits_Yield.IH by (subst split_iter.code) (simp add: split_seek.simps [of _ _ _ _ "Yield x it"])
  next
    case False
    then have "split_iter bs split draw n (Yield x it) = split_iter bs split draw (Suc n) it"
      by (subst (1 2) split_iter.code) (simp add: split_seek.simps [of _ _ _ _ "Yield x it"])
    then show ?thesis using emits_Yield.IH False by simp
  qed
qed (subst split_iter.code, simp add: split_seek.simps)+

lemma split_bucket_bound:
  "bucket \<le> length bs - 1 \<Longrightarrow> split_bucket bs x bucket fuel \<le> length bs - 1"
  by (induction bs x bucket fuel rule: split_bucket.induct) auto

lemma bucket_of_bound: "bs \<noteq> [] \<Longrightarrow> bucket_of bs x < length bs"
  using split_bucket_bound [of 0 bs x "length bs"] by (cases bs) (auto simp: bucket_of_def)

lemma split_lists_cover:
  assumes "bs \<noteq> []"
  shows "(\<Sum>split < length bs. mset (split_list bs split draw n xs)) = mset xs"
proof (induction xs arbitrary: n)
  case (Cons x xs)
  have "(\<Sum>split < length bs. mset (split_list bs split draw n (x # xs)))
      = (\<Sum>split < length bs. (if bucket_of bs (draw n) = split then {#x#} else {#}) + mset (split_list bs split draw (Suc n) xs))"
    by (intro sum.cong) auto
  also have "\<dots> = {#x#} + mset xs"
    using bucket_of_bound [OF assms, of "draw n"] Cons.IH by (simp add: sum.distrib sum.delta)
  finally show ?case by simp
qed simp

section \<open>What the actions return\<close>

lemma wait_all_Inr:
  fixes xs :: "'b list"
  shows "wait_all (map (\<lambda>x. Some (Inr x)) xs) = Some (Inr xs)"
proof -
  let ?rs = "map (\<lambda>x. Some (Inr x :: 'b res)) xs"
  have "first_panic ?rs = None" by (induction xs) simp_all
  moreover have "those ?rs = Some (map Inr xs)" by (induction xs) simp_all
  ultimately show ?thesis unfolding wait_all_def by (simp add: comp_def)
qed

lemma on_parts_contents:
  assumes "contents rdd xss" and "\<And>it xs. emits it xs None \<Longrightarrow> f it = Some (Inr (g xs))"
  shows "on_parts f rdd = Some (Inr (map g xss))"
proof -
  have "map (\<lambda>p. f (rd_compute rdd p)) (rd_parts rdd) = map (\<lambda>x. Some (Inr x)) (map g xss)"
    using assms by (auto simp: contents_def list_all2_conv_all_nth intro!: nth_equalityI)
  then show ?thesis unfolding on_parts_def by (simp only: wait_all_Inr)
qed

lemma Collect_contents: "contents rdd xss \<Longrightarrow> Collect_rdd rdd = Some (Inr (concat xss))"
  using on_parts_contents [of rdd xss CollectIterator id]
  by (simp add: Collect_rdd_def map_result_def CollectIterator_emits)

lemma Count_contents: "contents rdd xss \<Longrightarrow> Count_rdd rdd = Some (Inr (of_nat (length (concat xss))))"
proof -
  assume "contents rdd xss"
  then have "on_parts CountIterator rdd = Some (Inr (map (\<lambda>xs. of_nat (length xs)) xss))"
    by (rule on_parts_contents) (simp add: CountIterator_emits)
  moreover have "sum_list (map (\<lambda>xs. of_nat (length xs)) xss) = (of_nat (length (concat xss)) :: int64)"
    by (induction xss) simp_all
  ultimately show ?thesis by (simp add: Count_rdd_def map_result_def)
qed

lemma Fold_contents:
  "contents rdd xss \<Longrightarrow> Fold_rdd rdd zero fn = Some (Inr (foldl fn zero (map (foldl fn zero) xss)))"
  using on_parts_contents [of rdd xss "fold_loop fn zero" "foldl fn zero"]
  by (simp add: Fold_rdd_def map_result_def fold_loop_emits)

text \<open>Reducing partition by partition is reducing the whole when the function is associative.\<close>

definition reduce_list :: "('a \<Rightarrow> 'a \<Rightarrow> 'a) \<Rightarrow> 'a list \<Rightarrow> 'a option" where
  "reduce_list fn xs = (case xs of [] \<Rightarrow> None | y # ys \<Rightarrow> Some (foldl fn y ys))"

lemma foldl_assoc_start:
  assumes "\<And>a b c. fn (fn a b) c = fn a (fn b c)"
  shows "foldl fn (fn a y) ys = fn a (foldl fn y ys)"
  by (induction ys arbitrary: y) (simp_all add: assms)

lemma merge_valid_concat:
  assumes "\<And>a b c. fn (fn a b) c = fn a (fn b c)"
  shows "merge_valid fn (reduce_list fn pre) (map (reduce_list fn) xss) = reduce_list fn (pre @ concat xss)"
proof (induction xss arbitrary: pre)
  case (Cons xs xss)
  have "merge_valid fn (reduce_list fn pre) (reduce_list fn xs # rs) = merge_valid fn (reduce_list fn (pre @ xs)) rs" for rs
    using foldl_assoc_start [of fn, OF assms] by (cases pre; cases xs) (simp_all add: reduce_list_def)
  then show ?case using Cons.IH [of "pre @ xs"] by simp
qed simp

lemma Reduce_contents:
  assumes "contents rdd xss" and "\<And>a b c. fn (fn a b) c = fn a (fn b c)"
  shows "Reduce_rdd rdd fn = Some (Inr (reduce_list fn (concat xss)))"
proof -
  have "on_parts (\<lambda>it. ReduceIterator it fn) rdd = Some (Inr (map (reduce_list fn) xss))"
    by (rule on_parts_contents [OF assms(1)]) (simp add: ReduceIterator_emits reduce_list_def)
  then show ?thesis
    using merge_valid_concat [of fn "[]" xss, OF assms(2)] by (simp add: Reduce_rdd_def map_result_def reduce_list_def)
qed

lemma take_parts_contents:
  assumes "list_all2 (\<lambda>p xs. emits (rd_compute rdd p) xs None) parts xss"
  shows "take_parts rdd (int n) parts result =
    Some (Inr (if n \<le> length result then result else take n (result @ concat xss)))"
  using assms
proof (induction arbitrary: result rule: list_all2_induct)
  case (Cons p parts xs xss)
  have t: "TakeIterator (rd_compute rdd p) (int n - int (length result)) =
      Some (Inr (take (n - length result) xs))" if "length result < n"
    using TakeIterator_emits [OF Cons(1), of "int n - int (length result)"] that
    by (auto simp: nat_diff_distrib)
  have le: "\<not> int n \<le> int (length result) \<longleftrightarrow> length result < n" by auto
  show ?case
    using t Cons(3) [of "result @ take (n - length result) xs"] by (auto simp: le)
qed simp

lemma Take_contents: "contents rdd xss \<Longrightarrow> Take_rdd rdd (int n) = Some (Inr (take n (concat xss)))"
  using take_parts_contents [of rdd "rd_parts rdd" xss n "[]"] by (simp add: Take_rdd_def contents_def)

lemma tally_eq:
  "tally xs m v = (if count_list xs v = 0 then m v
     else Some ((case m v of None \<Rightarrow> 0 | Some c \<Rightarrow> c) + of_nat (count_list xs v)))"
proof (induction xs arbitrary: m)
  case (Cons x xs)
  show ?case
    unfolding tally.simps Cons.IH by (auto split: option.splits simp: algebra_simps)
qed simp

section \<open>The dependencies cover what is read\<close>

text \<open>
  \<open>same_on S rdd rdd'\<close>: the second RDD differs from the first at most in what it computes for
  partitions whose index is not in \<open>S\<close>.
\<close>

definition same_on :: "int set \<Rightarrow> 'a RDD_of \<Rightarrow> 'a RDD_of \<Rightarrow> bool" where
  "same_on S rdd rdd' \<longleftrightarrow> rd_node rdd' = rd_node rdd \<and> rd_parts rdd' = rd_parts rdd \<and> rd_partitioner rdd' = rd_partitioner rdd \<and>
     (\<forall>q \<in> set (rd_parts rdd). Index q \<in> S \<longrightarrow> rd_compute rdd' q = rd_compute rdd q)"

text \<open>Partition indices are positions, as every constructor of partitions numbers them.\<close>

definition positional :: "'a RDD_of \<Rightarrow> bool" where
  "positional rdd \<longleftrightarrow> map Index (rd_parts rdd) = map int [0..<length (rd_parts rdd)]"

lemma positional_nth: "positional rdd \<Longrightarrow> j < length (rd_parts rdd) \<Longrightarrow> Index (rd_parts rdd ! j) = int j"
  unfolding positional_def using nth_map by (metis add_0 diff_zero length_upt nth_upt)

lemma prefix_count_cong:
  assumes "\<And>p. p \<in> set (takeWhile (\<lambda>p. Index p \<noteq> i) parts) \<Longrightarrow> rd_compute rdd' p = rd_compute rdd p"
  shows "prefix_count rdd' i parts c = prefix_count rdd i parts c"
  using assms
proof (induction parts arbitrary: c)
  case (Cons p parts)
  then show ?case by (auto split: option.split sum.split)
qed simp

lemma ZipWithIndex_reads:
  assumes pos: "positional rdd" and j: "j < length (rd_parts rdd)"
    and same: "same_on (set (GetParents (hd (live_deps (rd_node (ZipWithIndex i rdd)))) (int j))) rdd rdd'"
  shows "rd_compute (ZipWithIndex i rdd') (rd_parts rdd ! j) = rd_compute (ZipWithIndex i rdd) (rd_parts rdd ! j)"
proof -
  have ps: "rd_parts rdd' = rd_parts rdd" using same by (simp add: same_on_def)
  have "set (GetParents (hd (live_deps (rd_node (ZipWithIndex i rdd)))) (int j)) = (\<lambda>k. Index (rd_parts rdd ! k)) ` {..j}"
    using j by (simp add: ZipWithIndex_def parents_fn_def index_parents_def nat_add_distrib atLeast0LessThan
        lessThan_Suc_atMost del: upt_Suc)
  then have eq: "rd_compute rdd' (rd_parts rdd ! k) = rd_compute rdd (rd_parts rdd ! k)" if "k \<le> j" for k
    using same that j nth_mem [of k "rd_parts rdd"] by (auto simp: same_on_def)
  have "p \<in> (\<lambda>k. rd_parts rdd ! k) ` {..j}"
    if "p \<in> set (takeWhile (\<lambda>p. Index p \<noteq> Index (rd_parts rdd ! j)) (rd_parts rdd))" for p
  proof -
    let ?P = "\<lambda>p. Index p \<noteq> Index (rd_parts rdd ! j)"
    have "length (takeWhile ?P (rd_parts rdd)) \<le> j"
    proof (rule ccontr)
      assume "\<not> length (takeWhile ?P (rd_parts rdd)) \<le> j"
      then have "rd_parts rdd ! j \<in> set (takeWhile ?P (rd_parts rdd))"
        by (metis linorder_not_le nth_mem takeWhile_nth)
      then show False using set_takeWhileD by fastforce
    qed
    moreover obtain k where "k < length (takeWhile ?P (rd_parts rdd))" "p = rd_parts rdd ! k"
      using \<open>p \<in> set (takeWhile ?P (rd_parts rdd))\<close> by (metis in_set_conv_nth takeWhile_nth)
    ultimately show ?thesis by auto
  qed
  then have "prefix_count rdd' (Index (rd_parts rdd ! j)) (rd_parts rdd) 0 = prefix_count rdd (Index (rd_parts rdd ! j)) (rd_parts rdd) 0"
    using eq by (intro prefix_count_cong) auto
  then show ?thesis using eq [of j] ps by (simp add: ZipWithIndex_def split: option.split sum.split)
qed

lemma coalesced_reads:
  assumes pos: "positional rdd" and n: "0 < n" "n \<le> length (rd_parts rdd)" and j: "j < n"
    and c: "newCoalescedRDD i rdd (int n) = Inr c" "newCoalescedRDD i rdd' (int n) = Inr c'"
    and same: "same_on (set (GetParents (hd (live_deps (rd_node c))) (int j))) rdd rdd'"
  shows "rd_compute c' (rd_parts c ! j) = rd_compute c (rd_parts c ! j)"
proof -
  let ?m = "partitionMapping (length (rd_parts rdd)) n"
  have ps: "rd_parts rdd' = rd_parts rdd" using same by (simp add: same_on_def)
  have m: "length ?m = n" "\<forall>k \<in> set (?m ! j). k < length (rd_parts rdd)"
    using j by (simp_all add: partitionMapping_def)
  have "set (GetParents (hd (live_deps (rd_node c))) (int j)) = int ` set (?m ! j)"
    using c(1) n j m(1) by (auto simp: newCoalescedRDD_def Let_def parents_fn_def coalesce_parents_def)
  then have eq: "rd_compute rdd' (rd_parts rdd ! k) = rd_compute rdd (rd_parts rdd ! k)" if "k \<in> set (?m ! j)" for k
    using same that m(2) positional_nth [OF pos, of k] nth_mem [of k "rd_parts rdd"] by (auto simp: same_on_def)
  then have "map (\<lambda>idx. rd_compute rdd' (rd_parts rdd ! idx)) (?m ! j) = map (\<lambda>idx. rd_compute rdd (rd_parts rdd ! idx)) (?m ! j)"
    by simp
  then show ?thesis
    using c n j ps by (auto simp: newCoalescedRDD_def Let_def nth_NewPartitions cong: map_cong)
qed

section \<open>Properties\<close>

text \<open>
  C33: The declared narrow dependencies of a coalesced and of a numbered RDD cover what their
  partitions read: whatever the other partitions of the parent would compute, the result is the
  same. An executor may therefore fetch only the buckets that the dependencies reach.
\<close>

theorem dependencies_cover_reads:
  assumes "positional rdd" and "0 < n" and "n \<le> length (rd_parts rdd)"
  shows "(\<forall>j < length (rd_parts rdd). \<forall>rdd'.
      same_on (set (GetParents (hd (live_deps (rd_node (ZipWithIndex i rdd)))) (int j))) rdd rdd' \<longrightarrow>
      rd_compute (ZipWithIndex i rdd') (rd_parts rdd ! j) = rd_compute (ZipWithIndex i rdd) (rd_parts rdd ! j)) \<and>
    (\<exists>c. newCoalescedRDD i rdd (int n) = Inr c \<and> (\<forall>j < n. \<forall>rdd' c'.
      same_on (set (GetParents (hd (live_deps (rd_node c))) (int j))) rdd rdd' \<longrightarrow>
      newCoalescedRDD i rdd' (int n) = Inr c' \<longrightarrow> rd_compute c' (rd_parts c ! j) = rd_compute c (rd_parts c ! j)))"
proof -
  have "\<exists>c. newCoalescedRDD i rdd (int n) = Inr c"
    using assms(2,3) by (auto simp: newCoalescedRDD_def Let_def)
  then show ?thesis using ZipWithIndex_reads [OF assms(1)] coalesced_reads [OF assms] by blast
qed

definition two_parts :: "nat RDD_of" where
  "two_parts = NewRDD 0 (NewPartitions 2) [] (\<lambda>p. SliceIterator (if Index p = 0 then [4, 5] else [6])) None"

lemma two_parts_simps:
  "rd_parts two_parts = [basePartition 0, basePartition 1]" "positional two_parts" "contents two_parts [[4, 5], [6]]"
  by (simp_all add: two_parts_def NewPartitions_def upt_rec positional_def contents_def emits_SliceIterator)

theorem dependencies_cover_reads_witness:
  "rd_compute (ZipWithIndex 9 (two_parts\<lparr>rd_compute := \<lambda>p. if Index p = 0 then rd_compute two_parts p else Hang\<rparr>)) (basePartition 0)
     = rd_compute (ZipWithIndex 9 two_parts) (basePartition 0)"
proof -
  have "same_on (set (GetParents (hd (live_deps (rd_node (ZipWithIndex 9 two_parts)))) (int 0))) two_parts
      (two_parts\<lparr>rd_compute := \<lambda>p. if Index p = 0 then rd_compute two_parts p else Hang\<rparr>)"
    by (simp add: same_on_def ZipWithIndex_def parents_fn_def index_parents_def two_parts_simps(1))
  then show ?thesis
    using dependencies_cover_reads [of two_parts 1 9] two_parts_simps by fastforce
qed

text \<open>
  Numbering and coalescing keep the records: \<open>ZipWithIndex\<close> pairs the records in partition
  order with 0, 1, 2, ... (modulo 2 to the 64), and coalescing to \<open>n\<close> partitions yields exactly \<open>n\<close>
  partitions with the same records.
\<close>

lemma numbering_and_coalescing:
  assumes "contents rdd xss" and "distinct (map Index (rd_parts rdd))" and "0 < n" and "n \<le> length xss"
  shows "Collect_rdd (ZipWithIndex i rdd) = Some (Inr (zip (concat xss) (map of_nat [0..<length (concat xss)]))) \<and>
    (\<exists>c ys. newCoalescedRDD i rdd (int n) = Inr c \<and> GetNumPartitions c = n \<and>
       Collect_rdd c = Some (Inr ys) \<and> mset ys = mset (concat xss))"
proof -
  have "Collect_rdd (ZipWithIndex i rdd) = Some (Inr (zip (concat xss) (map of_nat [0..<length (concat xss)])))"
    using Collect_contents [OF contents_ZipWithIndex [OF assms(1,2)]] numbered_concat [of xss of_nat 0] by simp
  moreover obtain c where "newCoalescedRDD i rdd (int n) = Inr c" "length (rd_parts c) = n"
    "contents c (map (\<lambda>js. concat (map ((!) xss) js)) (partitionMapping (length xss) n))"
    using contents_coalesced [OF assms(1,3,4)] by blast
  ultimately show ?thesis
    using Collect_contents coalesced_records [OF assms(3)] by (fastforce simp: GetNumPartitions_def)
qed

text \<open>
  C34: \<open>RandomSplit\<close> assigns every record occurrence to exactly one split, whatever the weights'
  boundaries and the draws are: the records of the splits together are the records of the input.
\<close>

theorem random_split_exactly_once:
  fixes bs :: "'f :: linorder list"
  assumes "contents rdd xss" and "bs \<noteq> []"
  shows "\<exists>yss. list_all2 (\<lambda>s ys. Collect_rdd s = Some (Inr ys)) (RandomSplit ids rdd bs draw) yss \<and>
    mset (concat yss) = mset (concat xss)"
proof -
  let ?part = "\<lambda>split. map (\<lambda>j. split_list bs split (draw (Index (rd_parts rdd ! j))) 0 (xss ! j)) [0..<length xss]"
  let ?yss = "map (\<lambda>split. concat (?part split)) [0..<length bs]"
  have "contents (MapPartitionsWithIndex (ids split) rdd (\<lambda>idx iter. split_iter bs split (draw idx) 0 iter) False) (?part split)" for split
    using contents_nth [OF assms(1)] contents_length [OF assms(1)]
    by (auto simp: contents_def MapPartitionsWithIndex_def list_all2_conv_all_nth emits_split_iter)
  then have "list_all2 (\<lambda>s ys. Collect_rdd s = Some (Inr ys)) (RandomSplit ids rdd bs draw) ?yss"
    using Collect_contents by (auto simp: RandomSplit_def list_all2_conv_all_nth)
  moreover have "mset (concat ?yss) = mset (concat xss)"
  proof -
    have cat: "mset (concat (map f ks)) = (\<Sum>k \<leftarrow> ks. mset (f k))" for f and ks :: "nat list"
      by (induction ks) simp_all
    have upt: "(\<Sum>k \<leftarrow> [0..<n]. h k) = (\<Sum>k < n. h k)" for h :: "nat \<Rightarrow> 'a multiset" and n
      by (simp add: atLeast0LessThan sum_list_distinct_conv_sum_set)
    have "mset (concat ?yss) = (\<Sum>split < length bs. \<Sum>j < length xss. mset (split_list bs split (draw (Index (rd_parts rdd ! j))) 0 (xss ! j)))"
      unfolding cat upt ..
    also have "\<dots> = (\<Sum>j < length xss. mset (xss ! j))"
      by (subst sum.swap) (simp add: split_lists_cover [OF assms(2)])
    also have "\<dots> = mset (concat (map ((!) xss) [0..<length xss]))" unfolding cat upt ..
    finally show ?thesis by (simp add: map_nth)
  qed
  ultimately show ?thesis by blast
qed

theorem random_split_exactly_once_witness:
  "\<exists>yss. list_all2 (\<lambda>s ys. Collect_rdd s = Some (Inr ys))
     (RandomSplit (\<lambda>k. k) two_parts [3, 10 :: nat] (\<lambda>idx k. 2 * k + nat idx)) yss \<and> mset (concat yss) = {#4, 5, 6#}"
  using random_split_exactly_once [OF two_parts_simps(3), of "[3, 10 :: nat]" "\<lambda>k. k" "\<lambda>idx k. 2 * k + nat idx"] by simp


text \<open>
  C36: The dependencies of a union reach outside their parents. Every parent is asked for every
  partition of the union: a numbered first parent is asked for the partitions of the second one,
  and a coalesced second parent for a negative partition; both look-ups are out of range, so a
  graph walk over such a union panics.
\<close>

theorem union_dependencies_out_of_range:
  assumes "Union_rdd i [ZipWithIndex j a, b] = Inr u" and "rd_parts a \<noteq> []" and "rd_parts b \<noteq> []"
    and "newCoalescedRDD k d m = Inr c" and "Union_rdd i [a', c] = Inr u'" and "rd_parts a' \<noteq> []" and "rd_parts c \<noteq> []"
  shows "(\<exists>p < length (rd_parts u). \<exists>q \<in> set (GetParents (live_deps (rd_node u) ! 0) (int p)).
      index_parents (rd_parts a) q = Inl (Err ''index out of range'')) \<and>
    (\<exists>p < length (rd_parts u'). \<exists>q \<in> set (GetParents (live_deps (rd_node u') ! 1) (int p)). q < 0 \<and>
      (\<forall>mapping. coalesce_parents mapping q = Inl (Err ''index out of range'')))"
proof -
  have u: "rd_parts u = NewPartitions (length (rd_parts a) + length (rd_parts b))"
    "live_deps (rd_node u) ! 0 = NarrowDep (rd_node (ZipWithIndex j a)) (\<lambda>pid. [pid])"
    using assms(1) by (auto simp: Union_rdd_def Let_def union_parts_def ZipWithIndex_def)
  have u': "length (rd_parts u') = length (rd_parts a') + length (rd_parts c)"
    "live_deps (rd_node u') ! 1 = NarrowDep (rd_node c) (\<lambda>pid. [pid - int (length (rd_parts a'))])"
    using assms(5) by (auto simp: Union_rdd_def Let_def union_parts_def)
  have "\<exists>q \<in> set (GetParents (live_deps (rd_node u) ! 0) (int (length (rd_parts a)))).
      index_parents (rd_parts a) q = Inl (Err ''index out of range'')"
    using u(2) by (simp add: index_parents_def)
  moreover have "length (rd_parts a) < length (rd_parts u)" using u(1) assms(3) by simp
  moreover have "\<exists>q \<in> set (GetParents (live_deps (rd_node u') ! 1) (int 0)). q < 0 \<and>
      (\<forall>mapping. coalesce_parents mapping q = Inl (Err ''index out of range''))"
    using u'(2) assms(6) by (auto simp: coalesce_parents_def) (metis length_0_conv of_nat_0_eq_iff of_nat_le_0_iff of_nat_less_0_iff
        le_minus_iff neg_le_0_iff_le order_trans of_nat_0_le_iff)
  moreover have "0 < length (rd_parts u')" using u'(1) assms(7) by simp
  ultimately show ?thesis by blast
qed

theorem union_dependencies_out_of_range_witness:
  "\<exists>u p q. Union_rdd 8 [ZipWithIndex 7 two_parts, ZipWithIndex 6 two_parts] = Inr u \<and> p < length (rd_parts u) \<and>
     q \<in> set (GetParents (live_deps (rd_node u) ! 0) (int p)) \<and>
     index_parents (rd_parts two_parts) q = Inl (Err ''index out of range'')"
proof -
  obtain u where u: "Union_rdd 8 [ZipWithIndex 7 two_parts, ZipWithIndex 6 two_parts] = Inr u" by (simp add: Union_rdd_def Let_def)
  obtain c where c: "newCoalescedRDD 5 (ZipWithIndex 4 two_parts) 1 = Inr c" "rd_parts c \<noteq> []"
    using two_parts_simps(1) by (simp add: newCoalescedRDD_def Let_def ZipWithIndex_def NewPartitions_def)
  obtain u' where u': "Union_rdd 8 [ZipWithIndex 3 two_parts, c] = Inr u'" by (simp add: Union_rdd_def Let_def)
  show ?thesis
    using union_dependencies_out_of_range [OF u _ _ c(1) u' _ c(2)] u two_parts_simps(1) by (auto simp: ZipWithIndex_def)
qed

end
