(* ===== verification/Pair_RDDs.thy ===== *)
theory Pair_RDDs
  imports RDDs Aggregation Range_Sort
begin

text \<open>
  \<^verbatim>\<open>pair_rdd.go\<close> and the transformations of \<^verbatim>\<open>rdd_transformations.go\<close> that shuffle: reductions and
  groupings by key, range sort, repartition, distinct. What the shuffle
  hands to reducer \<open>r\<close> is an argument \<open>read\<close> of the transformation, the stream of \<^verbatim>\<open>shuffleStream\<close>;
  \<open>delivered\<close> says what the shuffle managers guarantee of it. The theory shows that the collected
  result of a reduction has one record per key, with the reduction of all its values. \<^verbatim>\<open>computeShuffleStages\<close>,
  which an action calls to run the map sides first, is what produces \<open>read\<close>.
\<close>

section \<open>Reductions and groupings\<close>

text \<open>What the reduce side needs: the sorter of its task, the encoder of its values, the group limit.\<close>

record ('v, 'c) reduce_env =
  re_sorter :: "(gokey \<times> 'v) sorter"
  re_encode :: "'c \<Rightarrow> byte list res"
  re_groupBytes :: nat

definition sorted_read ::
  "('v, 'c) reduce_env \<Rightarrow> (gokey \<times> 'v) recordStream \<Rightarrow> ((gokey \<times> 'v) recordStream \<Rightarrow> 'x Iterator) \<Rightarrow> 'x Iterator" where
  "sorted_read re s f = (case sortedPairs (re_sorter re) None s of Inl e \<Rightarrow> Panic e | Inr (ys, _) \<Rightarrow> f (ys, None))"

definition newReduceShuffleRead ::
  "('v, 'v) reduce_env \<Rightarrow> ('v \<Rightarrow> 'v \<Rightarrow> 'v) \<Rightarrow> (gokey \<times> 'v) recordStream \<Rightarrow> (gokey \<times> 'v) Iterator" where
  "newReduceShuffleRead re fn s = sorted_read re s (aggregatePairs (\<lambda>v. v) fn (re_encode re) (re_groupBytes re))"

definition groupShuffleRead ::
  "('v, 'v) reduce_env \<Rightarrow> (gokey \<times> 'v) recordStream \<Rightarrow> (gokey \<times> 'v list) Iterator" where
  "groupShuffleRead re s = sorted_read re s (boundedGroups (re_encode re) (re_groupBytes re))"

text \<open>An RDD behind a shuffle: one partition per reducer.\<close>

definition shuffled ::
  "nat \<Rightarrow> nat \<Rightarrow> RDD \<Rightarrow> Partitioner \<Rightarrow> (nat \<Rightarrow> 'x Iterator) \<Rightarrow> 'x RDD_of" where
  "shuffled i sid parent p reader =
     NewRDD i (NewPartitions (nat (NumPartitions p))) [ShuffleDependency parent (Some p) sid None]
       (\<lambda>part. reader (nat (Index part))) (Some p)"

definition ReduceByKey ::
  "('v, 'v) reduce_env \<Rightarrow> nat \<Rightarrow> nat \<Rightarrow> (gokey \<times> 'v) RDD_of \<Rightarrow> Partitioner \<Rightarrow> ('v \<Rightarrow> 'v \<Rightarrow> 'v)
     \<Rightarrow> (nat \<Rightarrow> (gokey \<times> 'v) recordStream) \<Rightarrow> (gokey \<times> 'v) RDD_of" where
  "ReduceByKey re i sid rdd p fn read = shuffled i sid (rd_node rdd) p (\<lambda>r. newReduceShuffleRead re fn (read r))"

definition GroupByKey ::
  "('v, 'v) reduce_env \<Rightarrow> nat \<Rightarrow> nat \<Rightarrow> (gokey \<times> 'v) RDD_of \<Rightarrow> Partitioner
     \<Rightarrow> (nat \<Rightarrow> (gokey \<times> 'v) recordStream) \<Rightarrow> (gokey \<times> 'v list) RDD_of" where
  "GroupByKey re i sid rdd p read = shuffled i sid (rd_node rdd) p (\<lambda>r. groupShuffleRead re (read r))"

definition CombineByKey ::
  "('v, 'c) reduce_env \<Rightarrow> nat \<Rightarrow> nat \<Rightarrow> (gokey \<times> 'v) RDD_of \<Rightarrow> ('v \<Rightarrow> 'c) \<Rightarrow> ('c \<Rightarrow> 'v \<Rightarrow> 'c) \<Rightarrow> ('c \<Rightarrow> 'c \<Rightarrow> 'c)
     \<Rightarrow> Partitioner \<Rightarrow> (nat \<Rightarrow> (gokey \<times> 'v) recordStream) \<Rightarrow> (gokey \<times> 'c) RDD_of" where
  "CombineByKey re i sid rdd createCombiner mergeValue mergeCombiners p read =
     shuffled i sid (rd_node rdd) p (\<lambda>r. sorted_read re (read r)
       (aggregatePairs createCombiner mergeValue (re_encode re) (re_groupBytes re)))"

text \<open>Every record becomes a combiner of its own before the reduction.\<close>

definition aggregate_mapped :: "nat \<Rightarrow> (gokey \<times> 'v) RDD_of \<Rightarrow> 'u \<Rightarrow> ('u \<Rightarrow> 'v \<Rightarrow> 'u) \<Rightarrow> (gokey \<times> 'u) RDD_of" where
  "aggregate_mapped i rdd zeroValue seqOp = Map_rdd i rdd (\<lambda>p. (fst p, seqOp zeroValue (snd p)))"

definition AggregateByKey ::
  "('u, 'u) reduce_env \<Rightarrow> nat \<Rightarrow> nat \<Rightarrow> nat \<Rightarrow> (gokey \<times> 'v) RDD_of \<Rightarrow> 'u \<Rightarrow> ('u \<Rightarrow> 'v \<Rightarrow> 'u) \<Rightarrow> ('u \<Rightarrow> 'u \<Rightarrow> 'u)
     \<Rightarrow> Partitioner \<Rightarrow> (nat \<Rightarrow> (gokey \<times> 'u) recordStream) \<Rightarrow> (gokey \<times> 'u) RDD_of" where
  "AggregateByKey re i j sid rdd zeroValue seqOp combOp p read =
     ReduceByKey re j sid (aggregate_mapped i rdd zeroValue seqOp) p combOp read"

definition FoldByKey ::
  "('v, 'v) reduce_env \<Rightarrow> nat \<Rightarrow> nat \<Rightarrow> nat \<Rightarrow> (gokey \<times> 'v) RDD_of \<Rightarrow> 'v \<Rightarrow> ('v \<Rightarrow> 'v \<Rightarrow> 'v)
     \<Rightarrow> Partitioner \<Rightarrow> (nat \<Rightarrow> (gokey \<times> 'v) recordStream) \<Rightarrow> (gokey \<times> 'v) RDD_of" where
  "FoldByKey re i j sid rdd zeroValue fn p read = AggregateByKey re i j sid rdd zeroValue fn fn p read"

definition Distinct ::
  "(bool, bool) reduce_env \<Rightarrow> nat \<Rightarrow> nat \<Rightarrow> nat \<Rightarrow> nat \<Rightarrow> gokey RDD_of \<Rightarrow> int option
     \<Rightarrow> (nat \<Rightarrow> (gokey \<times> bool) recordStream) \<Rightarrow> gokey RDD_of" where
  "Distinct re i j k sid rdd numPartitions read =
     (let np = (case numPartitions of Some n \<Rightarrow> if n > 0 then n else int (GetNumPartitions rdd)
                | None \<Rightarrow> int (GetNumPartitions rdd))
      in Map_rdd k (ReduceByKey re j sid (Map_rdd i rdd (\<lambda>t. (t, True))) (HashPartitioner np) (\<or>) read) fst)"

section \<open>Sort and repartition\<close>

definition sort_compare :: "(gokey \<Rightarrow> gokey \<Rightarrow> bool) \<Rightarrow> bool \<Rightarrow> gokey \<Rightarrow> gokey \<Rightarrow> bool" where
  "sort_compare lt ascend a b = (if ascend then lt a b else lt b a)"

primcorec stream_iter :: "'x recordStream \<Rightarrow> 'x Iterator" where
  "stream_iter s = (case fst s of
     v # vs \<Rightarrow> Yield v (stream_iter (vs, snd s))
   | [] \<Rightarrow> (case snd s of None \<Rightarrow> Stop | Some e \<Rightarrow> Panic e))"

definition SortByKey ::
  "(gokey \<times> 'v) sorter \<Rightarrow> nat \<Rightarrow> nat \<Rightarrow> (gokey \<times> 'v) RDD_of \<Rightarrow> (gokey \<Rightarrow> gokey \<Rightarrow> bool) \<Rightarrow> bool \<Rightarrow> int option
     \<Rightarrow> (nat \<Rightarrow> (gokey \<times> 'v) recordStream) \<Rightarrow> (gokey \<times> 'v) RDD_of" where
  "SortByKey so i sid rdd lt ascend numPartitions read =
     (let np0 = (case numPartitions of Some n \<Rightarrow> if n > 0 then n else int (GetNumPartitions rdd)
                 | None \<Rightarrow> int (GetNumPartitions rdd));
          np = (if np0 = 0 then 1 else np0);
          compare = sort_compare lt ascend
      in NewRDD i (NewPartitions (nat np))
           [ShuffleDependency (rd_node rdd) (Some (NewRangePartitioner np compare)) sid (Some compare)]
           (\<lambda>p. case externalSort (so\<lparr>so_less := \<lambda>a b. compare (fst a) (fst b)\<rparr>) None (read (nat (Index p))) of
              Inl e \<Rightarrow> Panic e
            | Inr (recs, _, _) \<Rightarrow> stream_iter (recs, None)) None)"

primcorec key_iter :: "int \<Rightarrow> int \<Rightarrow> int \<Rightarrow> 'a Iterator \<Rightarrow> (gokey \<times> 'a) Iterator" where
  "key_iter n idx i iter =
     (case iter of
        Yield v it \<Rightarrow> Yield (IntKey KInt (word_of_int ((idx + i) mod n)), v) (key_iter n idx (i + 1) it)
      | Stop \<Rightarrow> Stop
      | Panic e \<Rightarrow> Panic e
      | Hang \<Rightarrow> Hang)"

definition repartition_keyed :: "nat \<Rightarrow> 'a RDD_of \<Rightarrow> int \<Rightarrow> (gokey \<times> 'a) RDD_of" where
  "repartition_keyed i rdd n = MapPartitionsWithIndex i rdd (\<lambda>idx iter. key_iter n idx 0 iter) False"

definition shuffleRepartition ::
  "nat \<Rightarrow> nat \<Rightarrow> nat \<Rightarrow> 'a RDD_of \<Rightarrow> int \<Rightarrow> (nat \<Rightarrow> (gokey \<times> 'a) recordStream) \<Rightarrow> 'a RDD_of" where
  "shuffleRepartition i j sid rdd numPartitions read =
     (let n = (if numPartitions \<le> 0 then 1 else numPartitions)
      in NewRDD j (NewPartitions (nat n))
           [ShuffleDependency (rd_node (repartition_keyed i rdd n)) (Some (PartitionIdPassthrough n)) sid None]
           (\<lambda>p. MapIterator (stream_iter (read (nat (Index p)))) snd) None)"

definition Coalesce ::
  "nat \<Rightarrow> nat \<Rightarrow> nat \<Rightarrow> 'a RDD_of \<Rightarrow> int \<Rightarrow> bool \<Rightarrow> (nat \<Rightarrow> (gokey \<times> 'a) recordStream) \<Rightarrow> 'a RDD_of res" where
  "Coalesce i j sid rdd numPartitions doShuffle read =
     (if doShuffle then Inr (shuffleRepartition i j sid rdd numPartitions read)
      else if numPartitions \<ge> int (GetNumPartitions rdd) then Inr rdd
      else newCoalescedRDD i rdd numPartitions)"

definition Repartition ::
  "nat \<Rightarrow> nat \<Rightarrow> nat \<Rightarrow> 'a RDD_of \<Rightarrow> int \<Rightarrow> (nat \<Rightarrow> (gokey \<times> 'a) recordStream) \<Rightarrow> 'a RDD_of res" where
  "Repartition i j sid rdd numPartitions read = Coalesce i j sid rdd numPartitions True read"

definition NewCoalescedRDD ::
  "nat \<Rightarrow> nat \<Rightarrow> nat \<Rightarrow> 'a RDD_of \<Rightarrow> int \<Rightarrow> bool \<Rightarrow> (nat \<Rightarrow> (gokey \<times> 'a) recordStream) \<Rightarrow> 'a RDD_of res" where
  "NewCoalescedRDD i j sid parent numPartitions shuffle read =
     (if shuffle then Coalesce i j sid parent numPartitions True read else newCoalescedRDD i parent numPartitions)"

text \<open>The right side of an intersection is collected when the intersection is built.\<close>

definition Intersection ::
  "(bool, bool) reduce_env \<Rightarrow> nat \<times> nat \<times> nat \<times> nat \<Rightarrow> nat \<Rightarrow> gokey RDD_of \<Rightarrow> gokey RDD_of
     \<Rightarrow> (nat \<Rightarrow> (gokey \<times> bool) recordStream) \<Rightarrow> gokey RDD_of res option" where
  "Intersection re ids sid rdd1 rdd2 read =
     map_result (\<lambda>other. case ids of (i, j, k, l) \<Rightarrow>
       Distinct re j k l sid (Filter_rdd i rdd1 (\<lambda>t. t \<in> set other)) None read) (Collect_rdd rdd2)"

section \<open>What a shuffle delivers\<close>

text \<open>
  Reducer \<open>r\<close> reads the records of the map outputs \<open>outs\<close> whose key belongs to it, map after map:
  what the shuffle managers are shown to do.
\<close>

definition reducer_records :: "Partitioner \<Rightarrow> (gokey \<times> 'v) list list \<Rightarrow> nat \<Rightarrow> (gokey \<times> 'v) list" where
  "reducer_records p outs r = filter (\<lambda>kv. GetPartition p (fst kv) = Inr (int r)) (concat outs)"

definition delivered :: "Partitioner \<Rightarrow> (gokey \<times> 'v) list list \<Rightarrow> (nat \<Rightarrow> (gokey \<times> 'v) recordStream) \<Rightarrow> bool" where
  "delivered p outs read \<longleftrightarrow> (\<forall>r < nat (NumPartitions p). read r = (reducer_records p outs r, None))"

text \<open>The records a reducer can sort: tokens exist, every record fits, and there are not too many.\<close>

definition sortable :: "('v, 'c) reduce_env \<Rightarrow> (gokey \<times> 'v) list \<Rightarrow> bool" where
  "sortable re xs \<longleftrightarrow> sorter_ok ((re_sorter re)\<lparr>so_less := token_less\<rparr>) \<and> keys_ok (map fst xs) \<and>
     length xs < 2 ^ 32 \<and> list_all (admissible ((re_sorter re)\<lparr>so_less := token_less\<rparr>)) xs"

lemma keys_ok_subset: "keys_ok ks \<Longrightarrow> set ks' \<subseteq> set ks \<Longrightarrow> keys_ok ks'"
  by (auto simp: keys_ok_def token_error_None)

lemma keys_ok_filter: "keys_ok (map fst xs) \<Longrightarrow> keys_ok (map fst (filter P xs))"
  by (erule keys_ok_subset) auto

lemma sortable_filter: "sortable re xs \<Longrightarrow> sortable re (filter P xs)"
proof -
  assume s: "sortable re xs"
  then have "keys_ok (map fst (filter P xs))" by (simp add: sortable_def keys_ok_filter)
  moreover have "length (filter P xs) < 2 ^ 32"
    using s length_filter_le [of P xs] unfolding sortable_def by (metis le_less_trans)
  ultimately show ?thesis using s by (simp add: sortable_def list_all_iff)
qed

lemma sorted_read_sortable:
  assumes "sortable re xs"
  shows "sorted_read re (xs, None) f = f (SliceStable token_less xs, None)"
proof -
  have "token_error (map fst xs) = None" using assms by (simp add: sortable_def keys_ok_def)
  then have "sortedPairs (re_sorter re) None (xs, None) = Inr (SliceStable token_less xs, None)"
    using assms externalSort_succeeds [of "(re_sorter re)\<lparr>so_less := token_less\<rparr>" xs]
    by (simp add: sortedPairs_def sortable_def)
  then show ?thesis by (simp add: sorted_read_def)
qed

lemma filter_key_reducer:
  "filter (\<lambda>x. GetPartition p (fst x) = Inr (int r) \<and> fst x = k) xs =
     (if GetPartition p k = Inr (int r) then filter (\<lambda>x. fst x = k) xs else [])"
  by (induction xs) auto

lemma values_of_reducer:
  "values_of k (reducer_records p outs r) = (if GetPartition p k = Inr (int r) then values_of k (concat outs) else [])"
  by (simp add: values_of_def reducer_records_def filter_key_reducer del: filter_concat)

lemma keys_of_reducer:
  "k \<in> fst ` set (reducer_records p outs r) \<longleftrightarrow> k \<in> fst ` set (concat outs) \<and> GetPartition p k = Inr (int r)"
  by (force simp: reducer_records_def)

text \<open>
  The reducers together: when reducer \<open>r\<close> has the keys that the partitioner gives it, each once,
  all reducers together have every key once.
\<close>

lemma partitioned_keys:
  assumes p: "0 < NumPartitions p" and dist: "\<And>r. distinct (kf r)"
    and set_r: "\<And>r. set (kf r) = {k \<in> K. GetPartition p k = Inr (int r)}"
  shows "distinct (concat (map kf [0..<nat (NumPartitions p)]))"
    and "set (concat (map kf [0..<nat (NumPartitions p)])) = K"
proof -
  have disj: "set (kf r) \<inter> set (kf r') = {}" if "r \<noteq> r'" for r r' unfolding set_r using that by auto
  have "distinct (concat (map kf rs))" if "distinct rs" for rs
    using that
  proof (induction rs)
    case (Cons r rs)
    then have "set (kf r) \<inter> set (kf r') = {}" if "r' \<in> set rs" for r' using disj [of r r'] that by auto
    then show ?case using Cons dist by auto
  qed simp
  then show "distinct (concat (map kf [0..<nat (NumPartitions p)]))" by simp
  show "set (concat (map kf [0..<nat (NumPartitions p)])) = K"
  proof
    show "K \<subseteq> set (concat (map kf [0..<nat (NumPartitions p)]))"
    proof
      fix k assume k: "k \<in> K"
      obtain i where i: "GetPartition p k = Inr i" "0 \<le> i" "i < NumPartitions p"
        using go_partitioner.bucket_in_range [OF p] by blast
      then have "k \<in> set (kf (nat i))" using k by (simp add: set_r)
      moreover have "nat i \<in> set [0..<nat (NumPartitions p)]" using i by simp
      ultimately show "k \<in> set (concat (map kf [0..<nat (NumPartitions p)]))" by auto
    qed
  qed (auto simp: set_r)
qed

lemma reducer_group_keys:
  assumes "keys_ok (map fst (concat outs))"
  shows "distinct (group_keys (reducer_records p outs r))"
    and "set (group_keys (reducer_records p outs r)) = {k \<in> fst ` set (concat outs). GetPartition p k = Inr (int r)}"
proof -
  have kr: "keys_ok (map fst (reducer_records p outs r))"
    using assms by (simp add: reducer_records_def keys_ok_filter)
  show "distinct (group_keys (reducer_records p outs r))" by (rule set_group_keys(1) [OF kr])
  show "set (group_keys (reducer_records p outs r)) = {k \<in> fst ` set (concat outs). GetPartition p k = Inr (int r)}"
    unfolding set_group_keys(2) [OF kr] using keys_of_reducer by (intro set_eqI) simp
qed

section \<open>Reductions\<close>

lemma contents_shuffled:
  assumes "\<And>r. r < nat (NumPartitions p) \<Longrightarrow> emits (reader r) (out r) None"
  shows "contents (shuffled i sid parent p reader) (map out [0..<nat (NumPartitions p)])"
  using assms by (simp add: contents_def shuffled_def list_all2_conv_all_nth nth_NewPartitions)

lemma emits_aggregate:
  assumes s: "sortable re xs"
    and lim: "\<And>k n. k \<in> fst ` set xs \<Longrightarrow> 0 < n \<Longrightarrow> n \<le> length (values_of k xs) \<Longrightarrow>
      \<exists>b. re_encode re (combine agg (take n (values_of k xs))) = Inr b \<and> length b \<le> re_groupBytes re"
  shows "emits (sorted_read re (xs, None) (aggregatePairs (CreateCombiner agg) (MergeValue agg) (re_encode re) (re_groupBytes re)))
    (map (\<lambda>k. (k, combine agg (values_of k xs))) (group_keys xs)) None"
  unfolding sorted_read_sortable [OF s] aggregatePairs_def
proof (rule grouped_emits)
  show "keys_ok (map fst xs)" using s by (simp add: sortable_def)
  show "group_result (\<lambda>v. check_combiner (re_encode re) (re_groupBytes re) (CreateCombiner agg v))
      (\<lambda>acc v. check_combiner (re_encode re) (re_groupBytes re) (MergeValue agg acc v)) (values_of k xs) = Inr (combine agg (values_of k xs))"
    if "k \<in> fst ` set xs" for k
    by (rule group_result_check) (use that lim [OF that] values_of_eq_Nil [of k xs] in auto)
qed

lemma emits_groups:
  assumes s: "sortable re xs" and enc: "\<forall>v \<in> snd ` set xs. \<exists>b. re_encode re v = Inr b"
    and lim: "\<And>k. k \<in> fst ` set xs \<Longrightarrow> group_size (re_encode re) (values_of k xs) \<le> re_groupBytes re"
  shows "emits (groupShuffleRead re (xs, None)) (map (\<lambda>k. (k, values_of k xs)) (group_keys xs)) None"
proof -
  let ?enc = "re_encode re" and ?gb = "re_groupBytes re"
  have "emits (group_iter (add_value ?enc ?gb ([], 0)) (add_value ?enc ?gb) None (SliceStable token_less xs, None))
      (map (\<lambda>k. (k, (values_of k xs, group_size ?enc (values_of k xs)))) (group_keys xs)) None"
  proof (rule grouped_emits)
    show "keys_ok (map fst xs)" using s by (simp add: sortable_def)
    fix k assume k: "k \<in> fst ` set xs"
    have "\<forall>v \<in> set (values_of k xs). \<exists>b. ?enc v = Inr b" using enc by (auto simp: values_of_def)
    then show "group_result (add_value ?enc ?gb ([], 0)) (add_value ?enc ?gb) (values_of k xs) =
        Inr (values_of k xs, group_size ?enc (values_of k xs))"
      using group_result_add_value [of "values_of k xs" ?enc ?gb] k lim [OF k] values_of_eq_Nil [of k xs] by simp
  qed
  from emits_MapIterator [OF this, of "\<lambda>(key, values, sz). (key, values)"] show ?thesis
    by (simp add: groupShuffleRead_def sorted_read_sortable [OF s] boundedGroups_def comp_def)
qed

text \<open>The map sides of a shuffle turn the partitions of \<open>rdd\<close> into the outputs \<open>outs\<close> that are delivered.\<close>

definition runs_shuffle ::
  "('k \<times> 'v) RDD_of \<Rightarrow> ('k \<times> 'v) list list \<Rightarrow> (('k \<times> 'v) list \<Rightarrow> (gokey \<times> 'v) list \<Rightarrow> bool)
     \<Rightarrow> (gokey \<times> 'v) list list \<Rightarrow> Partitioner \<Rightarrow> (nat \<Rightarrow> (gokey \<times> 'v) recordStream) \<Rightarrow> bool" where
  "runs_shuffle rdd xss side outs p read \<longleftrightarrow> contents rdd xss \<and> list_all2 side xss outs \<and> delivered p outs read"

text \<open>The map side of a reduction combines its records batch by batch.\<close>

definition combines ::
  "('v \<Rightarrow> 'v \<Rightarrow> 'v) \<Rightarrow> ((gokey \<times> 'v) list \<Rightarrow> (gokey \<times> 'v) list) \<Rightarrow> (gokey \<times> 'v) list \<Rightarrow> (gokey \<times> 'v) list \<Rightarrow> bool" where
  "combines f order xs out \<longleftrightarrow> (\<exists>batches. concat batches = xs \<and>
     out = concat (map (combineMapOutput order (Some (reduceAggregator f)) True) batches))"

lemma combines_flat:
  "list_all2 (combines f order) xss outs \<Longrightarrow> \<exists>bss. concat bss = concat xss \<and>
     concat outs = concat (map (combineMapOutput order (Some (reduceAggregator f)) True) bss)"
proof (induction rule: list_all2_induct)
  case (Cons xs xss out outs)
  then obtain b bss where "concat b = xs" "out = concat (map (combineMapOutput order (Some (reduceAggregator f)) True) b)"
    "concat bss = concat xss" "concat outs = concat (map (combineMapOutput order (Some (reduceAggregator f)) True) bss)"
    unfolding combines_def by blast
  then show ?case by (intro exI [of _ "b @ bss"]) simp
qed (intro exI [of _ "[]"], simp)

lemma combined_reduction:
  assumes "assoc f" and "\<And>zs. mset (order zs) = mset zs" and "list_all2 (combines f order) xss outs"
  shows "fst ` set (concat outs) = fst ` set (concat xss)"
    and "reduce f (values_of k (concat outs)) = reduce f (values_of k (concat xss))"
proof -
  obtain bss where b: "concat bss = concat xss"
    "concat outs = concat (map (combineMapOutput order (Some (reduceAggregator f)) True) bss)"
    using combines_flat [OF assms(3)] by blast
  have "values_of k (concat outs) = [] \<longleftrightarrow> values_of k (concat xss) = []" for k
    using combine_batches_reduce(1) [OF assms(1,2), of k bss] b by simp
  then show "fst ` set (concat outs) = fst ` set (concat xss)" unfolding values_of_eq_Nil by blast
  show "reduce f (values_of k (concat outs)) = reduce f (values_of k (concat xss))"
    using combine_batches_reduce(2) [OF assms(1,2), of k bss] b by simp
qed

lemma contents_ReduceByKey:
  assumes "delivered p outs read" and "sortable re (concat outs)"
    and "\<And>v. \<exists>b. re_encode re v = Inr b \<and> length b \<le> re_groupBytes re"
  shows "contents (ReduceByKey re i sid rdd p f read)
    (map (\<lambda>r. map (\<lambda>k. (k, reduce f (values_of k (concat outs)))) (group_keys (reducer_records p outs r))) [0..<nat (NumPartitions p)])"
  unfolding ReduceByKey_def
proof (rule contents_shuffled)
  fix r assume r: "r < nat (NumPartitions p)"
  let ?xs = "reducer_records p outs r"
  have s: "sortable re ?xs" unfolding reducer_records_def by (rule sortable_filter [OF assms(2)])
  have "emits (newReduceShuffleRead re f (read r)) (map (\<lambda>k. (k, reduce f (values_of k ?xs))) (group_keys ?xs)) None"
    using emits_aggregate [OF s, of "reduceAggregator f"] assms(1,3) r
    by (simp add: newReduceShuffleRead_def delivered_def reduceAggregator_def reduce_def combine_def)
  moreover have "map (\<lambda>k. (k, reduce f (values_of k ?xs))) (group_keys ?xs) =
      map (\<lambda>k. (k, reduce f (values_of k (concat outs)))) (group_keys ?xs)"
  proof (rule map_cong [OF refl])
    fix k assume "k \<in> set (group_keys ?xs)"
    moreover have "keys_ok (map fst ?xs)" using s by (simp add: sortable_def)
    ultimately have "GetPartition p k = Inr (int r)" using set_group_keys(2) keys_of_reducer by blast
    then show "(k, reduce f (values_of k ?xs)) = (k, reduce f (values_of k (concat outs)))" by (simp add: values_of_reducer)
  qed
  ultimately show "emits (newReduceShuffleRead re f (read r))
      (map (\<lambda>k. (k, reduce f (values_of k (concat outs)))) (group_keys ?xs)) None" by simp
qed

section \<open>Properties of the reductions\<close>

definition pair_parts :: "(gokey \<times> byte) RDD_of" where
  "pair_parts = NewRDD 0 (NewPartitions 2) []
     (\<lambda>p. SliceIterator (if Index p = 0 then [(BoolKey True, 5), (BoolKey False, 1)] else [(BoolKey True, 7)])) None"

lemma pair_parts_contents:
  "contents pair_parts [[(BoolKey True, 5), (BoolKey False, 1)], [(BoolKey True, 7)]]"
  by (simp add: pair_parts_def NewPartitions_def upt_rec contents_def emits_SliceIterator)

text \<open>
  Collecting \<open>ReduceByKey\<close> yields one record for every key of the input, with the reduction of
  all values of the key in the order of the input: map-side combining, partitioning, external sort
  and reduce-side aggregation together change nothing.
\<close>

lemma reduce_by_key_correct:
  assumes run: "runs_shuffle rdd xss (combines f order) outs p read"
    and f: "assoc f" and order: "\<And>zs. mset (order zs) = mset zs"
    and p: "0 < NumPartitions p" and sort: "sortable re (concat outs)"
    and fits: "\<And>v. \<exists>b. re_encode re v = Inr b \<and> length b \<le> re_groupBytes re"
  shows "\<exists>ks. distinct ks \<and> set ks = fst ` set (concat xss) \<and>
    Collect_rdd (ReduceByKey re i sid rdd p f read) = Some (Inr (map (\<lambda>k. (k, reduce f (values_of k (concat xss)))) ks))"
proof -
  have out: "list_all2 (combines f order) xss outs" "delivered p outs read" using run by (simp_all add: runs_shuffle_def)
  let ?ks = "concat (map (\<lambda>r. group_keys (reducer_records p outs r)) [0..<nat (NumPartitions p)])"
  have "keys_ok (map fst (concat outs))" using sort by (simp add: sortable_def)
  note once = partitioned_keys [OF p reducer_group_keys [OF this]]
  have "Collect_rdd (ReduceByKey re i sid rdd p f read) = Some (Inr (map (\<lambda>k. (k, reduce f (values_of k (concat outs)))) ?ks))"
    using Collect_contents [OF contents_ReduceByKey [OF out(2) sort fits]] by (simp add: map_concat comp_def)
  then show ?thesis
    using once combined_reduction [OF f order out(1)] by (intro exI [of _ ?ks]) simp
qed

end
