(* ===== verification/Joins.thy ===== *)
theory Joins
  imports Pair_RDDs
begin

text \<open>
  The joins of \<^verbatim>\<open>pair_rdd.go\<close>: both sides are grouped by key behind a shuffle, the grouped partitions
  are merged in token order (\<open>Cogroup\<close>) and every merged group is expanded. The theory shows that
  the collected join is the relational one, for the inner, the outer and the subtracting joins.
\<close>

section \<open>Cogroup and joins\<close>

text \<open>One call of a pull iterator, and sequencing of calls that may panic or hang.\<close>

definition pull :: "'a Iterator \<Rightarrow> ('a option \<times> 'a Iterator) res option" where
  "pull it = (case it of
     Yield v it' \<Rightarrow> Some (Inr (Some v, it')) | Stop \<Rightarrow> Some (Inr (None, Stop)) | Panic e \<Rightarrow> Some (Inl e) | Hang \<Rightarrow> None)"

definition bindP :: "'a res option \<Rightarrow> ('a \<Rightarrow> 'b res option) \<Rightarrow> 'b res option" where
  "bindP m f = (case m of None \<Rightarrow> None | Some (Inl e) \<Rightarrow> Some (Inl e) | Some (Inr x) \<Rightarrow> f x)"

type_synonym ('v, 'w) cogroup_state =
  "(gokey \<times> 'v list) option \<times> (gokey \<times> 'v list) Iterator \<times> (gokey \<times> 'w list) option \<times> (gokey \<times> 'w list) Iterator"

text \<open>
  One call of the cogroup closure over the pulled groups \<open>a\<close> and \<open>b\<close>: the next groups are pulled
  before the result is returned.
\<close>

definition cogroup_next ::
  "('v, 'w) cogroup_state \<Rightarrow> ((gokey \<times> 'v list \<times> 'w list) \<times> ('v, 'w) cogroup_state) option res option" where
  "cogroup_next st =
     (case st of (a, g1, b, g2) \<Rightarrow>
       let left = (\<lambda>x. bindP (pull g1) (\<lambda>(a', g1'). Some (Inr (Some ((fst x, snd x, []), (a', g1', b, g2))))));
           right = (\<lambda>y. bindP (pull g2) (\<lambda>(b', g2'). Some (Inr (Some ((fst y, [], snd y), (a, g1, b', g2'))))))
       in case (a, b) of
            (None, None) \<Rightarrow> Some (Inr None)
          | (Some x, None) \<Rightarrow> left x
          | (None, Some y) \<Rightarrow> right y
          | (Some x, Some y) \<Rightarrow>
              if fst x = fst y
              then bindP (pull g1) (\<lambda>(a', g1'). bindP (pull g2) (\<lambda>(b', g2').
                     Some (Inr (Some ((fst x, snd x, snd y), (a', g1', b', g2'))))))
              else
                (case keyToken (fst x) of
                   Inl e \<Rightarrow> Some (Inl e)
                 | Inr tx \<Rightarrow>
                     (case keyToken (fst y) of
                        Inl e \<Rightarrow> Some (Inl e)
                      | Inr ty \<Rightarrow> if tx < ty then left x else right y)))"

primcorec cogroup_iter :: "('v, 'w) cogroup_state \<Rightarrow> (gokey \<times> 'v list \<times> 'w list) Iterator" where
  "cogroup_iter st =
     (case cogroup_next st of
        None \<Rightarrow> Hang
      | Some r \<Rightarrow>
          (case r of
             Inl e \<Rightarrow> Panic e
           | Inr n \<Rightarrow> (case n of None \<Rightarrow> Stop | Some z \<Rightarrow> Yield (fst z) (cogroup_iter (snd z)))))"

text \<open>The first groups are pulled when the partition is computed.\<close>

definition cogroup_compute ::
  "(gokey \<times> 'v list) Iterator \<Rightarrow> (gokey \<times> 'w list) Iterator \<Rightarrow> (gokey \<times> 'v list \<times> 'w list) Iterator" where
  "cogroup_compute g1 g2 =
     (case bindP (pull g1) (\<lambda>(a, g1'). bindP (pull g2) (\<lambda>(b, g2'). Some (Inr (a, g1', b, g2')))) of
        None \<Rightarrow> Hang
      | Some (Inl e) \<Rightarrow> Panic e
      | Some (Inr st) \<Rightarrow> cogroup_iter st)"

text \<open>
  What a cogroup draws from its context: the environments of the two reduce sides, the identifiers
  it hands out and what the two shuffles deliver.
\<close>

record ('v, 'w) cogroup_env =
  ce_left :: "('v, 'v) reduce_env"
  ce_right :: "('w, 'w) reduce_env"
  ce_ids :: "nat \<times> nat \<times> nat"
  ce_shuffles :: "nat \<times> nat"
  ce_read1 :: "nat \<Rightarrow> (gokey \<times> 'v) recordStream"
  ce_read2 :: "nat \<Rightarrow> (gokey \<times> 'w) recordStream"

definition Cogroup ::
  "('v, 'w) cogroup_env \<Rightarrow> (gokey \<times> 'v) RDD_of \<Rightarrow> (gokey \<times> 'w) RDD_of \<Rightarrow> Partitioner
     \<Rightarrow> (gokey \<times> 'v list \<times> 'w list) RDD_of" where
  "Cogroup ce rdd1 rdd2 p =
     (let (id1, id2, id3) = ce_ids ce;
          grouped1 = GroupByKey (ce_left ce) id1 (fst (ce_shuffles ce)) rdd1 p (ce_read1 ce);
          grouped2 = GroupByKey (ce_right ce) id2 (snd (ce_shuffles ce)) rdd2 p (ce_read2 ce)
      in NewRDD id3 (NewPartitions (nat (NumPartitions p)))
           [OneToOneDependency (rd_node grouped1), OneToOneDependency (rd_node grouped2)]
           (\<lambda>part. cogroup_compute (rd_compute grouped1 (basePartition (Index part)))
              (rd_compute grouped2 (basePartition (Index part)))) (Some p))"

text \<open>
  The counters \<open>i\<close> and \<open>j\<close> of the join closures: \<open>j\<close> runs through the right values for each left
  value, once when there is none.
\<close>

primcorec grid_iter :: "nat \<Rightarrow> nat \<Rightarrow> (nat \<Rightarrow> nat \<Rightarrow> 'x) \<Rightarrow> nat \<Rightarrow> nat \<Rightarrow> 'x Iterator" where
  "grid_iter n m out i j =
     (if i \<ge> n then Stop
      else Yield (out i j) (grid_iter n m out (if Suc j = m then Suc i else i) (if Suc j = m then 0 else Suc j)))"

definition join_expand :: "gokey \<times> 'v list \<times> 'w list \<Rightarrow> (gokey \<times> 'v \<times> 'w) Iterator" where
  "join_expand p = (case p of (k, vs, ws) \<Rightarrow>
     if ws = [] then Stop else grid_iter (length vs) (length ws) (\<lambda>i j. (k, vs ! i, ws ! j)) 0 0)"

definition left_expand :: "gokey \<times> 'v list \<times> 'w list \<Rightarrow> (gokey \<times> 'v \<times> 'w option) Iterator" where
  "left_expand p = (case p of (k, vs, ws) \<Rightarrow>
     grid_iter (length vs) (if ws = [] then 1 else length ws)
       (\<lambda>i j. (k, vs ! i, if ws = [] then None else Some (ws ! j))) 0 0)"

definition full_expand :: "gokey \<times> 'v list \<times> 'w list \<Rightarrow> (gokey \<times> 'v option \<times> 'w option) Iterator" where
  "full_expand p = (case p of (k, vs, ws) \<Rightarrow>
     if vs = [] then grid_iter (length ws) 1 (\<lambda>i j. (k, None, Some (ws ! i))) 0 0
     else grid_iter (length vs) (if ws = [] then 1 else length ws)
       (\<lambda>i j. (k, Some (vs ! i), if ws = [] then None else Some (ws ! j))) 0 0)"

definition subtract_expand :: "gokey \<times> 'v list \<times> 'w list \<Rightarrow> (gokey \<times> 'v) Iterator" where
  "subtract_expand p = (case p of (k, vs, ws) \<Rightarrow>
     if ws \<noteq> [] then EmptyIterator else MapIterator (SliceIterator vs) (\<lambda>v. (k, v)))"

text \<open>The joins; \<open>i\<close> and \<open>j\<close> are the identifiers of the nodes behind the cogroup.\<close>

definition NewJoinRDD ::
  "('v, 'w) cogroup_env \<Rightarrow> nat \<Rightarrow> (gokey \<times> 'v) RDD_of \<Rightarrow> (gokey \<times> 'w) RDD_of \<Rightarrow> Partitioner
     \<Rightarrow> (gokey \<times> 'v \<times> 'w) RDD_of" where
  "NewJoinRDD ce i rdd1 rdd2 p =
     MapPartitions i (Cogroup ce rdd1 rdd2 p) (\<lambda>gs. expandIterator gs join_expand) False"

definition NewLeftOuterJoinRDD ::
  "('v, 'w) cogroup_env \<Rightarrow> nat \<Rightarrow> (gokey \<times> 'v) RDD_of \<Rightarrow> (gokey \<times> 'w) RDD_of \<Rightarrow> Partitioner
     \<Rightarrow> (gokey \<times> 'v \<times> 'w option) RDD_of" where
  "NewLeftOuterJoinRDD ce i rdd1 rdd2 p =
     MapPartitions i (Cogroup ce rdd1 rdd2 p) (\<lambda>gs. expandIterator gs left_expand) False"

definition NewRightOuterJoinRDD ::
  "('w, 'v) cogroup_env \<Rightarrow> nat \<Rightarrow> nat \<Rightarrow> (gokey \<times> 'v) RDD_of \<Rightarrow> (gokey \<times> 'w) RDD_of \<Rightarrow> Partitioner
     \<Rightarrow> (gokey \<times> 'v option \<times> 'w) RDD_of" where
  "NewRightOuterJoinRDD ce i j rdd1 rdd2 p =
     Map_rdd j (NewLeftOuterJoinRDD ce i rdd2 rdd1 p) (\<lambda>(k, w, v). (k, v, w))"

definition NewFullOuterJoinRDD ::
  "('v, 'w) cogroup_env \<Rightarrow> nat \<Rightarrow> (gokey \<times> 'v) RDD_of \<Rightarrow> (gokey \<times> 'w) RDD_of \<Rightarrow> Partitioner
     \<Rightarrow> (gokey \<times> 'v option \<times> 'w option) RDD_of" where
  "NewFullOuterJoinRDD ce i rdd1 rdd2 p =
     MapPartitions i (Cogroup ce rdd1 rdd2 p) (\<lambda>gs. expandIterator gs full_expand) True"

definition NewSubtractByKeyRDD ::
  "('v, 'w) cogroup_env \<Rightarrow> nat \<Rightarrow> (gokey \<times> 'v) RDD_of \<Rightarrow> (gokey \<times> 'w) RDD_of \<Rightarrow> Partitioner
     \<Rightarrow> (gokey \<times> 'v) RDD_of" where
  "NewSubtractByKeyRDD ce i rdd1 rdd2 p =
     MapPartitions i (Cogroup ce rdd1 rdd2 p) (\<lambda>gs. expandIterator gs subtract_expand) True"

section \<open>Cogroup\<close>

fun cogroup_list ::
  "(gokey \<times> 'v list) list \<Rightarrow> (gokey \<times> 'w list) list \<Rightarrow> (gokey \<times> 'v list \<times> 'w list) list" where
  "cogroup_list [] [] = []"
| "cogroup_list (x # xs) [] = (fst x, snd x, []) # cogroup_list xs []"
| "cogroup_list [] (y # ys) = (fst y, [], snd y) # cogroup_list [] ys"
| "cogroup_list (x # xs) (y # ys) =
     (if fst x = fst y then (fst x, snd x, snd y) # cogroup_list xs ys
      else if token (fst x) < token (fst y) then (fst x, snd x, []) # cogroup_list xs (y # ys)
      else (fst y, [], snd y) # cogroup_list (x # xs) ys)"

text \<open>The first element of \<open>xs\<close> has been pulled from the iterator.\<close>

definition pulled :: "'a option \<Rightarrow> 'a Iterator \<Rightarrow> 'a list \<Rightarrow> bool" where
  "pulled a g xs \<longleftrightarrow> (case xs of [] \<Rightarrow> a = None \<and> g = Stop | x # xs' \<Rightarrow> a = Some x \<and> emits g xs' None)"

lemma pull_emits: "emits g xs None \<Longrightarrow> \<exists>a g'. pull g = Some (Inr (a, g')) \<and> pulled a g' xs"
  by (cases rule: emits.cases) (auto simp: pull_def pulled_def)

lemma bindP_Inr [simp]: "bindP (Some (Inr x)) f = f x"
  by (simp add: bindP_def)

lemma emits_cogroup_iter:
  "pulled a g1 xs \<Longrightarrow> pulled b g2 ys \<Longrightarrow> \<forall>k \<in> fst ` set xs \<union> fst ` set ys. \<exists>t. keyToken k = Inr t \<Longrightarrow>
     emits (cogroup_iter (a, g1, b, g2)) (cogroup_list xs ys) None"
proof (induction xs ys arbitrary: a g1 b g2 rule: cogroup_list.induct)
  case 1
  then show ?case by (subst cogroup_iter.code) (simp add: pulled_def cogroup_next_def)
next
  case (2 x xs)
  then have a: "a = Some x" "b = None" "emits g1 xs None" by (auto simp: pulled_def)
  obtain a' g1' where p: "pull g1 = Some (Inr (a', g1'))" "pulled a' g1' xs" using pull_emits [OF a(3)] by blast
  show ?case using "2.IH" [OF p(2) "2.prems"(2)] "2.prems"(3) a p(1)
    by (subst cogroup_iter.code) (simp add: cogroup_next_def)
next
  case (3 y ys)
  then have a: "a = None" "b = Some y" "emits g2 ys None" by (auto simp: pulled_def)
  obtain b' g2' where p: "pull g2 = Some (Inr (b', g2'))" "pulled b' g2' ys" using pull_emits [OF a(3)] by blast
  show ?case using "3.IH" [OF "3.prems"(1) p(2)] "3.prems"(3) a p(1)
    by (subst cogroup_iter.code) (simp add: cogroup_next_def)
next
  case (4 x xs y ys)
  then have a: "a = Some x" "b = Some y" "emits g1 xs None" "emits g2 ys None" by (auto simp: pulled_def)
  obtain a' g1' where p: "pull g1 = Some (Inr (a', g1'))" "pulled a' g1' xs" using pull_emits [OF a(3)] by blast
  obtain b' g2' where q: "pull g2 = Some (Inr (b', g2'))" "pulled b' g2' ys" using pull_emits [OF a(4)] by blast
  obtain tx ty where t: "keyToken (fst x) = Inr tx" "keyToken (fst y) = Inr ty" using "4.prems"(3) by auto
  then have tok: "token (fst x) = tx" "token (fst y) = ty" by (simp_all add: token_def)
  consider "fst x = fst y" | "fst x \<noteq> fst y" "tx < ty" | "fst x \<noteq> fst y" "\<not> tx < ty" by blast
  then show ?case
  proof cases
    case 1
    then show ?thesis using "4.IH"(1) [OF 1 p(2) q(2)] "4.prems"(3) a p(1) q(1)
      by (subst cogroup_iter.code) (simp add: cogroup_next_def)
  next
    case 2
    then show ?thesis using "4.IH"(2) [OF 2(1) _ p(2) "4.prems"(2)] "4.prems"(3) a p(1) t tok
      by (subst cogroup_iter.code) (simp add: cogroup_next_def)
  next
    case 3
    then show ?thesis using "4.IH"(3) [OF 3(1) _ "4.prems"(1) q(2)] "4.prems"(3) a q(1) t tok
      by (subst cogroup_iter.code) (simp add: cogroup_next_def)
  qed
qed

lemma emits_cogroup_compute:
  assumes "emits g1 xs None" and "emits g2 ys None" and "\<forall>k \<in> fst ` set xs \<union> fst ` set ys. \<exists>t. keyToken k = Inr t"
  shows "emits (cogroup_compute g1 g2) (cogroup_list xs ys) None"
proof -
  obtain a g1' where p: "pull g1 = Some (Inr (a, g1'))" "pulled a g1' xs" using pull_emits [OF assms(1)] by blast
  obtain b g2' where q: "pull g2 = Some (Inr (b, g2'))" "pulled b g2' ys" using pull_emits [OF assms(2)] by blast
  show ?thesis using emits_cogroup_iter [OF p(2) q(2) assms(3)] p(1) q(1) by (simp add: cogroup_compute_def)
qed

text \<open>The group of a key, empty when there is none.\<close>

definition group_of :: "'k \<Rightarrow> ('k \<times> 'v list) list \<Rightarrow> 'v list" where
  "group_of k gs = (case map_of gs k of None \<Rightarrow> [] | Some vs \<Rightarrow> vs)"

lemma group_of_simps [simp]:
  "group_of k [] = []"
  "group_of k (g # gs) = (if k = fst g then snd g else group_of k gs)"
  by (cases g; simp add: group_of_def)+

lemma group_of_notin: "k \<notin> fst ` set gs \<Longrightarrow> group_of k gs = []"
  by (induction gs) auto

lemma group_of_map: "group_of k (map (\<lambda>k. (k, f k)) ks) = (if k \<in> set ks then f k else [])"
  by (induction ks) auto

text \<open>Merging two runs of groups in token order: every key once, with its groups of both sides.\<close>

lemma cogroup_list_keys:
  fixes xs :: "(gokey \<times> 'v list) list" and ys :: "(gokey \<times> 'w list) list"
  assumes "sorted_wrt (\<lambda>a b. token a < token b) (map fst xs)" and "sorted_wrt (\<lambda>a b. token a < token b) (map fst ys)"
    and "inj_on token (fst ` set xs \<union> fst ` set ys)"
  shows "\<exists>ks. distinct ks \<and> set ks = fst ` set xs \<union> fst ` set ys \<and>
    cogroup_list xs ys = map (\<lambda>k. (k, group_of k xs, group_of k ys)) ks"
  using assms
proof (induction xs ys rule: cogroup_list.induct)
  case (2 x xs)
  then obtain ks where ks: "distinct ks" "set ks = fst ` set xs" "cogroup_list xs ([] :: (gokey \<times> 'w list) list) = map (\<lambda>k. (k, group_of k xs, [])) ks"
    by (auto simp: inj_on_def)
  moreover have "\<forall>k \<in> set ks. k \<noteq> fst x" using ks(2) "2.prems"(1) by auto
  ultimately show ?case by (intro exI [of _ "fst x # ks"]) (auto simp: image_iff)
next
  case (3 y ys)
  then obtain ks where ks: "distinct ks" "set ks = fst ` set ys" "cogroup_list ([] :: (gokey \<times> 'v list) list) ys = map (\<lambda>k. (k, [], group_of k ys)) ks"
    by (auto simp: inj_on_def)
  moreover have "\<forall>k \<in> set ks. k \<noteq> fst y" using ks(2) "3.prems"(2) by auto
  ultimately show ?case by (intro exI [of _ "fst y # ks"]) (auto simp: image_iff)
next
  case (4 x xs y ys)
  have inj: "token (fst x) = token (fst y) \<Longrightarrow> fst x = fst y" by (rule inj_onD [OF "4.prems"(3)]) auto
  have above: "\<forall>k \<in> fst ` set xs. token (fst x) < token k" "\<forall>k \<in> fst ` set ys. token (fst y) < token k"
    using "4.prems"(1,2) by auto
  consider (same) "fst x = fst y" | (left) "fst x \<noteq> fst y" "token (fst x) < token (fst y)"
    | (right) "fst x \<noteq> fst y" "\<not> token (fst x) < token (fst y)" by blast
  then show ?case
  proof cases
    case same
    have "inj_on token (fst ` set xs \<union> fst ` set ys)" by (rule inj_on_subset [OF "4.prems"(3)]) auto
    then obtain ks where ks: "distinct ks" "set ks = fst ` set xs \<union> fst ` set ys"
      "cogroup_list xs ys = map (\<lambda>k. (k, group_of k xs, group_of k ys)) ks"
      using "4.IH"(1) [OF same] "4.prems"(1,2) by auto
    have "fst x \<notin> set ks" using ks(2) above same by auto
    then show ?thesis using ks same by (intro exI [of _ "fst x # ks"]) auto
  next
    case left
    have "inj_on token (fst ` set xs \<union> fst ` set (y # ys))" by (rule inj_on_subset [OF "4.prems"(3)]) auto
    then obtain ks where ks: "distinct ks" "set ks = fst ` set xs \<union> fst ` set (y # ys)"
      "cogroup_list xs (y # ys) = map (\<lambda>k. (k, group_of k xs, group_of k (y # ys))) ks"
      using "4.IH"(2) [OF left] "4.prems"(1,2) by auto
    have no: "fst x \<notin> set ks" "fst x \<notin> fst ` set (y # ys)" using ks(2) above left by force+
    show ?thesis using ks left no group_of_notin [OF no(2)] by (intro exI [of _ "fst x # ks"]) auto
  next
    case right
    then have lt: "token (fst y) < token (fst x)" using inj by force
    have "inj_on token (fst ` set (x # xs) \<union> fst ` set ys)" by (rule inj_on_subset [OF "4.prems"(3)]) auto
    then obtain ks where ks: "distinct ks" "set ks = fst ` set (x # xs) \<union> fst ` set ys"
      "cogroup_list (x # xs) ys = map (\<lambda>k. (k, group_of k (x # xs), group_of k ys)) ks"
      using "4.IH"(3) [OF right] "4.prems"(1,2) by auto
    have no: "fst y \<notin> set ks" "fst y \<notin> fst ` set (x # xs)" using ks(2) above lt by force+
    show ?thesis using ks right no group_of_notin [OF no(2)] by (intro exI [of _ "fst y # ks"]) auto
  qed
qed simp

section \<open>Expansion of a group\<close>

lemma grid_iter_Stop [simp]: "n \<le> i \<Longrightarrow> grid_iter n m out i j = Stop"
  by (subst grid_iter.code) simp

lemma emits_grid_iter:
  assumes "0 < m" and "j < m"
  shows "i < n \<Longrightarrow> emits (grid_iter n m out i j)
    (map (out i) [j..<m] @ concat (map (\<lambda>i. map (out i) [0..<m]) [Suc i..<n])) None"
  using assms
proof (induction "(n - i) * m - j" arbitrary: i j rule: less_induct)
  case less
  show ?case
  proof (cases "Suc j = m")
    case True
    show ?thesis
    proof (cases "Suc i < n")
      case t: True
      have "(n - Suc i) * m < (n - i) * m - j"
        using less.prems True t by (simp add: Suc_diff_Suc [symmetric] diff_Suc_Suc)
      from less.hyps [of "Suc i" 0] this t less.prems
      have "emits (grid_iter n m out (Suc i) 0) (map (out (Suc i)) [0..<m] @ concat (map (\<lambda>i. map (out i) [0..<m]) [Suc (Suc i)..<n])) None"
        by simp
      then show ?thesis using True t less.prems by (subst grid_iter.code) (simp add: upt_rec [of j m] upt_rec [of "Suc i" n])
    next
      case False
      then show ?thesis using True less.prems by (subst grid_iter.code) (simp add: upt_rec [of j m])
    qed
  next
    case False
    have "0 < (n - i) * m - j" using less.prems by (cases "n - i") auto
    then have "(n - i) * m - Suc j < (n - i) * m - j" by simp
    with less.hyps [of i "Suc j"] less.prems False
    have "emits (grid_iter n m out i (Suc j)) (map (out i) [Suc j..<m] @ concat (map (\<lambda>i. map (out i) [0..<m]) [Suc i..<n])) None"
      by simp
    then show ?thesis using False less.prems by (subst grid_iter.code) (simp add: upt_rec [of j m])
  qed
qed

lemma emits_grid:
  assumes "0 < m"
  shows "emits (grid_iter n m out 0 0) (concat (map (\<lambda>i. map (out i) [0..<m]) [0..<n])) None"
proof (cases n)
  case (Suc n')
  then have "[0..<n] = 0 # [Suc 0..<n]" by (simp add: upt_conv_Cons del: upt_Suc)
  then show ?thesis using emits_grid_iter [OF assms assms, of 0 n out] Suc by (simp del: upt_Suc)
qed simp

lemma map_over_nth: "map (\<lambda>i. f (xs ! i)) [0..<length xs] = map f xs"
  by (rule nth_equalityI) simp_all

lemma concat_over_nth: "concat (map (\<lambda>i. f (xs ! i)) [0..<length xs]) = concat (map f xs)"
  by (simp add: map_over_nth)

text \<open>One left record against the matching right values.\<close>

definition inner_row :: "'w list \<Rightarrow> 'k \<Rightarrow> 'v \<Rightarrow> ('k \<times> 'v \<times> 'w) list" where
  "inner_row ws k v = map (\<lambda>w. (k, v, w)) ws"

definition outer_row :: "'w list \<Rightarrow> 'k \<Rightarrow> 'v \<Rightarrow> ('k \<times> 'v \<times> 'w option) list" where
  "outer_row ws k v = (if ws = [] then [(k, v, None)] else map (\<lambda>w. (k, v, Some w)) ws)"

lemma emits_join_expand: "emits (join_expand (k, vs, ws)) (concat (map (inner_row ws k) vs)) None"
proof (cases "ws = []")
  case True
  then show ?thesis by (induction vs) (simp_all add: join_expand_def inner_row_def)
next
  case False
  then show ?thesis
    using emits_grid [of "length ws" "length vs" "\<lambda>i j. (k, vs ! i, ws ! j)"]
      concat_over_nth [of "\<lambda>v. map (\<lambda>w. (k, v, w)) ws" vs]
    by (simp add: join_expand_def inner_row_def [abs_def] map_over_nth [of "\<lambda>w. (k, _, w)"])
qed

lemma emits_outer_rows:
  fixes f :: "'u \<Rightarrow> 'v" and ws :: "'w list"
  shows "emits (grid_iter (length us) (if ws = [] then 1 else length ws)
      (\<lambda>i j. (k, f (us ! i), if ws = [] then None else Some (ws ! j))) 0 0) (concat (map (\<lambda>u. outer_row ws k (f u)) us)) None"
proof (cases "ws = []")
  case True
  then show ?thesis
    using emits_grid [of 1 "length us" "\<lambda>i j. (k, f (us ! i), None :: 'w option)"]
      concat_over_nth [of "\<lambda>u. [(k, f u, None :: 'w option)]" us]
    by (simp add: outer_row_def [abs_def])
next
  case False
  then show ?thesis
    using emits_grid [of "length ws" "length us" "\<lambda>i j. (k, f (us ! i), Some (ws ! j))"]
      concat_over_nth [of "\<lambda>u. map (\<lambda>w. (k, f u, Some w)) ws" us]
    by (simp add: outer_row_def [abs_def] map_over_nth [of "\<lambda>w. (k, _, Some w)"])
qed

lemma emits_left_expand: "emits (left_expand (k, vs, ws)) (concat (map (outer_row ws k) vs)) None"
  using emits_outer_rows [of vs ws k "\<lambda>v. v"] by (simp add: left_expand_def)

definition unmatched_row :: "'v list \<Rightarrow> 'k \<Rightarrow> 'w \<Rightarrow> ('k \<times> 'v option \<times> 'w option) list" where
  "unmatched_row vs k w = (if vs = [] then [(k, None, Some w)] else [])"

lemma emits_full_expand:
  fixes vs :: "'v list" and ws :: "'w list"
  shows "emits (full_expand (k, vs, ws))
     (concat (map (\<lambda>v. outer_row ws k (Some v)) vs) @ concat (map (unmatched_row vs k) ws)) None"
proof (cases "vs = []")
  case True
  then show ?thesis
    using emits_grid [of 1 "length ws" "\<lambda>i j. (k, None :: 'v option, Some (ws ! i))"]
      concat_over_nth [of "\<lambda>w. [(k, None :: 'v option, Some w)]" ws]
    by (simp add: full_expand_def unmatched_row_def [abs_def])
next
  case False
  then have "concat (map (unmatched_row vs k) ws) = []" by (simp add: unmatched_row_def)
  then show ?thesis using False emits_outer_rows [of vs ws k Some]
    by (simp only: full_expand_def prod.case if_False append_Nil2)
qed

lemma emits_subtract_expand:
  "emits (subtract_expand (k, vs, ws)) (concat (map (\<lambda>v. if ws = [] then [(k, v)] else []) vs)) None"
proof (cases "ws = []")
  case True
  have "map (Pair k) vs = concat (map (\<lambda>v. [(k, v)]) vs)" by (induction vs) simp_all
  then show ?thesis using True emits_MapIterator [OF emits_SliceIterator, of vs "Pair k"] by (simp add: subtract_expand_def)
next
  case False
  then have "concat (map (\<lambda>v. if ws = [] then [(k, v)] else []) vs) = []" by simp
  then show ?thesis using False by (simp only: subtract_expand_def prod.case simp_thms if_True emits_EmptyIterator)
qed

text \<open>Going through the records is going through their keys and, for each, through its values.\<close>

lemma mset_by_key:
  assumes "distinct ks" and "fst ` set xs \<subseteq> set ks"
  shows "mset (concat (map (\<lambda>k. concat (map (g k) (values_of k xs))) ks)) = mset (concat (map (\<lambda>(k, v). g k v) xs))"
proof -
  have sums: "mset (concat (map f ks)) = (\<Sum>k \<in> set ks. mset (f k))" for f :: "'a \<Rightarrow> 'c list"
    using assms(1) by (simp add: mset_concat comp_def sum_list_distinct_conv_sum_set)
  have "(\<Sum>k \<in> set ks. mset (concat (map (g k) (values_of k xs)))) = mset (concat (map (\<lambda>(k, v). g k v) xs))"
    using assms(2)
  proof (induction xs)
    case (Cons x xs)
    have "(\<Sum>k \<in> set ks. mset (concat (map (g k) (values_of k (x # xs))))) =
        (\<Sum>k \<in> set ks. (if k = fst x then mset (g k (snd x)) else {#}) + mset (concat (map (g k) (values_of k xs))))"
      by (rule sum.cong) (auto simp: values_of_def)
    also have "\<dots> = mset (g (fst x) (snd x)) + (\<Sum>k \<in> set ks. mset (concat (map (g k) (values_of k xs))))"
      using Cons.prems by (simp add: sum.distrib sum.delta')
    finally show ?case using Cons by (simp add: split_beta)
  qed simp
  then show ?thesis by (simp only: sums)
qed

lemma mset_concat_append:
  "mset (concat (map (\<lambda>k. f k @ g k) ks)) = mset (concat (map f ks)) + mset (concat (map g ks))"
  by (induction ks) simp_all

section \<open>The collected joins\<close>

text \<open>
  The two sides of a join: their records, what the reducers read, and that they can sort and hold
  the groups.
\<close>

definition side_ok ::
  "('v, 'v) reduce_env \<Rightarrow> (gokey \<times> 'v) RDD_of \<Rightarrow> (gokey \<times> 'v) list list \<Rightarrow> Partitioner \<Rightarrow> (nat \<Rightarrow> (gokey \<times> 'v) recordStream) \<Rightarrow> bool" where
  "side_ok re rdd xss p read \<longleftrightarrow> runs_shuffle rdd xss (=) xss p read \<and> sortable re (concat xss) \<and>
     (\<forall>v \<in> snd ` set (concat xss). \<exists>b. re_encode re v = Inr b) \<and>
     (\<forall>k. group_size (re_encode re) (values_of k (concat xss)) \<le> re_groupBytes re)"

lemma side_ok_groups:
  assumes "side_ok re rdd xss p read" and "r < nat (NumPartitions p)"
  defines "ks \<equiv> group_keys (reducer_records p xss r)"
  shows "emits (groupShuffleRead re (read r)) (map (\<lambda>k. (k, values_of k (concat xss))) ks) None"
    and "sorted_wrt (\<lambda>a b. token a < token b) ks"
    and "set ks = {k \<in> fst ` set (concat xss). GetPartition p k = Inr (int r)}"
proof -
  let ?xs = "reducer_records p xss r"
  have s: "sortable re ?xs" "keys_ok (map fst (concat xss))" "read r = (?xs, None)"
    using assms(1,2) sortable_filter [of re "concat xss" "\<lambda>kv. GetPartition p (fst kv) = Inr (int r)"]
    by (simp_all add: side_ok_def runs_shuffle_def delivered_def reducer_records_def sortable_def [of re "concat xss"] del: filter_concat)
  show set_ks: "set ks = {k \<in> fst ` set (concat xss). GetPartition p k = Inr (int r)}"
    unfolding ks_def by (rule reducer_group_keys(2) [OF s(2)])
  show "sorted_wrt (\<lambda>a b. token a < token b) ks"
    unfolding ks_def using s(1) by (intro group_keys_sorted) (simp add: sortable_def)
  have "emits (groupShuffleRead re (?xs, None)) (map (\<lambda>k. (k, values_of k ?xs)) ks) None"
    unfolding ks_def
  proof (rule emits_groups [OF s(1)])
    show "\<forall>v \<in> snd ` set ?xs. \<exists>b. re_encode re v = Inr b"
      using assms(1) by (fastforce simp: side_ok_def reducer_records_def)
    show "group_size (re_encode re) (values_of k ?xs) \<le> re_groupBytes re" if k: "k \<in> fst ` set ?xs" for k
    proof -
      have "GetPartition p k = Inr (int r)" using k keys_of_reducer by blast
      then show ?thesis using assms(1) by (simp add: values_of_reducer side_ok_def)
    qed
  qed
  moreover have "map (\<lambda>k. (k, values_of k ?xs)) ks = map (\<lambda>k. (k, values_of k (concat xss))) ks"
    using set_ks by (simp add: values_of_reducer)
  ultimately show "emits (groupShuffleRead re (read r)) (map (\<lambda>k. (k, values_of k (concat xss))) ks) None"
    using s(3) by simp
qed

definition join_ok ::
  "('v, 'w) cogroup_env \<Rightarrow> (gokey \<times> 'v) RDD_of \<Rightarrow> (gokey \<times> 'w) RDD_of \<Rightarrow> Partitioner
     \<Rightarrow> (gokey \<times> 'v) list list \<Rightarrow> (gokey \<times> 'w) list list \<Rightarrow> bool" where
  "join_ok ce rdd1 rdd2 p xss yss \<longleftrightarrow> 0 < NumPartitions p \<and>
     side_ok (ce_left ce) rdd1 xss p (ce_read1 ce) \<and> side_ok (ce_right ce) rdd2 yss p (ce_read2 ce) \<and>
     keys_ok (map fst (concat xss) @ map fst (concat yss))"

text \<open>Partition \<open>r\<close> of the cogroup: the keys of reducer \<open>r\<close> with their values of both sides.\<close>

lemma emits_Cogroup:
  assumes "join_ok ce rdd1 rdd2 p xss yss" and r: "r < nat (NumPartitions p)"
  shows "\<exists>ks. distinct ks \<and> set ks = {k \<in> fst ` set (concat xss) \<union> fst ` set (concat yss). GetPartition p k = Inr (int r)} \<and>
    emits (rd_compute (Cogroup ce rdd1 rdd2 p) (basePartition (int r)))
      (map (\<lambda>k. (k, values_of k (concat xss), values_of k (concat yss))) ks) None"
proof -
  have a: "side_ok (ce_left ce) rdd1 xss p (ce_read1 ce)" and b: "side_ok (ce_right ce) rdd2 yss p (ce_read2 ce)"
    and keys: "keys_ok (map fst (concat xss) @ map fst (concat yss))"
    using assms(1) by (simp_all add: join_ok_def)
  define ks1 ks2 where "ks1 = group_keys (reducer_records p xss r)" and "ks2 = group_keys (reducer_records p yss r)"
  note g1 = side_ok_groups [OF a r, folded ks1_def] and g2 = side_ok_groups [OF b r, folded ks2_def]
  let ?g1 = "map (\<lambda>k. (k, values_of k (concat xss))) ks1" and ?g2 = "map (\<lambda>k. (k, values_of k (concat yss))) ks2"
  have fst_g: "fst ` set ?g1 = set ks1" "fst ` set ?g2 = set ks2" by force+
  have sub: "set ks1 \<union> set ks2 \<subseteq> set (map fst (concat xss) @ map fst (concat yss))"
    unfolding g1(3) g2(3) by auto
  have tok: "\<forall>k \<in> set ks1 \<union> set ks2. \<exists>t. keyToken k = Inr t"
    using keys sub unfolding keys_ok_def token_error_None by blast
  have inj: "inj_on token (set ks1 \<union> set ks2)" by (rule inj_on_subset [OF keys_ok_inj [OF keys] sub])
  have fsts: "map fst ?g1 = ks1" "map fst ?g2 = ks2" by (simp_all add: comp_def)
  obtain ks where ks: "distinct ks" "set ks = set ks1 \<union> set ks2"
    "cogroup_list ?g1 ?g2 = map (\<lambda>k. (k, group_of k ?g1, group_of k ?g2)) ks"
    using cogroup_list_keys [of ?g1 ?g2] g1(2) g2(2) inj unfolding fst_g fsts by blast
  have vals: "group_of k ?g1 = values_of k (concat xss)" "group_of k ?g2 = values_of k (concat yss)"
    if "k \<in> set ks" for k
    using that ks(2) values_of_eq_Nil [of k "concat xss"] values_of_eq_Nil [of k "concat yss"]
    by (auto simp: group_of_map g1(3) g2(3))
  have "emits (cogroup_compute (groupShuffleRead (ce_left ce) (ce_read1 ce r)) (groupShuffleRead (ce_right ce) (ce_read2 ce r))) (cogroup_list ?g1 ?g2) None"
    using emits_cogroup_compute [OF g1(1) g2(1)] tok unfolding fst_g by blast
  moreover have "cogroup_list ?g1 ?g2 = map (\<lambda>k. (k, values_of k (concat xss), values_of k (concat yss))) ks"
    unfolding ks(3) using vals by (intro map_cong) simp_all
  ultimately have "emits (rd_compute (Cogroup ce rdd1 rdd2 p) (basePartition (int r)))
      (map (\<lambda>k. (k, values_of k (concat xss), values_of k (concat yss))) ks) None"
    by (simp add: Cogroup_def Let_def GroupByKey_def shuffled_def split_beta)
  then show ?thesis using ks(1,2) g1(3) g2(3) by (intro exI [of _ ks]) auto
qed

text \<open>All partitions of the cogroup together: every key of either side once.\<close>

lemma contents_Cogroup:
  assumes ok: "join_ok ce rdd1 rdd2 p xss yss"
  shows "\<exists>kss. distinct (concat kss) \<and> set (concat kss) = fst ` set (concat xss) \<union> fst ` set (concat yss) \<and>
    contents (Cogroup ce rdd1 rdd2 p) (map (map (\<lambda>k. (k, values_of k (concat xss), values_of k (concat yss)))) kss)"
proof -
  let ?K = "fst ` set (concat xss) \<union> fst ` set (concat yss)" and ?n = "nat (NumPartitions p)"
  have p: "0 < NumPartitions p" using ok by (simp add: join_ok_def)
  let ?good = "\<lambda>r ks. distinct ks \<and> set ks = {k \<in> ?K. GetPartition p k = Inr (int r)} \<and> (r < ?n \<longrightarrow>
      emits (rd_compute (Cogroup ce rdd1 rdd2 p) (basePartition (int r)))
        (map (\<lambda>k. (k, values_of k (concat xss), values_of k (concat yss))) ks) None)"
  have "\<exists>ks. ?good r ks" for r
  proof (cases "r < ?n")
    case True
    then show ?thesis using emits_Cogroup [OF ok True] by blast
  next
    case False
    have "finite {k \<in> ?K. GetPartition p k = Inr (int r)}" by simp
    from finite_distinct_list [OF this] show ?thesis using False by blast
  qed
  then have "\<exists>kf. \<forall>r. ?good r (kf r)" by (intro choice allI)
  then obtain kf where "\<forall>r. ?good r (kf r)" by blast
  then have kf: "distinct (kf r)" "set (kf r) = {k \<in> ?K. GetPartition p k = Inr (int r)}"
    "r < ?n \<Longrightarrow> emits (rd_compute (Cogroup ce rdd1 rdd2 p) (basePartition (int r)))
      (map (\<lambda>k. (k, values_of k (concat xss), values_of k (concat yss))) (kf r)) None" for r by blast+
  have "rd_parts (Cogroup ce rdd1 rdd2 p) = NewPartitions ?n" by (simp add: Cogroup_def Let_def split_beta)
  then have "contents (Cogroup ce rdd1 rdd2 p)
      (map (map (\<lambda>k. (k, values_of k (concat xss), values_of k (concat yss)))) (map kf [0..<?n]))"
    using kf(3) by (simp add: contents_def list_all2_conv_all_nth nth_NewPartitions)
  then show ?thesis using partitioned_keys [of p kf ?K, OF p kf(1,2)] by (intro exI [of _ "map kf [0..<?n]"]) blast
qed

lemma concat_rows: "concat (map (\<lambda>ks. concat (map f ks)) kss) = concat (map f (concat kss))"
  by (induction kss) simp_all

text \<open>What a join collects: the expansion of every key's groups.\<close>

lemma contents_expanded:
  assumes ok: "join_ok ce rdd1 rdd2 p xss yss"
    and expand: "\<And>k vs ws. emits (expand (k, vs, ws)) (rows k vs ws) None"
  shows "\<exists>ks zss. distinct ks \<and> set ks = fst ` set (concat xss) \<union> fst ` set (concat yss) \<and>
    contents (MapPartitions i (Cogroup ce rdd1 rdd2 p) (\<lambda>gs. expandIterator gs expand) pp) zss \<and>
    concat zss = concat (map (\<lambda>k. rows k (values_of k (concat xss)) (values_of k (concat yss))) ks)"
proof -
  obtain kss where kss: "distinct (concat kss)" "set (concat kss) = fst ` set (concat xss) \<union> fst ` set (concat yss)"
    "contents (Cogroup ce rdd1 rdd2 p) (map (map (\<lambda>k. (k, values_of k (concat xss), values_of k (concat yss)))) kss)"
    using contents_Cogroup [OF ok] by blast
  let ?zss = "map (\<lambda>gs. concat (map (\<lambda>(k, vs, ws). rows k vs ws) gs))
    (map (map (\<lambda>k. (k, values_of k (concat xss), values_of k (concat yss)))) kss)"
  have "emits (expandIterator it expand) (concat (map (\<lambda>(k, vs, ws). rows k vs ws) gs)) None" if "emits it gs None" for it gs
    by (rule emits_expandIterator [OF that]) (use expand in auto)
  then have "contents (MapPartitions i (Cogroup ce rdd1 rdd2 p) (\<lambda>gs. expandIterator gs expand) pp) ?zss"
    by (intro contents_MapPartitions [OF kss(3)])
  moreover have "concat ?zss = concat (map (\<lambda>k. rows k (values_of k (concat xss)) (values_of k (concat yss))) (concat kss))"
    by (simp add: comp_def concat_rows)
  ultimately show ?thesis using kss(1,2) by blast
qed

section \<open>Properties of the joins\<close>

text \<open>The relational joins of two lists of records.\<close>

definition inner_join :: "('k \<times> 'v) list \<Rightarrow> ('k \<times> 'w) list \<Rightarrow> ('k \<times> 'v \<times> 'w) list" where
  "inner_join xs ys = [(k, v, w). (k, v) \<leftarrow> xs, (k', w) \<leftarrow> ys, k' = k]"

definition left_join :: "('k \<times> 'v) list \<Rightarrow> ('k \<times> 'w) list \<Rightarrow> ('k \<times> 'v \<times> 'w option) list" where
  "left_join xs ys = [(k, v, Some w). (k, v, w) \<leftarrow> inner_join xs ys] @ [(k, v, None). (k, v) \<leftarrow> xs, k \<notin> fst ` set ys]"

definition full_join :: "('k \<times> 'v) list \<Rightarrow> ('k \<times> 'w) list \<Rightarrow> ('k \<times> 'v option \<times> 'w option) list" where
  "full_join xs ys = [(k, Some v, w). (k, v, w) \<leftarrow> left_join xs ys] @ [(k, None, Some w). (k, w) \<leftarrow> ys, k \<notin> fst ` set xs]"

definition anti_join :: "('k \<times> 'v) list \<Rightarrow> ('k \<times> 'w) list \<Rightarrow> ('k \<times> 'v) list" where
  "anti_join xs ys = filter (\<lambda>(k, v). k \<notin> fst ` set ys) xs"

lemma inner_join_rows: "inner_join xs ys = concat (map (\<lambda>(k, v). inner_row (values_of k ys) k v) xs)"
proof -
  have "concat (map (\<lambda>(k', w). if k' = k then [(k, v, w)] else []) ys) = inner_row (values_of k ys) k v" for k :: 'a and v :: 'b
    by (induction ys) (auto simp: inner_row_def)
  then show ?thesis by (simp add: inner_join_def)
qed

lemma left_join_rows: "mset (left_join xs ys) = mset (concat (map (\<lambda>(k, v). outer_row (values_of k ys) k v) xs))"
proof (induction xs)
  case (Cons x xs)
  have "mset (outer_row (values_of (fst x) ys) (fst x) (snd x)) =
      mset (map (\<lambda>(k, v, w). (k, v, Some w)) (inner_row (values_of (fst x) ys) (fst x) (snd x)) @
        (if fst x \<notin> fst ` set ys then [(fst x, snd x, None)] else []))"
    using values_of_eq_Nil [of "fst x" ys] by (simp add: outer_row_def inner_row_def comp_def)
  then show ?case using Cons by (simp add: left_join_def inner_join_rows split_beta)
qed (simp add: left_join_def inner_join_def)

lemma full_join_rows:
  "mset (full_join xs ys) = mset (concat (map (\<lambda>(k, v). outer_row (values_of k ys) k (Some v)) xs)) +
     mset (concat (map (\<lambda>(k, w). unmatched_row (values_of k xs) k w) ys))"
proof -
  have some: "map (\<lambda>(k, v, w). (k, Some v, w)) (concat (map (\<lambda>(k, v). outer_row (values_of k ys) k v) xs)) =
      concat (map (\<lambda>(k, v). outer_row (values_of k ys) k (Some v)) xs)"
    by (induction xs) (auto simp: outer_row_def)
  have none: "[(k, None, Some w). (k, w) \<leftarrow> ys, k \<notin> fst ` set xs] = concat (map (\<lambda>(k, w). unmatched_row (values_of k xs) k w) ys)"
    by (rule arg_cong [where f = concat], rule map_cong) (auto simp: unmatched_row_def values_of_eq_Nil)
  have "mset (map (\<lambda>(k, v, w). (k, Some v, w)) (left_join xs ys)) =
      mset (concat (map (\<lambda>(k, v). outer_row (values_of k ys) k (Some v)) xs))"
    unfolding some [symmetric] mset_map left_join_rows ..
  then show ?thesis by (simp add: full_join_def none)
qed

text \<open>An RDD whose partitions all end well and hold together the records \<open>xs\<close>, in some order.\<close>

definition collects :: "'a RDD_of \<Rightarrow> 'a list \<Rightarrow> bool" where
  "collects rdd xs \<longleftrightarrow> (\<exists>zss. contents rdd zss \<and> Collect_rdd rdd = Some (Inr (concat zss)) \<and> mset (concat zss) = mset xs)"

lemma collectsI: "contents rdd zss \<Longrightarrow> mset (concat zss) = mset xs \<Longrightarrow> collects rdd xs"
  using Collect_contents [of rdd zss] by (auto simp: collects_def)

lemma collects_join:
  assumes ok: "join_ok ce rdd1 rdd2 p xss yss"
  shows "collects (NewJoinRDD ce i rdd1 rdd2 p) (inner_join (concat xss) (concat yss))"
proof -
  obtain ks zss where ks: "distinct ks" "set ks = fst ` set (concat xss) \<union> fst ` set (concat yss)"
    "contents (NewJoinRDD ce i rdd1 rdd2 p) zss"
    "concat zss = concat (map (\<lambda>k. concat (map (inner_row (values_of k (concat yss)) k) (values_of k (concat xss)))) ks)"
    using contents_expanded [OF ok, where expand = join_expand and i = i and pp = False
        and rows = "\<lambda>k vs ws. concat (map (inner_row ws k) vs)", OF emits_join_expand]
    unfolding NewJoinRDD_def by blast
  show ?thesis
    using ks mset_by_key [of ks "concat xss" "\<lambda>k. inner_row (values_of k (concat yss)) k"]
    by (intro collectsI [OF ks(3)]) (simp add: inner_join_rows)
qed

lemma collects_left_join:
  assumes ok: "join_ok ce rdd1 rdd2 p xss yss"
  shows "collects (NewLeftOuterJoinRDD ce i rdd1 rdd2 p) (left_join (concat xss) (concat yss))"
proof -
  obtain ks zss where ks: "distinct ks" "set ks = fst ` set (concat xss) \<union> fst ` set (concat yss)"
    "contents (NewLeftOuterJoinRDD ce i rdd1 rdd2 p) zss"
    "concat zss = concat (map (\<lambda>k. concat (map (outer_row (values_of k (concat yss)) k) (values_of k (concat xss)))) ks)"
    using contents_expanded [OF ok, where expand = left_expand and i = i and pp = False
        and rows = "\<lambda>k vs ws. concat (map (outer_row ws k) vs)", OF emits_left_expand]
    unfolding NewLeftOuterJoinRDD_def by blast
  show ?thesis
    using ks mset_by_key [of ks "concat xss" "\<lambda>k. outer_row (values_of k (concat yss)) k"]
    by (intro collectsI [OF ks(3)]) (simp add: left_join_rows)
qed

lemma collects_full_join:
  assumes ok: "join_ok ce rdd1 rdd2 p xss yss"
  shows "collects (NewFullOuterJoinRDD ce i rdd1 rdd2 p) (full_join (concat xss) (concat yss))"
proof -
  let ?xs = "concat xss" and ?ys = "concat yss"
  obtain ks zss where ks: "distinct ks" "set ks = fst ` set ?xs \<union> fst ` set ?ys"
    "contents (NewFullOuterJoinRDD ce i rdd1 rdd2 p) zss"
    "concat zss = concat (map (\<lambda>k. concat (map (\<lambda>v. outer_row (values_of k ?ys) k (Some v)) (values_of k ?xs)) @
        concat (map (unmatched_row (values_of k ?xs) k) (values_of k ?ys))) ks)"
    using contents_expanded [OF ok, where expand = full_expand and i = i and pp = True
        and rows = "\<lambda>k vs ws. concat (map (\<lambda>v. outer_row ws k (Some v)) vs) @ concat (map (unmatched_row vs k) ws)",
        OF emits_full_expand]
    unfolding NewFullOuterJoinRDD_def by blast
  show ?thesis
    using ks mset_by_key [of ks ?xs "\<lambda>k v. outer_row (values_of k ?ys) k (Some v)"]
      mset_by_key [of ks ?ys "\<lambda>k. unmatched_row (values_of k ?xs) k"]
    by (intro collectsI [OF ks(3)]) (simp add: full_join_rows mset_concat_append)
qed

lemma anti_join_rows: "concat (map (\<lambda>(k, v). if values_of k ys = [] then [(k, v)] else []) xs) = anti_join xs ys"
  by (induction xs) (simp_all add: anti_join_def values_of_eq_Nil split_beta)

lemma collects_anti_join:
  assumes ok: "join_ok ce rdd1 rdd2 p xss yss"
  shows "collects (NewSubtractByKeyRDD ce i rdd1 rdd2 p) (anti_join (concat xss) (concat yss))"
proof -
  let ?row = "\<lambda>k v. if values_of k (concat yss) = [] then [(k, v)] else []"
  obtain ks zss where ks: "distinct ks" "set ks = fst ` set (concat xss) \<union> fst ` set (concat yss)"
    "contents (NewSubtractByKeyRDD ce i rdd1 rdd2 p) zss"
    "concat zss = concat (map (\<lambda>k. concat (map (?row k) (values_of k (concat xss)))) ks)"
    using contents_expanded [OF ok, where expand = subtract_expand and i = i and pp = True
        and rows = "\<lambda>k vs ws. concat (map (\<lambda>v. if ws = [] then [(k, v)] else []) vs)", OF emits_subtract_expand]
    unfolding NewSubtractByKeyRDD_def by blast
  show ?thesis
    using ks mset_by_key [of ks "concat xss" ?row] anti_join_rows [of "concat yss" "concat xss"]
    by (intro collectsI [OF ks(3)]) simp
qed

lemma collects_Map:
  assumes "collects rdd xs"
  shows "collects (Map_rdd i rdd f) (map f xs)"
proof -
  obtain zss where z: "contents rdd zss" "mset (concat zss) = mset xs" using assms by (auto simp: collects_def)
  then have "mset (concat (map (map f) zss)) = mset (map f xs)" by (simp add: map_concat [symmetric])
  then show ?thesis by (rule collectsI [OF map_op.op_contents [OF z(1)]])
qed

text \<open>
  C4: Collecting a join yields exactly the records of the relational join of the two inputs, each
  as often as it is due: the inner join every pair of values of a common key, the left, right and
  full outer joins also every record without a match, and \<open>SubtractByKey\<close> the left records whose key
  is absent on the right.
\<close>

theorem joins_relational:
  assumes "join_ok ce rdd1 rdd2 p xss yss"
  shows "collects (NewJoinRDD ce i rdd1 rdd2 p) (inner_join (concat xss) (concat yss)) \<and>
    collects (NewLeftOuterJoinRDD ce i rdd1 rdd2 p) (left_join (concat xss) (concat yss)) \<and>
    collects (NewRightOuterJoinRDD ce i j rdd2 rdd1 p) (map (\<lambda>(k, w, v). (k, v, w)) (left_join (concat xss) (concat yss))) \<and>
    collects (NewFullOuterJoinRDD ce i rdd1 rdd2 p) (full_join (concat xss) (concat yss)) \<and>
    collects (NewSubtractByKeyRDD ce i rdd1 rdd2 p) (anti_join (concat xss) (concat yss))"
  using collects_join [OF assms] collects_left_join [OF assms] collects_full_join [OF assms] collects_anti_join [OF assms]
    collects_Map [OF collects_left_join [OF assms]] unfolding NewRightOuterJoinRDD_def by blast

definition pair_env :: "(byte, byte) reduce_env" where
  "pair_env = \<lparr>re_sorter = byte_pair_sorter, re_encode = byteEncode, re_groupBytes = 100\<rparr>"

definition one_part :: "'a list \<Rightarrow> 'a RDD_of" where
  "one_part xs = NewRDD 0 (NewPartitions 1) [] (\<lambda>_. SliceIterator xs) None"

definition pair_join_env :: "Partitioner \<Rightarrow> (gokey \<times> byte) list \<Rightarrow> (gokey \<times> byte) list \<Rightarrow> (byte, byte) cogroup_env" where
  "pair_join_env p xs ys = \<lparr>ce_left = pair_env, ce_right = pair_env, ce_ids = (1, 2, 3), ce_shuffles = (0, 1),
     ce_read1 = \<lambda>r. (reducer_records p [xs] r, None), ce_read2 = \<lambda>r. (reducer_records p [ys] r, None)\<rparr>"

lemma pair_side_ok:
  assumes "\<forall>p \<in> set xs. fst p = BoolKey True \<or> fst p = BoolKey False" and "length xs \<le> 2"
  shows "side_ok pair_env (one_part xs) [xs] p (\<lambda>r. (reducer_records p [xs] r, None))"
proof -
  have size: "group_size byteEncode vs = 33 * length vs" for vs by (induction vs) (simp_all add: byteEncode_def)
  have "length (values_of k xs) \<le> 2" for k
    using order_trans [OF length_filter_le assms(2), of "\<lambda>p. fst p = k"] by (simp add: values_of_def)
  then have "group_size byteEncode (values_of k xs) \<le> 100" for k
    using size [of "values_of k xs"] by (simp add: order_trans [of _ 66])
  moreover have "keys_ok (map fst xs)"
    by (rule keys_ok_subset [of "[BoolKey True, BoolKey False]"]) (use assms(1) in \<open>auto simp: keys_ok_def\<close>)
  then have "sortable pair_env xs"
    using assms byte_pair_sorter_ok
    by (fastforce simp: sortable_def pair_env_def list_all_iff admissible_def byte_pair_sorter_def
        byte_pair_codec_enc_def)
  moreover have "contents (one_part xs) [xs]" by (simp add: one_part_def contents_def NewPartitions_def emits_SliceIterator)
  ultimately show ?thesis
    by (simp add: side_ok_def runs_shuffle_def delivered_def) (simp add: pair_env_def byteEncode_def)
qed

theorem joins_relational_witness:
  "\<exists>zs. Collect_rdd (NewFullOuterJoinRDD (pair_join_env (HashPartitioner 3) [(BoolKey True, 5), (BoolKey False, 1)] [(BoolKey True, 7)]) 4
       (one_part [(BoolKey True, 5), (BoolKey False, 1)]) (one_part [(BoolKey True, 7)]) (HashPartitioner 3)) = Some (Inr zs) \<and>
     mset zs = {# (BoolKey True, Some 5, Some 7), (BoolKey False, Some 1, None) #}"
proof -
  let ?xs = "[(BoolKey True, 5), (BoolKey False, 1 :: byte)]" and ?ys = "[(BoolKey True, 7 :: byte)]"
  have "join_ok (pair_join_env (HashPartitioner 3) ?xs ?ys) (one_part ?xs) (one_part ?ys) (HashPartitioner 3) [?xs] [?ys]"
    using pair_side_ok [of ?xs] pair_side_ok [of ?ys] by (simp add: join_ok_def pair_join_env_def keys_ok_def)
  from joins_relational [OF this] show ?thesis
    by (auto simp: collects_def full_join_def left_join_def inner_join_def)
qed

end
