(* ===== verification/Caching.thy ===== *)
theory Caching
  imports RDDs
begin

text \<open>
  \<^verbatim>\<open>persist.go\<close>, the storage levels of \<^verbatim>\<open>computePartition\<close> and \<^verbatim>\<open>IsCached\<close> in \<^verbatim>\<open>rdd.go\<close>, and the notes of
  \<^verbatim>\<open>context.go\<close> about cached partitions. A context has a memory cache, perhaps the cache that a worker
  keeps for a job, and a directory of encoded partitions. The codec of a partition is a pair of
  functions, and what the file of a partition holds after a write is an argument, because the code
  ignores a failed write. The theory shows that the caches never change what a partition computes,
  that a cached partition is not computed again, and that \<^verbatim>\<open>Unpersist\<close> forgets exactly one RDD.
\<close>

section \<open>Caches\<close>

type_synonym 'a memoryCache = "nat \<times> int \<rightharpoonup> 'a list"

definition mem_put :: "nat \<Rightarrow> int \<Rightarrow> 'a list \<Rightarrow> 'a memoryCache \<Rightarrow> 'a memoryCache" where
  "mem_put rddID part v c = c((rddID, part) \<mapsto> v)"

definition mem_removeRDD :: "nat \<Rightarrow> 'a memoryCache \<Rightarrow> 'a memoryCache" where
  "mem_removeRDD rddID c = (\<lambda>k. if fst k = rddID then None else c k)"

text \<open>The partitions in the order in which the map is ranged over.\<close>

definition keysForRDD :: "(nat \<times> int) list \<Rightarrow> nat \<Rightarrow> CachePartition list" where
  "keysForRDD order rddID =
     map (\<lambda>k. \<lparr>cp_RDDID = fst k, cp_PartitionID = snd k\<rparr>) (filter (\<lambda>k. fst k = rddID) order)"

text \<open>
  The disk cache: the files by the key in their name. \<open>dk_left b\<close> is what the file holds after the
  bytes \<open>b\<close> were written to it, nothing when it could not be created.
\<close>

record 'a disk_codec =
  dk_encode :: "'a list \<Rightarrow> byte list res"
  dk_decode :: "byte list \<Rightarrow> 'a list res"
  dk_left :: "byte list \<Rightarrow> byte list option"

type_synonym diskCache = "nat \<times> int \<rightharpoonup> byte list"

definition disk_get :: "'a disk_codec \<Rightarrow> diskCache \<Rightarrow> nat \<Rightarrow> int \<Rightarrow> 'a list option" where
  "disk_get dk d rddID part =
     (case d (rddID, part) of
        None \<Rightarrow> None
      | Some b \<Rightarrow> (case dk_decode dk b of Inl _ \<Rightarrow> None | Inr recs \<Rightarrow> Some recs))"

definition disk_put :: "'a disk_codec \<Rightarrow> nat \<Rightarrow> int \<Rightarrow> 'a list \<Rightarrow> diskCache \<Rightarrow> diskCache" where
  "disk_put dk rddID part v d =
     (case dk_encode dk v of
        Inl _ \<Rightarrow> d
      | Inr b \<Rightarrow> (case dk_left dk b of None \<Rightarrow> d | Some b' \<Rightarrow> d((rddID, part) \<mapsto> b')))"

definition disk_removeRDD :: "nat \<Rightarrow> diskCache \<Rightarrow> diskCache" where
  "disk_removeRDD rddID d = (\<lambda>k. if fst k = rddID then None else d k)"

section \<open>The context's caches\<close>

record 'a cache_state =
  cx_cache :: "'a memoryCache option"
  cx_distributed :: "'a memoryCache option"
  cx_disk :: "diskCache option"
  cx_touched :: "CachePartition set"
  cx_dropped :: "CachePartition set"

definition noteCachePresent :: "CachePartition \<Rightarrow> 'a cache_state \<Rightarrow> 'a cache_state" where
  "noteCachePresent key c = c\<lparr>cx_touched := insert key (cx_touched c), cx_dropped := cx_dropped c - {key}\<rparr>"

definition noteCacheRemoved :: "CachePartition \<Rightarrow> 'a cache_state \<Rightarrow> 'a cache_state" where
  "noteCacheRemoved key c = c\<lparr>cx_dropped := insert key (cx_dropped c), cx_touched := cx_touched c - {key}\<rparr>"

definition Persist :: "'a RDD_of \<Rightarrow> StorageLevel \<Rightarrow> 'a RDD_of" where
  "Persist rdd level =
     (case rd_node rdd of RDD i name parts _ deps \<Rightarrow> rdd\<lparr>rd_node := RDD i name parts level deps\<rparr>)"

definition Cache :: "'a RDD_of \<Rightarrow> 'a RDD_of" where
  "Cache rdd = Persist rdd StorageMemory"

definition forget_shared :: "(nat \<times> int) list \<Rightarrow> nat \<Rightarrow> 'a cache_state \<Rightarrow> 'a cache_state" where
  "forget_shared order rddID c =
     (case cx_distributed c of
        None \<Rightarrow> c
      | Some m \<Rightarrow> (fold noteCacheRemoved (keysForRDD order rddID) c)\<lparr>cx_distributed := Some (mem_removeRDD rddID m)\<rparr>)"

definition Unpersist :: "(nat \<times> int) list \<Rightarrow> 'a RDD_of \<Rightarrow> 'a cache_state \<Rightarrow> 'a RDD_of \<times> 'a cache_state" where
  "Unpersist order rdd c =
     (let i = rdd_ID (rd_node rdd);
          c1 = c\<lparr>cx_cache := map_option (mem_removeRDD i) (cx_cache c)\<rparr>;
          c2 = forget_shared order i c1
      in (Persist rdd StorageNone, c2\<lparr>cx_disk := map_option (disk_removeRDD i) (cx_disk c2)\<rparr>))"

section \<open>Computing a partition\<close>

definition in_memory :: "StorageLevel \<Rightarrow> bool" where
  "in_memory level \<longleftrightarrow> level = StorageMemory \<or> level = StorageMemoryAndDisk"

definition on_disk :: "StorageLevel \<Rightarrow> bool" where
  "on_disk level \<longleftrightarrow> level = StorageDisk \<or> level = StorageMemoryAndDisk"

definition mem_get :: "'a memoryCache option \<Rightarrow> nat \<Rightarrow> int \<Rightarrow> 'a list option" where
  "mem_get m rddID part = (case m of None \<Rightarrow> None | Some c \<Rightarrow> c (rddID, part))"

definition shared :: "RDD \<Rightarrow> 'a cache_state \<Rightarrow> bool" where
  "shared r c \<longleftrightarrow> cx_distributed c \<noteq> None \<and> cacheAcrossTasks r"

text \<open>The three puts after a partition was computed.\<close>

definition store_partition :: "'a disk_codec \<Rightarrow> RDD \<Rightarrow> int \<Rightarrow> 'a list \<Rightarrow> 'a cache_state \<Rightarrow> 'a cache_state" where
  "store_partition dk r idx data c0 =
     (let level = cachedStorage r;
          i = rdd_ID r;
          c1 = (if in_memory level then c0\<lparr>cx_cache := map_option (mem_put i idx data) (cx_cache c0)\<rparr> else c0);
          c2 = (if in_memory level \<and> shared r c0
                then noteCachePresent \<lparr>cp_RDDID = i, cp_PartitionID = idx\<rparr>
                  (c1\<lparr>cx_distributed := map_option (mem_put i idx data) (cx_distributed c1)\<rparr>)
                else c1)
      in if on_disk level then c2\<lparr>cx_disk := map_option (disk_put dk i idx data) (cx_disk c2)\<rparr> else c2)"

definition computePartition ::
  "'a disk_codec \<Rightarrow> 'a RDD_of \<Rightarrow> Partition \<Rightarrow> 'a cache_state \<Rightarrow> 'a Iterator \<times> 'a cache_state" where
  "computePartition dk rdd p c =
     (let r = rd_node rdd; level = cachedStorage r; i = rdd_ID r; idx = Index p
      in if level = StorageNone then (rd_compute rdd p, c)
         else
           case (if in_memory level \<and> shared r c then mem_get (cx_distributed c) i idx else None) of
             Some cached \<Rightarrow> (SliceIterator cached, noteCachePresent \<lparr>cp_RDDID = i, cp_PartitionID = idx\<rparr> c)
           | None \<Rightarrow>
           case (if in_memory level then mem_get (cx_cache c) i idx else None) of
             Some cached \<Rightarrow> (SliceIterator cached, c)
           | None \<Rightarrow>
           case (if on_disk level then Option.bind (cx_disk c) (\<lambda>d. disk_get dk d i idx) else None) of
             Some cached \<Rightarrow>
               (SliceIterator cached,
                if level = StorageMemoryAndDisk then c\<lparr>cx_cache := map_option (mem_put i idx cached) (cx_cache c)\<rparr> else c)
           | None \<Rightarrow>
           case CollectIterator (rd_compute rdd p) of
             None \<Rightarrow> (Hang, c)
           | Some (Inl e) \<Rightarrow> (Panic e, c)
           | Some (Inr data) \<Rightarrow> (SliceIterator data, store_partition dk r idx data c))"

text \<open>\<^verbatim>\<open>IsCached\<close> asks for every partition; on disk it asks whether the file exists.\<close>

definition partition_cached :: "RDD \<Rightarrow> 'a cache_state \<Rightarrow> int \<Rightarrow> bool" where
  "partition_cached r c idx =
     (let i = rdd_ID r;
          mem = (mem_get (cx_cache c) i idx \<noteq> None \<or> (shared r c \<and> mem_get (cx_distributed c) i idx \<noteq> None));
          disk = (case cx_disk c of None \<Rightarrow> False | Some d \<Rightarrow> d (i, idx) \<noteq> None)
      in case cachedStorage r of
           StorageNone \<Rightarrow> False
         | StorageMemory \<Rightarrow> mem
         | StorageDisk \<Rightarrow> disk
         | StorageMemoryAndDisk \<Rightarrow> mem \<or> disk)"

definition IsCached :: "'a RDD_of \<Rightarrow> 'a cache_state \<Rightarrow> bool" where
  "IsCached rdd c \<longleftrightarrow>
     cachedStorage (rd_node rdd) \<noteq> StorageNone \<and> (\<forall>p \<in> set (rd_parts rdd). partition_cached (rd_node rdd) c (Index p))"

text \<open>\<^verbatim>\<open>cacheUpdates\<close>: what a task reports, in the order in which the maps are ranged over.\<close>

definition cacheUpdates ::
  "(CachePartition set \<Rightarrow> CachePartition list) \<Rightarrow> 'a cache_state \<Rightarrow> CachePartition list \<times> CachePartition list" where
  "cacheUpdates enum c = (enum (cx_touched c), enum (cx_dropped c))"

section \<open>What the caches hold\<close>

text \<open>A collected iterator emits what was collected.\<close>

lemma collect_loop_Inr:
  assumes "collect_loop acc it = Some r" and "r = Inr ys"
  shows "\<exists>xs. ys = acc @ xs \<and> emits it xs None"
  using assms
proof (induction arbitrary: ys rule: collect_loop.raw_induct [rotated, consumes 1, case_names step])
  case (step loop acc it r)
  show ?case
  proof (cases it)
    case (Yield v it')
    then have "loop (acc @ [v]) it' = Some r" using step.hyps by simp
    from step.IH [OF this step.prems] show ?thesis using Yield by auto
  qed (use step.hyps step.prems in auto)
qed

lemma CollectIterator_Inr: "CollectIterator it = Some (Inr xs) \<Longrightarrow> emits it xs None"
  using collect_loop_Inr [of "[]" it "Inr xs" xs] by (simp add: CollectIterator_def)

text \<open>
  The partition that a key names, and the values that a key has in some cache. A write to disk is
  honest when the file decodes to what was written, if it decodes at all.
\<close>

definition entry :: "'a disk_codec \<Rightarrow> 'a cache_state \<Rightarrow> nat \<times> int \<Rightarrow> 'a list \<Rightarrow> bool" where
  "entry dk c k xs \<longleftrightarrow> mem_get (cx_cache c) (fst k) (snd k) = Some xs \<or> mem_get (cx_distributed c) (fst k) (snd k) = Some xs \<or>
     Option.bind (cx_disk c) (\<lambda>d. disk_get dk d (fst k) (snd k)) = Some xs"

definition honest :: "'a disk_codec \<Rightarrow> bool" where
  "honest dk \<longleftrightarrow> (\<forall>v b b' ys. dk_encode dk v = Inr b \<longrightarrow> dk_left dk b = Some b' \<longrightarrow> dk_decode dk b' = Inr ys \<longrightarrow> ys = v)"

definition computes :: "'a RDD_of \<Rightarrow> int \<Rightarrow> 'a list \<Rightarrow> bool" where
  "computes rdd idx xs \<longleftrightarrow> (\<exists>p \<in> set (rd_parts rdd). Index p = idx \<and> emits (rd_compute rdd p) xs None)"

definition caches_right :: "'a disk_codec \<Rightarrow> (nat \<Rightarrow> 'a RDD_of) \<Rightarrow> 'a cache_state \<Rightarrow> bool" where
  "caches_right dk world c \<longleftrightarrow> (\<forall>k xs. entry dk c k xs \<longrightarrow> computes (world (fst k)) (snd k) xs)"

definition known :: "(nat \<Rightarrow> 'a RDD_of) \<Rightarrow> 'a RDD_of \<Rightarrow> bool" where
  "known world rdd \<longleftrightarrow> rd_parts (world (rdd_ID (rd_node rdd))) = rd_parts rdd \<and>
     rd_compute (world (rdd_ID (rd_node rdd))) = rd_compute rdd \<and> inj_on Index (set (rd_parts rdd))"

lemma entry_notes [simp]:
  "entry dk (noteCachePresent key c) k xs \<longleftrightarrow> entry dk c k xs"
  "entry dk (noteCacheRemoved key c) k xs \<longleftrightarrow> entry dk c k xs"
  by (simp_all add: entry_def noteCachePresent_def noteCacheRemoved_def)

lemma mem_get_put: "mem_get (map_option (mem_put i idx v) m) j q = Some xs \<Longrightarrow> mem_get m j q = Some xs \<or> (j, q) = (i, idx) \<and> xs = v"
  by (cases m) (auto simp: mem_get_def mem_put_def split: if_splits)

lemma disk_get_put:
  "honest dk \<Longrightarrow> disk_get dk (disk_put dk i idx v d) j q = Some xs \<Longrightarrow> disk_get dk d j q = Some xs \<or> (j, q) = (i, idx) \<and> xs = v"
  by (auto simp: honest_def disk_get_def disk_put_def split: if_splits sum.splits option.splits)

lemma entry_cache_put:
  "entry dk (c\<lparr>cx_cache := map_option (mem_put i idx v) (cx_cache c)\<rparr>) k xs \<Longrightarrow> entry dk c k xs \<or> k = (i, idx) \<and> xs = v"
  by (cases k) (auto simp: entry_def dest: mem_get_put)

lemma entry_distributed_put:
  "entry dk (c\<lparr>cx_distributed := map_option (mem_put i idx v) (cx_distributed c)\<rparr>) k xs \<Longrightarrow> entry dk c k xs \<or> k = (i, idx) \<and> xs = v"
  by (cases k) (auto simp: entry_def dest: mem_get_put)

lemma entry_disk_put:
  "honest dk \<Longrightarrow> entry dk (c\<lparr>cx_disk := map_option (disk_put dk i idx v) (cx_disk c)\<rparr>) k xs \<Longrightarrow> entry dk c k xs \<or> k = (i, idx) \<and> xs = v"
  by (cases k; cases "cx_disk c") (auto simp: entry_def dest: disk_get_put)

lemma entry_store_partition:
  assumes "honest dk" and "entry dk (store_partition dk r idx data c) k xs"
  shows "entry dk c k xs \<or> k = (rdd_ID r, idx) \<and> xs = data"
proof -
  let ?i = "rdd_ID r" and ?key = "\<lparr>cp_RDDID = rdd_ID r, cp_PartitionID = idx\<rparr>"
  define c1 where "c1 = (if in_memory (cachedStorage r)
    then c\<lparr>cx_cache := map_option (mem_put ?i idx data) (cx_cache c)\<rparr> else c)"
  define c2 where "c2 = (if in_memory (cachedStorage r) \<and> shared r c
    then noteCachePresent ?key (c1\<lparr>cx_distributed := map_option (mem_put ?i idx data) (cx_distributed c1)\<rparr>) else c1)"
  have "store_partition dk r idx data c = (if on_disk (cachedStorage r)
      then c2\<lparr>cx_disk := map_option (disk_put dk ?i idx data) (cx_disk c2)\<rparr> else c2)"
    by (simp add: store_partition_def Let_def c1_def c2_def)
  then have "entry dk c2 k xs \<or> k = (?i, idx) \<and> xs = data"
    using assms(2) entry_disk_put [OF assms(1), where c = c2 and k = k and xs = xs] by (auto split: if_splits)
  then have "entry dk c1 k xs \<or> k = (?i, idx) \<and> xs = data"
    using entry_distributed_put [where c = c1 and k = k and xs = xs] by (auto simp: c2_def split: if_splits)
  then show ?thesis using entry_cache_put [where c = c and k = k and xs = xs] by (auto simp: c1_def split: if_splits)
qed

lemma computes_known: "known world rdd \<Longrightarrow> computes (world (rdd_ID (rd_node rdd))) idx xs \<longleftrightarrow> computes rdd idx xs"
  by (simp add: known_def computes_def)

lemma computes_unique:
  assumes "known world rdd" and "p \<in> set (rd_parts rdd)" and "emits (rd_compute rdd p) xs r" and "computes rdd (Index p) ys"
  shows "ys = xs" and "r = None"
proof -
  obtain q where q: "q \<in> set (rd_parts rdd)" "Index q = Index p" "emits (rd_compute rdd q) ys None"
    using assms(4) by (auto simp: computes_def)
  then have "q = p" using assms(1,2) by (auto simp: known_def dest: inj_onD)
  then show "ys = xs" "r = None" using emits_unique [OF assms(3), of ys None] q(3) by simp_all
qed

text \<open>What \<^verbatim>\<open>computePartition\<close> finds before it computes, in the order in which it asks.\<close>

definition found :: "'a disk_codec \<Rightarrow> RDD \<Rightarrow> int \<Rightarrow> 'a cache_state \<Rightarrow> 'a list option" where
  "found dk r idx c =
     (case (if in_memory (cachedStorage r) \<and> shared r c then mem_get (cx_distributed c) (rdd_ID r) idx else None) of
        Some xs \<Rightarrow> Some xs
      | None \<Rightarrow>
          (case (if in_memory (cachedStorage r) then mem_get (cx_cache c) (rdd_ID r) idx else None) of
             Some xs \<Rightarrow> Some xs
           | None \<Rightarrow> if on_disk (cachedStorage r) then Option.bind (cx_disk c) (\<lambda>d. disk_get dk d (rdd_ID r) idx) else None))"

lemma found_entry: "found dk r idx c = Some xs \<Longrightarrow> entry dk c (rdd_ID r, idx) xs"
  by (auto simp: found_def entry_def split: if_splits option.splits)

lemma computePartition_found:
  assumes "cachedStorage (rd_node rdd) \<noteq> StorageNone" and "found dk (rd_node rdd) (Index p) c = Some ys"
  shows "fst (computePartition dk rdd p c) = SliceIterator ys"
    and "entry dk (snd (computePartition dk rdd p c)) k xs \<Longrightarrow> entry dk c k xs \<or> k = (rdd_ID (rd_node rdd), Index p) \<and> xs = ys"
  using assms unfolding found_def computePartition_def Let_def
  by (auto split: if_splits option.splits dest: entry_cache_put)

lemma computePartition_missing:
  assumes "cachedStorage (rd_node rdd) \<noteq> StorageNone" and "found dk (rd_node rdd) (Index p) c = None"
  shows "computePartition dk rdd p c =
    (case CollectIterator (rd_compute rdd p) of
       None \<Rightarrow> (Hang, c)
     | Some (Inl e) \<Rightarrow> (Panic e, c)
     | Some (Inr data) \<Rightarrow> (SliceIterator data, store_partition dk (rd_node rdd) (Index p) data c))"
proof -
  note parts = assms(2) [unfolded found_def]
  then have "(if in_memory (cachedStorage (rd_node rdd)) \<and> shared (rd_node rdd) c
      then mem_get (cx_distributed c) (rdd_ID (rd_node rdd)) (Index p) else None) = None"
    "(if in_memory (cachedStorage (rd_node rdd)) then mem_get (cx_cache c) (rdd_ID (rd_node rdd)) (Index p) else None) = None"
    "(if on_disk (cachedStorage (rd_node rdd)) then Option.bind (cx_disk c) (\<lambda>d. disk_get dk d (rdd_ID (rd_node rdd)) (Index p))
      else None) = None"
    by (auto split: option.splits if_splits)
  then show ?thesis using assms(1) by (simp only: computePartition_def Let_def option.case if_False)
qed

lemma computePartition_entries:
  assumes "honest dk" and "entry dk (snd (computePartition dk rdd p c)) k xs"
  shows "entry dk c k xs \<or> k = (rdd_ID (rd_node rdd), Index p) \<and> emits (rd_compute rdd p) xs None"
proof (cases "cachedStorage (rd_node rdd) = StorageNone")
  case True
  then show ?thesis using assms(2) by (simp add: computePartition_def)
next
  case False
  show ?thesis
  proof (cases "found dk (rd_node rdd) (Index p) c")
    case None
    show ?thesis
    proof (cases "\<exists>data. CollectIterator (rd_compute rdd p) = Some (Inr data)")
      case True
      then obtain data where d: "CollectIterator (rd_compute rdd p) = Some (Inr data)" by blast
      then have "entry dk c k xs \<or> k = (rdd_ID (rd_node rdd), Index p) \<and> xs = data"
        using entry_store_partition [OF assms(1), of "rd_node rdd" "Index p" data c k xs] assms(2)
        by (simp add: computePartition_missing [OF False None])
      then show ?thesis using CollectIterator_Inr [OF d] by blast
    next
      case f: False
      then have "snd (computePartition dk rdd p c) = c"
        by (simp add: computePartition_missing [OF False None] split: option.splits sum.splits)
      then show ?thesis using assms(2) by simp
    qed
  next
    case (Some ys)
    then show ?thesis using computePartition_found(2) [OF False Some assms(2)] found_entry [OF Some] by auto
  qed
qed

lemma computePartition_right:
  assumes "honest dk" and right: "caches_right dk world c" and world: "known world rdd" and p: "p \<in> set (rd_parts rdd)"
  shows "caches_right dk world (snd (computePartition dk rdd p c))"
  unfolding caches_right_def
proof (intro allI impI)
  fix k xs assume "entry dk (snd (computePartition dk rdd p c)) k xs"
  then consider "entry dk c k xs" | "k = (rdd_ID (rd_node rdd), Index p)" "emits (rd_compute rdd p) xs None"
    using computePartition_entries [OF assms(1)] by blast
  then show "computes (world (fst k)) (snd k) xs"
  proof cases
    case 1
    then show ?thesis using right by (simp add: caches_right_def)
  next
    case 2
    then show ?thesis using computes_known [OF world] p by (auto simp: computes_def)
  qed
qed

lemma computePartition_same:
  assumes right: "caches_right dk world c" and world: "known world rdd" and p: "p \<in> set (rd_parts rdd)"
    and xs: "emits (rd_compute rdd p) xs None"
  shows "emits (fst (computePartition dk rdd p c)) xs None"
proof (cases "cachedStorage (rd_node rdd) = StorageNone")
  case True
  then show ?thesis using xs by (simp add: computePartition_def)
next
  case False
  show ?thesis
  proof (cases "found dk (rd_node rdd) (Index p) c")
    case None
    then show ?thesis
      using xs by (simp add: computePartition_missing [OF False] CollectIterator_emits ended_def emits_SliceIterator)
  next
    case (Some ys)
    then have "computes rdd (Index p) ys"
      using found_entry [OF Some] right computes_known [OF world, of "Index p" ys] unfolding caches_right_def by fastforce
    then have "ys = xs" using computes_unique [OF world p xs] by simp
    then show ?thesis using computePartition_found(1) [OF False Some] emits_SliceIterator by simp
  qed
qed

text \<open>A level that really stores a partition with the records \<open>xs\<close>.\<close>

definition keeps :: "'a disk_codec \<Rightarrow> RDD \<Rightarrow> 'a cache_state \<Rightarrow> 'a list \<Rightarrow> bool" where
  "keeps dk r c xs \<longleftrightarrow> in_memory (cachedStorage r) \<and> cx_cache c \<noteq> None \<or>
     on_disk (cachedStorage r) \<and> cx_disk c \<noteq> None \<and>
       (\<exists>b b'. dk_encode dk xs = Inr b \<and> dk_left dk b = Some b' \<and> dk_decode dk b' = Inr xs)"

lemma shared_store [simp]:
  "shared r (c\<lparr>cx_cache := m\<rparr>) \<longleftrightarrow> shared r c"
  "shared r (c\<lparr>cx_disk := d\<rparr>) \<longleftrightarrow> shared r c"
  "shared r (c\<lparr>cx_distributed := map_option f (cx_distributed c)\<rparr>) \<longleftrightarrow> shared r c"
  "shared r (noteCachePresent key c) \<longleftrightarrow> shared r c"
  by (simp_all add: shared_def noteCachePresent_def)

lemma found_store_partition:
  assumes "keeps dk r c xs"
  shows "found dk r idx (store_partition dk r idx xs c) \<noteq> None"
  using assms
proof (cases "in_memory (cachedStorage r) \<and> cx_cache c \<noteq> None")
  case True
  then show ?thesis
    by (auto simp: found_def store_partition_def Let_def mem_get_def mem_put_def noteCachePresent_def split: option.splits)
next
  case False
  then obtain d b b' where "on_disk (cachedStorage r)" "cx_disk c = Some d"
    "dk_encode dk xs = Inr b" "dk_left dk b = Some b'" "dk_decode dk b' = Inr xs"
    using assms by (auto simp: keeps_def)
  then show ?thesis
    by (auto simp: found_def store_partition_def Let_def disk_get_def disk_put_def noteCachePresent_def split: option.splits)
qed

lemma found_again:
  assumes "cachedStorage (rd_node rdd) \<noteq> StorageNone" and "emits (rd_compute rdd p) xs None" and "keeps dk (rd_node rdd) c xs"
  shows "found dk (rd_node rdd) (Index p) (snd (computePartition dk rdd p c)) \<noteq> None"
proof (cases "found dk (rd_node rdd) (Index p) c")
  case None
  then show ?thesis
    using assms found_store_partition by (simp add: computePartition_missing CollectIterator_emits ended_def)
next
  case (Some ys)
  then show ?thesis
    using assms(1) unfolding computePartition_def Let_def
    by (auto simp: found_def mem_get_def mem_put_def noteCachePresent_def shared_def split: if_splits option.splits)
qed

section \<open>Runs\<close>

text \<open>What a program does with the caches of a context: compute partitions, unpersist RDDs, stop.\<close>

datatype 'a cache_op = Computed "'a RDD_of" Partition | Unpersisted "(nat \<times> int) list" "'a RDD_of" | Stopped

definition Stop_caches :: "'a cache_state \<Rightarrow> 'a cache_state" where
  "Stop_caches c = c\<lparr>cx_cache := map_option (\<lambda>_. Map.empty) (cx_cache c), cx_disk := map_option (\<lambda>_. Map.empty) (cx_disk c)\<rparr>"

fun cache_step :: "'a disk_codec \<Rightarrow> 'a cache_state \<Rightarrow> 'a cache_op \<Rightarrow> 'a cache_state" where
  "cache_step dk c (Computed rdd p) = snd (computePartition dk rdd p c)"
| "cache_step dk c (Unpersisted order rdd) = snd (Unpersist order rdd c)"
| "cache_step dk c Stopped = Stop_caches c"

fun op_ok :: "(nat \<Rightarrow> 'a RDD_of) \<Rightarrow> 'a cache_op \<Rightarrow> bool" where
  "op_ok world (Computed rdd p) \<longleftrightarrow> known world rdd \<and> p \<in> set (rd_parts rdd)"
| "op_ok world _ \<longleftrightarrow> True"

definition empty_caches :: "bool \<Rightarrow> 'a cache_state" where
  "empty_caches worker = \<lparr>cx_cache = Some Map.empty, cx_distributed = (if worker then Some Map.empty else None),
     cx_disk = Some Map.empty, cx_touched = {}, cx_dropped = {}\<rparr>"

lemma fold_removed:
  "fold noteCacheRemoved ks c = c\<lparr>cx_touched := cx_touched c - set ks, cx_dropped := cx_dropped c \<union> set ks\<rparr>"
  by (induction ks arbitrary: c) (simp_all add: noteCacheRemoved_def Diff_insert2 [symmetric])

lemma mem_get_remove: "mem_get (map_option (mem_removeRDD i) m) j q = Some xs \<longleftrightarrow> mem_get m j q = Some xs \<and> j \<noteq> i"
  by (cases m) (auto simp: mem_get_def mem_removeRDD_def)

lemma disk_get_remove: "disk_get dk (disk_removeRDD i d) j q = Some xs \<longleftrightarrow> disk_get dk d j q = Some xs \<and> j \<noteq> i"
  by (auto simp: disk_get_def disk_removeRDD_def)

lemma Unpersist_caches:
  "cx_cache (snd (Unpersist order rdd c)) = map_option (mem_removeRDD (rdd_ID (rd_node rdd))) (cx_cache c)"
  "cx_distributed (snd (Unpersist order rdd c)) = map_option (mem_removeRDD (rdd_ID (rd_node rdd))) (cx_distributed c)"
  "cx_disk (snd (Unpersist order rdd c)) = map_option (disk_removeRDD (rdd_ID (rd_node rdd))) (cx_disk c)"
  by (simp_all add: Unpersist_def Let_def forget_shared_def fold_removed split: option.split)

lemma entry_Unpersist:
  "entry dk (snd (Unpersist order rdd c)) k xs \<longleftrightarrow> entry dk c k xs \<and> fst k \<noteq> rdd_ID (rd_node rdd)"
  by (cases "cx_disk c") (auto simp: entry_def Unpersist_caches mem_get_remove disk_get_remove)

lemma entry_Stop: "entry dk (Stop_caches c) k xs \<Longrightarrow> entry dk c k xs"
  by (cases "cx_cache c"; cases "cx_disk c") (auto simp: entry_def Stop_caches_def mem_get_def disk_get_def)

lemma cache_run_right:
  "honest dk \<Longrightarrow> caches_right dk world c \<Longrightarrow> \<forall>op \<in> set ops. op_ok world op \<Longrightarrow>
     caches_right dk world (foldl (cache_step dk) c ops)"
proof (induction ops arbitrary: c)
  case (Cons op ops)
  have "caches_right dk world (cache_step dk c op)"
  proof (cases op)
    case (Computed rdd p)
    then show ?thesis using Cons.prems by (simp add: computePartition_right)
  qed (use Cons.prems(2) in \<open>auto simp: caches_right_def entry_Unpersist dest: entry_Stop\<close>)
  then show ?case using Cons by simp
qed simp

section \<open>Properties\<close>


definition byte_disk :: "byte disk_codec" where
  "byte_disk = \<lparr>dk_encode = Inr, dk_decode = Inr, dk_left = Some\<rparr>"

definition byte_parts :: "byte RDD_of" where
  "byte_parts = Persist (NewRDD 3 (NewPartitions 2) [] (\<lambda>p. SliceIterator (if Index p = 0 then [4, 5] else [6])) None) StorageMemoryAndDisk"


text \<open>
  \<open>Unpersist\<close> removes every partition of its RDD from the memory cache, the job cache and the
  disk, leaves the partitions of all other RDDs, and reports exactly the removed partitions of the
  job cache to the driver, however the cache is enumerated.
\<close>

lemma unpersist_exact:
  fixes rdd :: "'a RDD_of" and c :: "'a cache_state"
  assumes "cx_distributed c = Some m" and "set order = dom m"
  defines "i \<equiv> rdd_ID (rd_node rdd)" and "c' \<equiv> snd (Unpersist order rdd c)"
  shows "(\<forall>k xs. entry dk c' k xs \<longleftrightarrow> entry dk c k xs \<and> fst k \<noteq> i) \<and>
    cx_dropped c' = cx_dropped c \<union> {\<lparr>cp_RDDID = i, cp_PartitionID = q\<rparr> | q. m (i, q) \<noteq> None} \<and>
    cx_touched c' = cx_touched c - {\<lparr>cp_RDDID = i, cp_PartitionID = q\<rparr> | q. m (i, q) \<noteq> None} \<and>
    cachedStorage (rd_node (fst (Unpersist order rdd c))) = StorageNone"
proof -
  have "set (keysForRDD order i) = {\<lparr>cp_RDDID = i, cp_PartitionID = q\<rparr> | q. m (i, q) \<noteq> None}"
    using assms(2) by (auto simp: keysForRDD_def image_iff)
  moreover have "cx_dropped c' = cx_dropped c \<union> set (keysForRDD order i)" "cx_touched c' = cx_touched c - set (keysForRDD order i)"
    using assms(1) by (simp_all add: c'_def i_def Unpersist_def Let_def forget_shared_def fold_removed)
  moreover have "cachedStorage (rd_node (fst (Unpersist order rdd c))) = StorageNone"
    by (simp add: Unpersist_def Let_def Persist_def split: RDD.split)
  ultimately show ?thesis by (simp add: c'_def i_def entry_Unpersist)
qed

section \<open>When \<^verbatim>\<open>IsCached\<close> can be trusted\<close>

text \<open>
  With readable files, an RDD that is cached is not computed: \<^verbatim>\<open>computeShuffleStages\<close> may skip its
  lineage.
\<close>

lemma IsCached_found:
  assumes "IsCached rdd c" and "p \<in> set (rd_parts rdd)"
    and "\<And>d b. cx_disk c = Some d \<Longrightarrow> d (rdd_ID (rd_node rdd), Index p) = Some b \<Longrightarrow> \<exists>ys. dk_decode dk b = Inr ys"
  shows "found dk (rd_node rdd) (Index p) c \<noteq> None"
proof -
  have "partition_cached (rd_node rdd) c (Index p)" using assms(1,2) by (simp add: IsCached_def)
  moreover have "dk_decode dk b \<noteq> Inl e" if "cx_disk c = Some d" "d (rdd_ID (rd_node rdd), Index p) = Some b" for d b e
    using assms(3) [OF that] by auto
  ultimately show ?thesis
    by (cases "cachedStorage (rd_node rdd)")
      (auto simp: partition_cached_def Let_def found_def in_memory_def on_disk_def disk_get_def
        split: option.splits sum.splits)
qed

text \<open>
  But a file that was left unreadable by a failed write counts as cached all the same, while the
  partition is computed again, without the shuffles that the action skipped.
\<close>

lemma unreadable_file_counts_as_cached:
  fixes rdd :: "'a RDD_of"
  assumes "cachedStorage (rd_node rdd) = StorageDisk" and "rd_parts rdd = [p]" and "emits (rd_compute rdd p) xs None"
    and "dk_encode dk xs = Inr b" and "dk_left dk b = Some b'" and "dk_decode dk b' = Inl e"
    and c_def: "c = snd (computePartition dk rdd p (empty_caches worker))"
  shows "IsCached rdd c" and "fst (computePartition dk (rdd\<lparr>rd_compute := \<lambda>_. Panic lost\<rparr>) p c) = Panic lost"
proof -
  have "found dk (rd_node rdd) (Index p) (empty_caches worker) = None"
    by (simp add: found_def empty_caches_def mem_get_def disk_get_def)
  then have c: "c = (empty_caches worker)\<lparr>cx_disk := Some [(rdd_ID (rd_node rdd), Index p) \<mapsto> b']\<rparr>"
    using assms by (simp add: c_def computePartition_missing CollectIterator_emits ended_def store_partition_def Let_def
        in_memory_def on_disk_def disk_put_def empty_caches_def)
  show "IsCached rdd c" using assms(1,2) by (simp add: IsCached_def partition_cached_def Let_def c)
  have "found dk (rd_node rdd) (Index p) c = None"
    using assms(1,6) by (simp add: found_def in_memory_def on_disk_def c disk_get_def)
  then show "fst (computePartition dk (rdd\<lparr>rd_compute := \<lambda>_. Panic lost\<rparr>) p c) = Panic lost"
    using assms(1) computePartition_missing [of "rdd\<lparr>rd_compute := \<lambda>_. Panic lost\<rparr>" dk p c]
      CollectIterator_emits [of "Panic lost :: 'a Iterator" "[]" "Some lost"] by (simp add: ended_def)
qed

end
