(* ===== verification/Checkpoints.thy ===== *)
theory Checkpoints
  imports Caching Shuffle
begin

text \<open>
  \<^verbatim>\<open>checkpoint.go\<close> and the checkpoint branches of \<^verbatim>\<open>rdd.go\<close>: the partitions of an RDD are written as
  bucket files under a fresh directory, then a manifest; from then on the RDD has no dependencies
  and is read from the files, and another context can rebuild it from the directory. The JSON text
  of a manifest is a pair of functions. The directory that \<^verbatim>\<open>os.MkdirTemp\<close> makes is an argument, as
  are the failures of the system calls. The theory shows that a checkpoint is read back partition
  by partition and that a failed one leaves nothing behind.
\<close>

section \<open>Writing\<close>

definition checkpointPartPath :: "path \<Rightarrow> int \<Rightarrow> path" where
  "checkpointPartPath dir index = dir @ [''part-'' @ format_int index @ ''.gob'']"

definition manifestPath :: "path \<Rightarrow> path" where
  "manifestPath dir = dir @ [''manifest.json'']"

record 'a checkpoint_env =
  ke_encode :: "'a \<Rightarrow> byte list res"
  ke_decode :: "byte list \<Rightarrow> 'a res"
  ke_recordBytes :: nat
  ke_marshal :: "int list \<Rightarrow> byte list"
  ke_unmarshal :: "byte list \<Rightarrow> int list option res"

text \<open>
  What the operating system answers: whether a directory is set, how the shuffle stages below the RDD
  end, the new directory, the creation and the completion of a file, and the write of the manifest.
\<close>

record checkpoint_io =
  ki_root :: bool
  ki_stages :: "goerr option"
  ki_mkdir :: "path res"
  ki_create :: "path \<Rightarrow> goerr option"
  ki_finish :: "path \<Rightarrow> goerr option"
  ki_manifest :: "goerr option"

text \<open>The loop over the records of one partition: the writer so far, and the error that ended it.\<close>

partial_function (option) checkpoint_loop ::
  "'a checkpoint_env \<Rightarrow> bucketWriter \<Rightarrow> 'a Iterator \<Rightarrow> (bucketWriter \<times> goerr option) option" where
  "checkpoint_loop ke w iter =
     (case iter of
        Yield v it \<Rightarrow>
          (case ke_encode ke v of
             Inl e \<Rightarrow> Some (w, Some e)
           | Inr payload \<Rightarrow>
               if length payload > ke_recordBytes ke
               then Some (w, Some (Err ''checkpoint record %d exceeds MaxRecordBytes=%d''))
               else
                 (case bw_append w None payload of
                    Inl e \<Rightarrow> Some (w, Some e)
                  | Inr wb \<Rightarrow> checkpoint_loop ke (fst wb) it))
      | Stop \<Rightarrow> Some (w, None)
      | Panic e \<Rightarrow> Some (w, Some e)
      | Hang \<Rightarrow> None)"

definition checkpoint_part ::
  "'a checkpoint_env \<Rightarrow> checkpoint_io \<Rightarrow> path \<Rightarrow> 'a RDD_of \<Rightarrow> Partition \<Rightarrow> filesystem
     \<Rightarrow> (filesystem \<times> goerr option) option" where
  "checkpoint_part ke io dir rdd p fs =
     (let file = checkpointPartPath dir (Index p)
      in if fs file \<noteq> None then Some (fs, Some (Err ''file exists''))
         else
           case ki_create io file of
             Some e \<Rightarrow> Some (fs, Some e)
           | None \<Rightarrow>
           case newBucketWriter file None of
             Inl e \<Rightarrow> Some (fs, Some e)
           | Inr wb \<Rightarrow>
               (case checkpoint_loop ke (fst wb) (rd_compute rdd p) of
                  None \<Rightarrow> None
                | Some (w, Some e) \<Rightarrow> Some (fs(file \<mapsto> bw_data w), Some e)
                | Some (w, None) \<Rightarrow>
                    (case ki_finish io file of
                       Some e \<Rightarrow> Some (fs(file \<mapsto> bw_data w), Some e)
                     | None \<Rightarrow> Some (fs(file \<mapsto> bw_data (snd (bw_finish w))), None))))"

fun checkpoint_parts ::
  "'a checkpoint_env \<Rightarrow> checkpoint_io \<Rightarrow> path \<Rightarrow> 'a RDD_of \<Rightarrow> Partition list \<Rightarrow> filesystem
     \<Rightarrow> (filesystem \<times> goerr option) option" where
  "checkpoint_parts ke io dir rdd [] fs = Some (fs, None)"
| "checkpoint_parts ke io dir rdd (p # ps) fs =
     (case checkpoint_part ke io dir rdd p fs of
        None \<Rightarrow> None
      | Some (fs', Some e) \<Rightarrow> Some (fs', Some e)
      | Some (fs', None) \<Rightarrow> checkpoint_parts ke io dir rdd ps fs')"

text \<open>An RDD with the directory of its checkpoint.\<close>

record 'a checkpointed =
  ck_rdd :: "'a RDD_of"
  ck_path :: "path option"

text \<open>\<^verbatim>\<open>os.RemoveAll\<close> of the directory.\<close>

definition remove_all :: "path \<Rightarrow> filesystem \<Rightarrow> filesystem" where
  "remove_all dir fs = (\<lambda>f. if take (length dir) f = dir then None else fs f)"

text \<open>
  \<^verbatim>\<open>Checkpoint\<close>: the result, the files and the RDD afterwards; a partition that never ends keeps it
  running (\<open>None\<close>).
\<close>

definition Checkpoint ::
  "'a checkpoint_env \<Rightarrow> checkpoint_io \<Rightarrow> 'a checkpointed \<Rightarrow> filesystem
     \<Rightarrow> (path res \<times> filesystem \<times> 'a checkpointed) option" where
  "Checkpoint ke io rdd fs =
     (case ck_path rdd of
        Some dir \<Rightarrow> Some (Inr dir, fs, rdd)
      | None \<Rightarrow>
          if \<not> ki_root io then Some (Inl (Err ''checkpoint directory is not set''), fs, rdd)
          else
            case ki_stages io of
              Some e \<Rightarrow> Some (Inl e, fs, rdd)
            | None \<Rightarrow>
            case ki_mkdir io of
              Inl e \<Rightarrow> Some (Inl e, fs, rdd)
            | Inr dir \<Rightarrow>
                (case checkpoint_parts ke io dir (ck_rdd rdd) (rd_parts (ck_rdd rdd)) fs of
                   None \<Rightarrow> None
                 | Some (fs', Some e) \<Rightarrow> Some (Inl e, remove_all dir fs', rdd)
                 | Some (fs', None) \<Rightarrow>
                     (case ki_manifest io of
                        Some e \<Rightarrow> Some (Inl e, remove_all dir fs', rdd)
                      | None \<Rightarrow>
                          Some (Inr dir, fs'(manifestPath dir \<mapsto> ke_marshal ke (map Index (rd_parts (ck_rdd rdd)))),
                            rdd\<lparr>ck_path := Some dir\<rparr>))))"

section \<open>Reading\<close>

primcorec reader_iter :: "(byte list \<Rightarrow> 'a res) \<Rightarrow> bucketReader \<Rightarrow> 'a Iterator" where
  "reader_iter dec r =
     (case fst (br_Next dec r) of
        Inl e \<Rightarrow> if e = EOF then Stop else Panic e
      | Inr v \<Rightarrow> Yield v (reader_iter dec (snd (br_Next dec r))))"

definition checkpointIterator :: "'a checkpoint_env \<Rightarrow> filesystem \<Rightarrow> path \<Rightarrow> int \<Rightarrow> 'a Iterator" where
  "checkpointIterator ke fs dir idx =
     (case openBucketFile fs (checkpointPartPath dir idx) (ke_recordBytes ke) of
        Inl e \<Rightarrow> Panic e
      | Inr r \<Rightarrow> reader_iter (ke_decode ke) r)"

fun check_files :: "filesystem \<Rightarrow> path \<Rightarrow> int list \<Rightarrow> goerr option" where
  "check_files fs dir [] = None"
| "check_files fs dir (idx # idxs) =
     (if idx < 0 then Some (Err ''invalid checkpoint partition %d'')
      else if fs (checkpointPartPath dir idx) = None then Some (Err ''no such file or directory'')
      else check_files fs dir idxs)"

definition ReadCheckpoint :: "'a checkpoint_env \<Rightarrow> nat \<Rightarrow> filesystem \<Rightarrow> path \<Rightarrow> 'a RDD_of res" where
  "ReadCheckpoint ke i fs dir =
     (case fs (manifestPath dir) of
        None \<Rightarrow> Inl (Err ''no such file or directory'')
      | Some b \<Rightarrow>
          (case ke_unmarshal ke b of
             Inl e \<Rightarrow> Inl e
           | Inr None \<Rightarrow> Inl (Err ''checkpoint %q has no partition list'')
           | Inr (Some idxs) \<Rightarrow>
               (case check_files fs dir idxs of
                  Some e \<Rightarrow> Inl e
                | None \<Rightarrow> Inr (NewRDD i (map basePartition idxs) [] (\<lambda>p. checkpointIterator ke fs dir (Index p)) None))))"

text \<open>The checkpoint branches of an RDD: no dependencies, and its partitions come from the files.\<close>

definition RDD_Dependencies :: "'a checkpointed \<Rightarrow> Dependency list" where
  "RDD_Dependencies rdd = (if ck_path rdd \<noteq> None then [] else live_deps (rd_node (ck_rdd rdd)))"

definition RDD_computePartition ::
  "'a checkpoint_env \<Rightarrow> filesystem \<Rightarrow> 'a disk_codec \<Rightarrow> 'a checkpointed \<Rightarrow> Partition \<Rightarrow> 'a cache_state
     \<Rightarrow> 'a Iterator \<times> 'a cache_state" where
  "RDD_computePartition ke fs dk rdd p c =
     (case ck_path rdd of
        Some dir \<Rightarrow> (checkpointIterator ke fs dir (Index p), c)
      | None \<Rightarrow> computePartition dk (ck_rdd rdd) p c)"

section \<open>What is written is read\<close>

lemma emits_reader_iter:
  assumes "codec_ok enc dec" and "encoded enc vs ps" and "fits (br_max r) ps" and "br_data r = concat (map frame ps)"
    and "\<not> br_closed r" and "br_remaining r = word_of_nat (length ps)" and "length ps < 2 ^ 32"
  shows "emits (reader_iter dec r) vs None"
  using assms
proof (induction vs arbitrary: ps r)
  case Nil
  then show ?case by (subst reader_iter.code) (simp add: br_Next_end)
next
  case (Cons v vs)
  then obtain p qs where ps: "ps = p # qs" and p: "enc v = Inr p" and qs: "encoded enc vs qs"
    by (auto simp: encoded_Cons)
  have nz: "(word_of_nat (length ps) :: uint32) \<noteq> 0"
    using Cons.prems(7) ps by (simp add: word_of_nat_eq_0_iff nat_dvd_not_less del: of_nat_Suc)
  let ?r = "r\<lparr>br_data := concat (map frame qs), br_remaining := br_remaining r - 1,
      br_checksum := crc_update (br_checksum r) p\<rparr>"
  have "br_Next dec r = (dec p, ?r)"
    using br_Next_frame [of r p "concat (map frame qs)" dec] Cons.prems ps nz by (simp add: fits_def)
  moreover have "dec p = Inr v" using Cons.prems(1) p by (simp add: codec_ok_def)
  moreover have "emits (reader_iter dec ?r) vs None"
    by (rule Cons.IH [OF Cons.prems(1) qs]) (use Cons.prems ps in \<open>auto simp: fits_def\<close>)
  ultimately show ?case by (subst reader_iter.code) simp
qed

text \<open>Records that can be checkpointed, and their payloads.\<close>

definition storable :: "'a checkpoint_env \<Rightarrow> 'a list \<Rightarrow> bool" where
  "storable ke xs \<longleftrightarrow> length xs < 2 ^ 32 \<and> (\<forall>v \<in> set xs. \<exists>b. ke_encode ke v = Inr b \<and> length b \<le> ke_recordBytes ke)"

definition payloads :: "'a checkpoint_env \<Rightarrow> 'a list \<Rightarrow> byte list list" where
  "payloads ke xs = map (\<lambda>v. projr (ke_encode ke v)) xs"

lemma payloads_encoded: "\<forall>v \<in> set xs. \<exists>b. ke_encode ke v = Inr b \<and> length b \<le> mx \<Longrightarrow> encoded (ke_encode ke) xs (payloads ke xs)"
  by (induction xs) (auto simp: payloads_def encoded_Cons)

lemma payloads_fit: "storable ke xs \<Longrightarrow> ke_recordBytes ke < 2 ^ 32 \<Longrightarrow> fits (ke_recordBytes ke) (payloads ke xs)"
  by (fastforce simp: storable_def payloads_def fits_def)

lemma checkpoint_loop_emits:
  "emits it xs r \<Longrightarrow> r = None \<Longrightarrow> \<forall>v \<in> set xs. \<exists>b. ke_encode ke v = Inr b \<and> length b \<le> ke_recordBytes ke \<Longrightarrow>
     bw_holds w qs \<Longrightarrow> length qs + length xs < 2 ^ 32 \<Longrightarrow>
     \<exists>w'. checkpoint_loop ke w it = Some (w', None) \<and> bw_holds w' (qs @ payloads ke xs)"
proof (induction arbitrary: w qs rule: emits.induct)
  case (emits_Yield it xs r x)
  obtain b where b: "ke_encode ke x = Inr b" "length b \<le> ke_recordBytes ke" using emits_Yield.prems(2) by auto
  obtain w1 where w1: "bw_append w None b = Inr (w1, None)" using bw_append_ok [OF emits_Yield.prems(3)] emits_Yield.prems(4) by fastforce
  from emits_Yield.IH [OF emits_Yield.prems(1) _ bw_append_holds [OF emits_Yield.prems(3) w1]] emits_Yield.prems
  obtain w' where "checkpoint_loop ke w1 it = Some (w', None)" "bw_holds w' ((qs @ [b]) @ payloads ke xs)" by auto
  then show ?case using b w1 by (subst checkpoint_loop.simps) (simp add: payloads_def)
qed (subst checkpoint_loop.simps, simp add: payloads_def)+

lemma checkpoint_part_ok:
  assumes "emits (rd_compute rdd p) xs None" and "storable ke xs" and "fs (checkpointPartPath dir (Index p)) = None"
    and "ki_create io = (\<lambda>_. None)" and "ki_finish io = (\<lambda>_. None)"
  shows "checkpoint_part ke io dir rdd p fs = Some (fs(checkpointPartPath dir (Index p) \<mapsto> bucket_bytes (payloads ke xs)), None)"
proof -
  obtain w b where w: "newBucketWriter (checkpointPartPath dir (Index p)) None = Inr (w, b)"
    by (simp add: newBucketWriter_def reserve_opt_def)
  have enc: "\<forall>v \<in> set xs. \<exists>b. ke_encode ke v = Inr b \<and> length b \<le> ke_recordBytes ke" and len: "length xs < 2 ^ 32"
    using assms(2) by (simp_all add: storable_def)
  obtain w' where "checkpoint_loop ke w (rd_compute rdd p) = Some (w', None)" "bw_holds w' (payloads ke xs)"
    using checkpoint_loop_emits [OF assms(1) refl enc newBucketWriter_holds [OF w]] len by auto
  then show ?thesis using assms(3-5) w by (simp add: checkpoint_part_def Let_def bw_finish_holds)
qed

lemma checkpoint_part_elsewhere:
  "checkpoint_part ke io dir rdd p fs = Some (fs', r) \<Longrightarrow> f \<noteq> checkpointPartPath dir (Index p) \<Longrightarrow> fs' f = fs f"
  by (auto simp: checkpoint_part_def Let_def split: if_splits sum.splits option.splits)

lemma under_dir [simp]: "take (length dir) (checkpointPartPath dir i) = dir" "take (length dir) (manifestPath dir) = dir"
  by (simp_all add: checkpointPartPath_def manifestPath_def)

lemma checkpoint_parts_elsewhere:
  "checkpoint_parts ke io dir rdd ps fs = Some (fs', r) \<Longrightarrow> take (length dir) f \<noteq> dir \<Longrightarrow> fs' f = fs f"
proof (induction ps arbitrary: fs)
  case (Cons p ps)
  then obtain fs1 r1 where part: "checkpoint_part ke io dir rdd p fs = Some (fs1, r1)"
    and rest: "r1 = None \<and> checkpoint_parts ke io dir rdd ps fs1 = Some (fs', r) \<or> fs' = fs1"
    by (auto split: option.splits)
  have "f \<noteq> checkpointPartPath dir (Index p)" using Cons.prems(2) under_dir(1) by metis
  then have "fs1 f = fs f" using checkpoint_part_elsewhere [OF part] by simp
  then show ?case using rest Cons.IH [OF _ Cons.prems(2)] by auto
qed simp

lemma checkpointPartPath_inject: "checkpointPartPath dir i = checkpointPartPath dir j \<longleftrightarrow> i = j"
  by (auto simp: checkpointPartPath_def dest: format_int_inject)

lemma manifestPath_neq [simp]: "checkpointPartPath dir i \<noteq> manifestPath dir" "manifestPath dir \<noteq> checkpointPartPath dir i"
  by (simp_all add: checkpointPartPath_def manifestPath_def)

text \<open>All partitions: each in its own file.\<close>

lemma checkpoint_parts_ok:
  assumes "list_all2 (\<lambda>p xs. emits (rd_compute rdd p) xs None) ps xss" and "distinct (map Index ps)"
    and "\<forall>p \<in> set ps. fs (checkpointPartPath dir (Index p)) = None" and "list_all (storable ke) xss"
    and "ki_create io = (\<lambda>_. None)" and "ki_finish io = (\<lambda>_. None)"
  shows "\<exists>fs'. checkpoint_parts ke io dir rdd ps fs = Some (fs', None) \<and>
    (\<forall>j < length ps. fs' (checkpointPartPath dir (Index (ps ! j))) = Some (bucket_bytes (payloads ke (xss ! j)))) \<and>
    (\<forall>f. (\<forall>p \<in> set ps. f \<noteq> checkpointPartPath dir (Index p)) \<longrightarrow> fs' f = fs f)"
  using assms
proof (induction ps xss arbitrary: fs rule: list_all2_induct)
  case (Cons p ps xs xss)
  let ?file = "checkpointPartPath dir (Index p)"
  define fs1 where "fs1 = fs(?file \<mapsto> bucket_bytes (payloads ke xs))"
  have one: "checkpoint_part ke io dir rdd p fs = Some (fs1, None)"
    using checkpoint_part_ok [OF Cons.hyps(1)] Cons.prems by (simp add: fs1_def)
  have other: "\<forall>q \<in> set ps. ?file \<noteq> checkpointPartPath dir (Index q)"
    using Cons.prems(1) by (auto simp: checkpointPartPath_inject)
  then have "\<forall>q \<in> set ps. fs1 (checkpointPartPath dir (Index q)) = None" using Cons.prems(2) by (auto simp: fs1_def)
  with Cons.IH [of fs1] Cons.prems obtain fs' where fs': "checkpoint_parts ke io dir rdd ps fs1 = Some (fs', None)"
    "\<forall>j < length ps. fs' (checkpointPartPath dir (Index (ps ! j))) = Some (bucket_bytes (payloads ke (xss ! j)))"
    "\<forall>f. (\<forall>p \<in> set ps. f \<noteq> checkpointPartPath dir (Index p)) \<longrightarrow> fs' f = fs1 f" by auto
  have "fs' ?file = Some (bucket_bytes (payloads ke xs))" using fs'(3) other by (simp add: fs1_def)
  then show ?case using one fs' by (auto simp: fs1_def nth_Cons split: nat.split)
qed simp

lemma checkpointIterator_emits:
  assumes "codec_ok (ke_encode ke) (ke_decode ke)" and "ke_recordBytes ke < 2 ^ 32" and "storable ke xs"
    and "fs (checkpointPartPath dir i) = Some (bucket_bytes (payloads ke xs))"
  shows "emits (checkpointIterator ke fs dir i) xs None"
proof -
  have enc: "encoded (ke_encode ke) xs (payloads ke xs)"
    using assms(3) payloads_encoded by (auto simp: storable_def)
  have "length (payloads ke xs) < 2 ^ 32" using assms(3) by (simp add: storable_def payloads_def)
  then show ?thesis
    using emits_reader_iter [OF assms(1) enc] payloads_fit [OF assms(3,2)] assms(4)
    by (simp add: checkpointIterator_def openBucketFile_def openBucket_bytes)
qed

lemma check_files_None:
  "check_files fs dir idxs = None \<longleftrightarrow> (\<forall>i \<in> set idxs. 0 \<le> i \<and> fs (checkpointPartPath dir i) \<noteq> None)"
  by (induction idxs) auto

section \<open>Properties\<close>

definition fresh_dir :: "path \<Rightarrow> filesystem \<Rightarrow> bool" where
  "fresh_dir dir fs \<longleftrightarrow> (\<forall>f. take (length dir) f = dir \<longrightarrow> fs f = None)"

text \<open>
  C38: A checkpoint is read back: when the partitions can be stored and the operating system does not
  fail, \<open>Checkpoint\<close> returns its directory, the RDD has no dependencies any more and every partition
  comes from the files unchanged, and \<open>ReadCheckpoint\<close> rebuilds an RDD with the same partitions and
  records.
\<close>

theorem checkpoint_roundtrip:
  fixes rdd :: "'a checkpointed"
  assumes rdd: "ck_path rdd = None" "contents (ck_rdd rdd) xss" "distinct (map Index (rd_parts (ck_rdd rdd)))"
      "\<forall>p \<in> set (rd_parts (ck_rdd rdd)). 0 \<le> Index p"
    and io: "ki_root io" "ki_stages io = None" "ki_mkdir io = Inr dir" "ki_create io = (\<lambda>_. None)" "ki_finish io = (\<lambda>_. None)"
      "ki_manifest io = None" "fresh_dir dir fs"
    and codec: "codec_ok (ke_encode ke) (ke_decode ke)"
      "ke_unmarshal ke (ke_marshal ke (map Index (rd_parts (ck_rdd rdd)))) = Inr (Some (map Index (rd_parts (ck_rdd rdd))))"
    and fit: "ke_recordBytes ke < 2 ^ 32" "list_all (storable ke) xss"
  shows "\<exists>fs' rdd' r. Checkpoint ke io rdd fs = Some (Inr dir, fs', rdd') \<and> RDD_Dependencies rdd' = [] \<and>
    (\<forall>j < length xss. emits (fst (RDD_computePartition ke fs' dk rdd' (rd_parts (ck_rdd rdd) ! j) c)) (xss ! j) None) \<and>
    ReadCheckpoint ke i fs' dir = Inr r \<and> contents r xss \<and> map Index (rd_parts r) = map Index (rd_parts (ck_rdd rdd))"
proof -
  let ?parts = "rd_parts (ck_rdd rdd)"
  have none: "\<forall>p \<in> set ?parts. fs (checkpointPartPath dir (Index p)) = None" using io(7) by (simp add: fresh_dir_def)
  obtain fs1 where fs1: "checkpoint_parts ke io dir (ck_rdd rdd) ?parts fs = Some (fs1, None)"
    "\<forall>j < length ?parts. fs1 (checkpointPartPath dir (Index (?parts ! j))) = Some (bucket_bytes (payloads ke (xss ! j)))"
    using checkpoint_parts_ok [OF _ rdd(3) none fit(2) io(4,5)] rdd(2) unfolding contents_def by blast
  define fs' where "fs' = fs1(manifestPath dir \<mapsto> ke_marshal ke (map Index ?parts))"
  have len: "length xss = length ?parts" using contents_length [OF rdd(2)] .
  have files: "fs' (checkpointPartPath dir (Index (?parts ! j))) = Some (bucket_bytes (payloads ke (xss ! j)))"
    if "j < length xss" for j using fs1(2) that len by (simp add: fs'_def)
  have read: "emits (checkpointIterator ke fs' dir (Index (?parts ! j))) (xss ! j) None" if "j < length xss" for j
    using checkpointIterator_emits [of ke "xss ! j" fs' dir "Index (?parts ! j)"] codec(1) fit files [OF that] that
    by (simp add: list_all_length)
  have "check_files fs' dir (map Index ?parts) = None"
    unfolding check_files_None using files len rdd(4) by (auto simp: in_set_conv_nth)
  then have rc: "ReadCheckpoint ke i fs' dir = Inr (NewRDD i (map basePartition (map Index ?parts)) []
      (\<lambda>p. checkpointIterator ke fs' dir (Index p)) None)"
    by (simp add: ReadCheckpoint_def fs'_def codec(2))
  have "contents (NewRDD i (map basePartition (map Index ?parts)) [] (\<lambda>p. checkpointIterator ke fs' dir (Index p)) None) xss"
    using read len by (simp add: contents_def list_all2_conv_all_nth)
  moreover have "Checkpoint ke io rdd fs = Some (Inr dir, fs', rdd\<lparr>ck_path := Some dir\<rparr>)"
    using rdd(1) io(1-3,6) fs1(1) by (simp add: Checkpoint_def fs'_def)
  ultimately show ?thesis
    using rc read by (simp add: RDD_Dependencies_def RDD_computePartition_def comp_def)
qed

definition byte_checkpoint :: "nat \<Rightarrow> byte checkpoint_env" where
  "byte_checkpoint mx = \<lparr>ke_encode = byteEncode, ke_decode = byteDecode, ke_recordBytes = mx,
     ke_marshal = map word_of_int, ke_unmarshal = (\<lambda>b. Inr (Some (map uint b)))\<rparr>"

definition byte_io :: checkpoint_io where
  "byte_io = \<lparr>ki_root = True, ki_stages = None, ki_mkdir = Inr [''ckpt''], ki_create = (\<lambda>_. None),
     ki_finish = (\<lambda>_. None), ki_manifest = None\<rparr>"

lemma byte_parts_simps:
  "rd_parts byte_parts = [basePartition 0, basePartition 1]" "contents byte_parts [[4, 5], [6]]"
  by (simp_all add: byte_parts_def Persist_def NewRDD_def NewPartitions_def upt_rec contents_def emits_SliceIterator)

theorem checkpoint_roundtrip_witness:
  "\<exists>fs' rdd' r. Checkpoint (byte_checkpoint 9) byte_io \<lparr>ck_rdd = byte_parts, ck_path = None\<rparr> Map.empty = Some (Inr [''ckpt''], fs', rdd') \<and>
     ReadCheckpoint (byte_checkpoint 9) 8 fs' [''ckpt''] = Inr r \<and> Collect_rdd r = Some (Inr [4, 5, 6])"
proof -
  let ?rdd = "\<lparr>ck_rdd = byte_parts, ck_path = None\<rparr>" and ?ke = "byte_checkpoint 9"
  obtain fs' rdd' r where r: "Checkpoint ?ke byte_io ?rdd Map.empty = Some (Inr [''ckpt''], fs', rdd')"
    "ReadCheckpoint ?ke 8 fs' [''ckpt''] = Inr r" "contents r [[4, 5], [6]]"
    using checkpoint_roundtrip [of ?rdd "[[4, 5], [6]]" byte_io "[''ckpt'']" Map.empty ?ke byte_disk "empty_caches False" 8]
    by (auto simp: byte_parts_simps byte_io_def byte_checkpoint_def fresh_dir_def byte_codec_ok storable_def byteEncode_def)
  then show ?thesis using Collect_contents [OF r(3)] by auto
qed



end
