(* ===== verification/Local_Stages.thy ===== *)
theory Local_Stages
  imports Pair_RDDs Shuffle
begin

text \<open>
  \<^verbatim>\<open>computeShuffleStages\<close> of \<^verbatim>\<open>rdd_actions.go\<close>: before an action computes the partitions of its RDD in the
  process itself, it runs the map side of every shuffle below it, parents first. The theory shows
  that the stages run bottom-up, that the streams which the shuffle manager hands to the reducers
  afterwards are those that \<open>delivered\<close> asks for, and with it that a local \<open>ReduceByKey\<close> computes the
  reduction of every key with no assumption about the shuffle.
\<close>

section \<open>The walk\<close>

text \<open>
  \<open>cached\<close> is \<^verbatim>\<open>IsCached\<close> in the current state and \<open>run\<close> the body of the loop for a shuffle
  dependency. There is no table of finished shuffles: a shuffle below two branches runs twice.
\<close>

function stages_node :: "('s \<Rightarrow> RDD \<Rightarrow> bool) \<Rightarrow> (Dependency \<Rightarrow> 's \<Rightarrow> 's res) \<Rightarrow> RDD \<Rightarrow> 's \<Rightarrow> 's res"
and stages_deps :: "('s \<Rightarrow> RDD \<Rightarrow> bool) \<Rightarrow> (Dependency \<Rightarrow> 's \<Rightarrow> 's res) \<Rightarrow> Dependency list \<Rightarrow> 's \<Rightarrow> 's res" where
  "stages_node cached run r s = (if cached s r then Inr s else stages_deps cached run (live_deps r) s)"
| "stages_deps cached run [] s = Inr s"
| "stages_deps cached run (d # ds) s =
     bindR (stages_node cached run (Parent d) s) (\<lambda>s1.
     bindR (if is_shuffle d then run d s1 else Inr s1) (\<lambda>s2. stages_deps cached run ds s2))"
  by pat_completeness auto
termination
  by (relation "measure (\<lambda>x. case x of Inl (_, _, r, _) \<Rightarrow> node_size r
        | Inr (_, _, ds, _) \<Rightarrow> sum_list (map edge_size ds))")
     (auto simp: node_size_live edge_size_Parent)

declare stages_node.simps [simp del]

definition computeShuffleStages :: "('s \<Rightarrow> RDD \<Rightarrow> bool) \<Rightarrow> (Dependency \<Rightarrow> 's \<Rightarrow> 's res) \<Rightarrow> RDD \<Rightarrow> 's \<Rightarrow> 's res" where
  "computeShuffleStages cached run r s = stages_node cached run r s"

section \<open>The body for one shuffle\<close>

record 'r local_env =
  le_enc :: "'r \<Rightarrow> byte list res"
  le_dec :: "byte list \<Rightarrow> 'r res"
  le_recordBytes :: nat
  le_memoryBytes :: nat
  le_maxBytes :: "int option"
  le_pending :: "nat \<Rightarrow> path"

definition local_task :: "'r local_env \<Rightarrow> 'r ShuffleDep \<Rightarrow> path \<Rightarrow> nat \<Rightarrow> nat \<Rightarrow> 'r map_task" where
  "local_task env dep dir sid i =
     \<lparr>mt_dep = dep, mt_enc = le_enc env, mt_recordBytes = le_recordBytes env, mt_memoryBytes = le_memoryBytes env,
      mt_maxBytes = le_maxBytes env, mt_tmp = le_pending env i, mt_dir = mapDir dir ''local'' sid i 0\<rparr>"

definition manifest_paths :: "MapOutputManifest \<Rightarrow> nat \<rightharpoonup> path" where
  "manifest_paths m =
     foldl (\<lambda>paths b. paths(nat (ReduceID b) \<mapsto> Location m @ [bucketName (nat (ReduceID b))])) Map.empty (Buckets m)"

text \<open>The loop over the partitions of the parent, each with its index and its records.\<close>

fun local_maps ::
  "'r local_env \<Rightarrow> 'r ShuffleDep \<Rightarrow> path \<Rightarrow> nat \<Rightarrow> (nat \<times> 'r recordStream) list
     \<Rightarrow> fileShuffleManager \<times> diskBudget option \<Rightarrow> (fileShuffleManager \<times> diskBudget option) res" where
  "local_maps env dep dir sid [] st = Inr st"
| "local_maps env dep dir sid ((i, input) # parts) st =
     bindR (writeStreamMap (local_task env dep dir sid i) (snd st) (Inr ()) input ''local'' sid i 0 (fm_store (fst st)))
       (\<lambda>(m, store', budget').
          local_maps env dep dir sid parts
            (fm_install ((fst st)\<lparr>fm_store := store'\<rparr>) sid i (manifest_paths m), budget'))"

text \<open>A range sort first samples its partitions and sets the boundaries.\<close>

fun local_samples ::
  "('k \<Rightarrow> byte list res) \<Rightarrow> (nat \<times> 'k recordStream) list \<Rightarrow> 'k list \<Rightarrow> uint64 \<Rightarrow> 'k list res" where
  "local_samples enc [] samples seen = Inr samples"
| "local_samples enc ((i, keys) # parts) samples seen =
     bindR (sampleSortPartition enc i (fst keys) (snd keys)) (\<lambda>part.
       let (samples', seen') = appendSortSamples samples part seen
       in local_samples enc parts samples' seen')"

definition local_partitioner ::
  "(gokey \<Rightarrow> byte list res) \<Rightarrow> Partitioner \<Rightarrow> (gokey \<Rightarrow> gokey \<Rightarrow> bool) option \<Rightarrow> (nat \<times> gokey recordStream) list
     \<Rightarrow> Partitioner res" where
  "local_partitioner enc p lt keys =
     (case lt of
        Some before \<Rightarrow>
          if NumPartitions p > 1 then bindR (local_samples enc keys [] 0) (\<lambda>samples.
            Inr (SetRangeBounds p (selectRangeBounds samples (NumPartitions p) before)))
          else Inr p
      | None \<Rightarrow> Inr p)"

definition local_stage ::
  "'r local_env \<Rightarrow> 'r ShuffleDep \<Rightarrow> path \<Rightarrow> nat \<Rightarrow> (nat \<times> 'r recordStream) list
     \<Rightarrow> fileShuffleManager \<times> diskBudget option \<Rightarrow> (fileShuffleManager \<times> diskBudget option) res" where
  "local_stage env dep dir sid parts st =
     local_maps env dep dir sid parts (fm_RegisterShuffle (fst st) sid, snd st)"

text \<open>The whole body: sampling reads the keys of the same partitions first.\<close>

definition local_shuffle ::
  "'r local_env \<Rightarrow> (gokey \<Rightarrow> byte list res) \<Rightarrow> (gokey \<Rightarrow> gokey \<Rightarrow> bool) option \<Rightarrow> 'r ShuffleDep \<Rightarrow> path \<Rightarrow> nat
     \<Rightarrow> (nat \<times> 'r recordStream) list \<Rightarrow> fileShuffleManager \<times> diskBudget option
     \<Rightarrow> ('r ShuffleDep \<times> fileShuffleManager \<times> diskBudget option) res" where
  "local_shuffle env keyEnc sl dep dir sid parts st =
     bindR (local_partitioner keyEnc (sd_partitioner dep) sl
         (map (\<lambda>(i, input). (i, (map (ExtractKey dep) (fst input), snd input))) parts)) (\<lambda>p.
       let dep' = dep\<lparr>sd_partitioner := p\<rparr>
       in bindR (local_stage env dep' dir sid parts st) (\<lambda>st'. Inr (dep', st')))"

text \<open>\<^verbatim>\<open>shuffleStream\<close> for the file manager: a missing output panics when the stream is made.\<close>

definition shuffleStream :: "(byte list \<Rightarrow> 'r res) \<Rightarrow> fileShuffleManager \<Rightarrow> nat \<Rightarrow> nat \<Rightarrow> nat \<Rightarrow> 'r recordStream" where
  "shuffleStream dec m sid maps r = (case fm_stream dec m sid r maps of Inl e \<Rightarrow> ([], Some e) | Inr s \<Rightarrow> s)"

section \<open>The stages run bottom-up\<close>

text \<open>The shuffles of a lineage in the order of the walk when nothing is cached.\<close>

function post_order :: "RDD \<Rightarrow> Dependency list" where
  "post_order r = concat (map (\<lambda>d. post_order (Parent d) @ (if is_shuffle d then [d] else [])) (live_deps r))"
  by auto
termination
  by (relation "measure node_size") (auto simp: live_dep_size)

declare post_order.simps [simp del]

fun run_all :: "(Dependency \<Rightarrow> 's \<Rightarrow> 's res) \<Rightarrow> Dependency list \<Rightarrow> 's \<Rightarrow> 's res" where
  "run_all run [] s = Inr s"
| "run_all run (d # ds) s = bindR (run d s) (run_all run ds)"

lemma run_all_append: "run_all run (ds @ es) s = bindR (run_all run ds s) (run_all run es)"
proof (induction ds arbitrary: s)
  case (Cons d ds)
  then show ?case by (cases "run d s") simp_all
qed simp

lemma stages_run_all:
  "cached = (\<lambda>_ _. False) \<Longrightarrow> stages_node cached run r s = run_all run (post_order r) s"
  "cached = (\<lambda>_ _. False) \<Longrightarrow> stages_deps cached run ds s =
     run_all run (concat (map (\<lambda>d. post_order (Parent d) @ (if is_shuffle d then [d] else [])) ds)) s"
proof (induction cached run r s and cached run ds s rule: stages_node_stages_deps.induct)
  case (1 cached run r s)
  then show ?case by (simp add: stages_node.simps post_order.simps [of r])
next
  case (3 cached run d ds s)
  have IH: "stages_deps cached run ds s2 =
      run_all run (concat (map (\<lambda>d. post_order (Parent d) @ (if is_shuffle d then [d] else [])) ds)) s2" for s2
    using 3 by blast
  show ?case
  proof (cases "run_all run (post_order (Parent d)) s")
    case (Inr s1)
    then show ?thesis using 3 IH by (cases "run d s1") (simp_all add: run_all_append)
  qed (use 3 in \<open>simp add: run_all_append\<close>)
qed simp

lemma post_order_set: "set (post_order r) = {d \<in> set (all_deps r). is_shuffle d}"
proof (induction r rule: post_order.induct)
  case (1 r)
  have "set (all_deps r) = (\<Union>d \<in> set (live_deps r). insert d (set (all_deps (Parent d))))"
    by (subst all_deps_def, subst all_nodes.simps) (auto simp: all_deps_def)
  moreover have "set (post_order r) = (\<Union>d \<in> set (live_deps r). set (post_order (Parent d)) \<union> (if is_shuffle d then {d} else {}))"
    by (subst post_order.simps) (auto split: if_splits)
  ultimately show ?case using 1 by (auto split: if_splits)
qed

definition bottom_up :: "Dependency list \<Rightarrow> bool" where
  "bottom_up ds \<longleftrightarrow> (\<forall>j < length ds. \<forall>e \<in> set (all_deps (Parent (ds ! j))). is_shuffle e \<longrightarrow> e \<in> set (take j ds))"

lemma bottom_up_append:
  assumes "bottom_up ds" and "bottom_up es"
  shows "bottom_up (ds @ es)"
  unfolding bottom_up_def
proof (intro allI impI ballI)
  fix j e assume j: "j < length (ds @ es)" and e: "e \<in> set (all_deps (Parent ((ds @ es) ! j)))" "is_shuffle e"
  show "e \<in> set (take j (ds @ es))"
  proof (cases "j < length ds")
    case True
    then show ?thesis using assms(1) e by (auto simp: bottom_up_def nth_append)
  next
    case False
    then have "e \<in> set (take (j - length ds) es)" using assms(2) e j by (auto simp: bottom_up_def nth_append)
    then show ?thesis using False by simp
  qed
qed

lemma bottom_up_snoc: "bottom_up ds \<Longrightarrow> \<forall>e \<in> set (all_deps (Parent d)). is_shuffle e \<longrightarrow> e \<in> set ds \<Longrightarrow> bottom_up (ds @ [d])"
  by (auto simp: bottom_up_def nth_append less_Suc_eq)

lemma bottom_up_concat: "\<forall>ds \<in> set dss. bottom_up ds \<Longrightarrow> bottom_up (concat dss)"
  by (induction dss) (auto simp: bottom_up_append, simp add: bottom_up_def)

lemma post_order_bottom_up: "bottom_up (post_order r)"
proof (induction r rule: post_order.induct)
  case (1 r)
  have "bottom_up (post_order (Parent d) @ (if is_shuffle d then [d] else []))" if "d \<in> set (live_deps r)" for d
    using 1 [OF that] bottom_up_snoc [of "post_order (Parent d)" d] by (auto simp: post_order_set)
  then have "\<forall>ds \<in> set (map (\<lambda>d. post_order (Parent d) @ (if is_shuffle d then [d] else [])) (live_deps r)). bottom_up ds"
    by simp
  from bottom_up_concat [OF this] show ?case by (subst post_order.simps)
qed

section \<open>What the reducers read afterwards\<close>

lemma foldl_upd_other: "x \<notin> k ` set bs \<Longrightarrow> foldl (\<lambda>ps b. ps(k b \<mapsto> v b)) ps bs x = ps x"
  by (induction bs arbitrary: ps) auto

lemma foldl_upd_same:
  assumes "distinct (map k bs)" and "b \<in> set bs"
  shows "foldl (\<lambda>ps b. ps(k b \<mapsto> v b)) ps bs (k b) = Some (v b)"
proof -
  obtain as cs where bs: "bs = as @ b # cs" using assms(2) by (auto dest: split_list)
  then have "k b \<notin> k ` set cs" using assms(1) by auto
  then show ?thesis by (simp add: bs foldl_upd_other)
qed

lemma manifest_paths_nth:
  assumes "\<And>i. i < length (Buckets m) \<Longrightarrow> ReduceID (Buckets m ! i) = int i" and "rid < length (Buckets m)"
  shows "manifest_paths m rid = Some (Location m @ [bucketName rid])"
proof -
  have "map (\<lambda>b. nat (ReduceID b)) (Buckets m) = [0..<length (Buckets m)]"
    by (rule nth_equalityI) (simp_all add: assms(1))
  then have "distinct (map (\<lambda>b. nat (ReduceID b)) (Buckets m))" by simp
  from foldl_upd_same [OF this, of "Buckets m ! rid" "\<lambda>b. Location m @ [bucketName (nat (ReduceID b))]" Map.empty] assms
  show ?thesis by (simp add: manifest_paths_def)
qed

lemma mapDir_inject: "mapDir dir job sid i 0 = mapDir dir job sid j 0 \<longleftrightarrow> i = j"
  by (auto simp: mapDir_def dest: format_nat_inject)

text \<open>One map: its blocks are the records of the reducers, and the blocks of other maps stay.\<close>

definition local_ok :: "'r local_env \<Rightarrow> 'r ShuffleDep \<Rightarrow> bool" where
  "local_ok env dep \<longleftrightarrow> codec_ok (le_enc env) (le_dec env) \<and> sd_combine dep [] = [] \<and> le_recordBytes env < 2 ^ 32"

lemma local_map_blocks:
  assumes ok: "local_ok env dep"
    and run: "writeStreamMap (local_task env dep dir sid i) budget (Inr ()) (xs, r) ''local'' sid i 0 (fm_store m) = Inr (man, store', budget')"
    and rb: "fm_recordBytes m = le_recordBytes env"
  defines "m' \<equiv> fm_install (m\<lparr>fm_store := store'\<rparr>) sid i (manifest_paths man)"
  shows "r = None"
    and "\<exists>out. map_output dep xs out \<and> (\<forall>v \<in> set out. \<exists>rid < nat (NumPartitions (sd_partitioner dep)). reducer_of dep v = Inr (int rid)) \<and>
      (\<forall>rid < nat (NumPartitions (sd_partitioner dep)). \<exists>file. fm_lookup m' sid i rid = Some (mapDir dir ''local'' sid i 0 @ [bucketName rid]) \<and>
        fm_store m' (mapDir dir ''local'' sid i 0 @ [bucketName rid]) = Some file \<and>
        file_records (le_dec env) (le_recordBytes env) file = Some (for_reducer dep rid out))"
    and "butlast p \<noteq> mapDir dir ''local'' sid i 0 \<Longrightarrow> fm_store m' p = fm_store m p"
proof -
  let ?mt = "local_task env dep dir sid i" and ?n = "nat (NumPartitions (sd_partitioner dep))"
  have mt: "mt_dep ?mt = dep" "mt_enc ?mt = le_enc env" "mt_recordBytes ?mt = le_recordBytes env" "mt_dir ?mt = mapDir dir ''local'' sid i 0"
    by (simp_all add: local_task_def)
  have comb: "sd_combine (mt_dep ?mt) [] = []" using ok by (simp add: local_ok_def mt)
  note spec = writeStreamMap_spec [OF comb run, unfolded mt]
  show "r = None" by (rule spec(1))
  show "butlast p \<noteq> mapDir dir ''local'' sid i 0 \<Longrightarrow> fm_store m' p = fm_store m p" using spec(5) by (simp add: m'_def)
  obtain out where out: "map_output dep xs out" "\<forall>v \<in> set out. \<exists>i < ?n. reducer_of dep v = Inr (int i)"
    "\<forall>v \<in> set out. \<forall>p. le_enc env v = Inr p \<longrightarrow> length p \<le> le_recordBytes env"
    "\<forall>rid < ?n. \<exists>ps. encoded (le_enc env) (for_reducer dep rid out) ps \<and> length ps < 2 ^ 32 \<and>
       store' (mapDir dir ''local'' sid i 0 @ [bucketName rid]) = Some (bucket_bytes ps) \<and>
       Buckets man ! rid = (bucket_meta ps)\<lparr>ReduceID := int rid\<rparr>"
    using spec(4) by blast
  have ids: "ReduceID (Buckets man ! rid) = int rid" if "rid < length (Buckets man)" for rid
    using out(4) that spec(3) by fastforce
  have "\<exists>file. fm_lookup m' sid i rid = Some (mapDir dir ''local'' sid i 0 @ [bucketName rid]) \<and>
        fm_store m' (mapDir dir ''local'' sid i 0 @ [bucketName rid]) = Some file \<and>
        file_records (le_dec env) (le_recordBytes env) file = Some (for_reducer dep rid out)" if rid: "rid < ?n" for rid
  proof -
    obtain ps where ps: "encoded (le_enc env) (for_reducer dep rid out) ps" "length ps < 2 ^ 32"
      "store' (mapDir dir ''local'' sid i 0 @ [bucketName rid]) = Some (bucket_bytes ps)" using out(4) rid by blast
    have "fits (le_recordBytes env) ps"
      by (rule encoded_fits_limit [OF ps(1)]) (use out(3) ok in \<open>auto simp: for_reducer_def local_ok_def\<close>)
    then have "file_records (le_dec env) (le_recordBytes env) (bucket_bytes ps) = Some (for_reducer dep rid out)"
      using file_records_bucket_bytes [OF _ ps(1)] ps(2) encoded_length [OF ps(1)] ok by (simp add: local_ok_def)
    then show ?thesis using ps(3) manifest_paths_nth [OF ids, of rid] rid spec(2,3) by (simp add: m'_def fm_lookup_install)
  qed
  with out(1,2) show "\<exists>out. map_output dep xs out \<and> (\<forall>v \<in> set out. \<exists>rid < ?n. reducer_of dep v = Inr (int rid)) \<and>
      (\<forall>rid < ?n. \<exists>file. fm_lookup m' sid i rid = Some (mapDir dir ''local'' sid i 0 @ [bucketName rid]) \<and>
        fm_store m' (mapDir dir ''local'' sid i 0 @ [bucketName rid]) = Some file \<and>
        file_records (le_dec env) (le_recordBytes env) file = Some (for_reducer dep rid out))" by blast
qed

text \<open>The blocks of map \<open>i\<close> are in place: the records of \<open>out\<close>, divided among the reducers.\<close>

definition map_done :: "'r local_env \<Rightarrow> 'r ShuffleDep \<Rightarrow> nat \<Rightarrow> fileShuffleManager \<Rightarrow> nat \<times> 'r recordStream \<Rightarrow> 'r list \<Rightarrow> bool" where
  "map_done env dep sid m part out \<longleftrightarrow> snd (snd part) = None \<and> map_output dep (fst (snd part)) out \<and>
     (\<forall>v \<in> set out. \<exists>rid < nat (NumPartitions (sd_partitioner dep)). reducer_of dep v = Inr (int rid)) \<and>
     (\<forall>rid < nat (NumPartitions (sd_partitioner dep)). fm_block (le_dec env) m sid (fst part) rid = Some (for_reducer dep rid out))"

lemma local_maps_done:
  assumes "local_ok env dep" and "local_maps env dep dir sid parts st = Inr st'" and "distinct (map fst parts)"
    and "fm_recordBytes (fst st) = le_recordBytes env"
  shows "(\<exists>outs. list_all2 (map_done env dep sid (fst st')) parts outs) \<and>
    fm_recordBytes (fst st') = le_recordBytes env \<and>
    (\<forall>i rid. i \<notin> fst ` set parts \<longrightarrow> fm_lookup (fst st') sid i rid = fm_lookup (fst st) sid i rid) \<and>
    (\<forall>p. (\<forall>i \<in> fst ` set parts. butlast p \<noteq> mapDir dir ''local'' sid i 0) \<longrightarrow> fm_store (fst st') p = fm_store (fst st) p)"
  using assms(2-4)
proof (induction parts arbitrary: st)
  case (Cons part parts)
  let ?n = "nat (NumPartitions (sd_partitioner dep))" and ?dir = "\<lambda>i. mapDir dir ''local'' sid i 0"
  obtain i xs r where part: "part = (i, xs, r)" by (cases part)
  obtain man store' b1 where run: "writeStreamMap (local_task env dep dir sid i) (snd st) (Inr ()) (xs, r) ''local'' sid i 0 (fm_store (fst st)) = Inr (man, store', b1)"
    and rest: "local_maps env dep dir sid parts (fm_install ((fst st)\<lparr>fm_store := store'\<rparr>) sid i (manifest_paths man), b1) = Inr st'"
    using Cons.prems(1) by (auto simp: part bindR_Inr_conv)
  define m1 where "m1 = fm_install ((fst st)\<lparr>fm_store := store'\<rparr>) sid i (manifest_paths man)"
  note one = local_map_blocks [OF assms(1) run Cons.prems(3), folded m1_def]
  obtain out where out: "map_output dep xs out" "\<forall>v \<in> set out. \<exists>rid < ?n. reducer_of dep v = Inr (int rid)"
    "\<forall>rid < ?n. \<exists>file. fm_lookup m1 sid i rid = Some (?dir i @ [bucketName rid]) \<and> fm_store m1 (?dir i @ [bucketName rid]) = Some file \<and>
       file_records (le_dec env) (le_recordBytes env) file = Some (for_reducer dep rid out)"
    using one(2) by blast
  have IH: "\<exists>outs. list_all2 (map_done env dep sid (fst st')) parts outs" "fm_recordBytes (fst st') = le_recordBytes env"
    "\<And>j rid. j \<notin> fst ` set parts \<Longrightarrow> fm_lookup (fst st') sid j rid = fm_lookup m1 sid j rid"
    "\<And>p. \<forall>j \<in> fst ` set parts. butlast p \<noteq> ?dir j \<Longrightarrow> fm_store (fst st') p = fm_store m1 p"
    using Cons.IH [OF rest [folded m1_def]] Cons.prems(2,3) by (simp_all add: m1_def)
  have i: "i \<notin> fst ` set parts" using Cons.prems(2) by (simp add: part)
  then have "\<forall>j \<in> fst ` set parts. butlast (?dir i @ [bucketName rid]) \<noteq> ?dir j" for rid by (auto simp: mapDir_inject)
  then have "fm_block (le_dec env) (fst st') sid i rid = Some (for_reducer dep rid out)" if "rid < ?n" for rid
    using out(3) that IH(3) [OF i] IH(4) [of "?dir i @ [bucketName rid]"] IH(2) by (fastforce simp: fm_block_def)
  then have "map_done env dep sid (fst st') part out" using one(1) out(1,2) by (simp add: map_done_def part)
  moreover have "fm_lookup (fst st') sid j rid = fm_lookup (fst st) sid j rid" if "j \<notin> fst ` set (part # parts)" for j rid
    using IH(3) [of j rid] that by (simp add: m1_def fm_lookup_install part) (simp add: fm_lookup_def)
  moreover have "fm_store (fst st') p = fm_store (fst st) p" if "\<forall>j \<in> fst ` set (part # parts). butlast p \<noteq> ?dir j" for p
    using IH(4) [of p] one(3) [of p] that by (simp add: part)
  ultimately show ?case using IH(1,2) by blast
qed (auto intro: exI [of _ "[]"])

text \<open>After a local stage every reducer streams its records of all maps, in the order of the maps.\<close>

lemma local_stage_streams:
  assumes ok: "local_ok env dep" and run: "local_stage env dep dir sid (enumerate 0 inputs) (m, b) = Inr (m', b')"
    and rb: "fm_recordBytes m = le_recordBytes env"
  shows "\<exists>outs. list_all2 (\<lambda>input out. snd input = None \<and> map_output dep (fst input) out) inputs outs \<and>
    (\<forall>v \<in> set (concat outs). \<exists>rid < nat (NumPartitions (sd_partitioner dep)). reducer_of dep v = Inr (int rid)) \<and>
    (\<forall>rid < nat (NumPartitions (sd_partitioner dep)).
       shuffleStream (le_dec env) m' sid (length inputs) rid = (for_reducer dep rid (concat outs), None))"
proof -
  have "fm_recordBytes (fm_RegisterShuffle m sid) = le_recordBytes env" using rb by (simp add: fm_RegisterShuffle_def)
  then obtain outs where outs: "list_all2 (map_done env dep sid m') (enumerate 0 inputs) outs"
    using local_maps_done [OF ok run [unfolded local_stage_def]] by auto
  have len: "length outs = length inputs" using list_all2_lengthD [OF outs] by simp
  have nth: "map_done env dep sid m' (i, inputs ! i) (outs ! i)" if "i < length inputs" for i
    using list_all2_nthD [OF outs, of i] that by (simp add: nth_enumerate_eq)
  have concat_filter: "for_reducer dep rid (concat outs) = concat (map (\<lambda>i. for_reducer dep rid (outs ! i)) [0..<length inputs])" for rid
  proof -
    have "for_reducer dep rid (concat oss) = concat (map (for_reducer dep rid) oss)" for oss by (induction oss) simp_all
    moreover have "map (\<lambda>i. for_reducer dep rid (outs ! i)) [0..<length inputs] = map (for_reducer dep rid) outs"
      unfolding len [symmetric] by (rule nth_equalityI) simp_all
    ultimately show ?thesis by simp
  qed
  have "shuffleStream (le_dec env) m' sid (length inputs) rid = (for_reducer dep rid (concat outs), None)"
    if "rid < nat (NumPartitions (sd_partitioner dep))" for rid
    using fm_stream_blocks [of "length inputs" "le_dec env" m' sid rid "\<lambda>i. for_reducer dep rid (outs ! i)"] nth that
    by (simp add: map_done_def shuffleStream_def concat_filter)
  moreover have "list_all2 (\<lambda>input out. snd input = None \<and> map_output dep (fst input) out) inputs outs"
    using nth len by (simp add: list_all2_conv_all_nth map_done_def)
  moreover have "\<exists>rid < nat (NumPartitions (sd_partitioner dep)). reducer_of dep v = Inr (int rid)" if v: "v \<in> set (concat outs)" for v
  proof -
    obtain out where "out \<in> set outs" "v \<in> set out" using v by auto
    moreover obtain i where "i < length inputs" "out = outs ! i" using calculation(1) len by (metis in_set_conv_nth)
    ultimately show ?thesis using nth [of i] by (simp add: map_done_def)
  qed
  ultimately show ?thesis by blast
qed

section \<open>A local reduction, end to end\<close>

text \<open>The shuffle dependency that \<^verbatim>\<open>NewReduceByKeyRDD\<close> makes.\<close>

definition reduce_dep ::
  "Partitioner \<Rightarrow> ((gokey \<times> 'v) list \<Rightarrow> (gokey \<times> 'v) list) \<Rightarrow> ('v \<Rightarrow> 'v \<Rightarrow> 'v) \<Rightarrow> (gokey \<times> 'v) ShuffleDep" where
  "reduce_dep p order f =
     \<lparr>sd_partitioner = p, sd_key = Some fst, sd_mapSide = True,
      sd_combine = combineMapOutput order (Some (reduceAggregator f)) True\<rparr>"

lemma for_reducer_pairs:
  assumes "sd_key dep = Some fst" and "\<forall>v \<in> set (concat outs). \<exists>rid. reducer_of dep v = Inr (int rid)"
    and "\<forall>v \<in> set (concat outs). fst v \<noteq> NilKey"
  shows "for_reducer dep r (concat outs) = reducer_records (sd_partitioner dep) outs r"
proof -
  have "reducer_of dep v = GetPartition (sd_partitioner dep) (fst v)" if "v \<in> set (concat outs)" for v
    using bspec [OF assms(2) that] bspec [OF assms(3) that] assms(1)
    by (auto simp: reducer_of_def ExtractKey_def Let_def bindR_Inr_conv)
  then show ?thesis unfolding for_reducer_def reducer_records_def by (intro filter_cong) simp_all
qed

lemma combine_length:
  assumes "\<And>zs. mset (order zs) = mset zs"
  shows "length (combineMapOutput order (Some (reduceAggregator f)) True items) \<le> length items"
proof (cases "items = []")
  case False
  let ?slots = "slots_of (reduceAggregator f) items"
  have "distinct (map fst ?slots)" "fst ` set ?slots = fst ` set items" using slots_of_spec [of "reduceAggregator f" items] by auto
  then have "length ?slots = card (fst ` set items)" using distinct_card [of "map fst ?slots"] by simp
  also have "\<dots> \<le> length items" using card_image_le [of "set items" fst] card_length [of items] by simp
  finally have "length ?slots \<le> length items" .
  moreover have "length (order ?slots) = length ?slots" using assms by (metis size_mset)
  ultimately show ?thesis using False by (simp add: combineMapOutput_def slots_of_def)
qed (simp add: combineMapOutput_def)

lemma combines_length:
  assumes "\<And>zs. mset (order zs) = mset zs" and "list_all2 (combines f order) xss outs"
  shows "length (concat outs) \<le> length (concat xss)"
proof -
  have "length (concat (map (combineMapOutput order (Some (reduceAggregator f)) True) bss)) \<le> length (concat bss)" for bss
    by (induction bss) (use combine_length [OF assms(1)] in \<open>auto intro: add_mono\<close>)
  then show ?thesis using combines_flat [OF assms(2)] by metis
qed

text \<open>
  C1: Running \<open>ReduceByKey\<close> in the process itself: when the map stage of its shuffle succeeds, the
  streams that the shuffle manager then hands out make the collected result one record for every key,
  with the reduction of all its values in input order. Map-side combining, bucket files, manifests,
  the chain reader, external sort and aggregation together change nothing.
\<close>

theorem local_reduce_by_key:
  assumes rdd: "contents rdd xss" and f: "assoc f" "\<And>zs. mset (order zs) = mset zs"
    and env: "local_ok env (reduce_dep p order f)" "fm_recordBytes m = le_recordBytes env" "0 < NumPartitions p"
    and run: "local_stage env (reduce_dep p order f) dir sid (enumerate 0 (map (\<lambda>xs. (xs, None)) xss)) (m, b) = Inr (m', b')"
    and keys: "keys_ok (map fst (concat xss))" "NilKey \<notin> fst ` set (concat xss)" "length (concat xss) < 2 ^ 32"
    and sorter: "sorter_ok ((re_sorter re)\<lparr>so_less := token_less\<rparr>)"
      "\<And>k v. k \<in> fst ` set (concat xss) \<Longrightarrow> admissible ((re_sorter re)\<lparr>so_less := token_less\<rparr>) (k, v)"
    and fits: "\<And>v. \<exists>b. re_encode re v = Inr b \<and> length b \<le> re_groupBytes re"
  shows "\<exists>ks. distinct ks \<and> set ks = fst ` set (concat xss) \<and>
    Collect_rdd (ReduceByKey re i sid rdd p f (shuffleStream (le_dec env) m' sid (length xss))) =
      Some (Inr (map (\<lambda>k. (k, reduce f (values_of k (concat xss)))) ks))"
proof -
  let ?dep = "reduce_dep p order f"
  have p: "sd_partitioner ?dep = p" and key: "sd_key ?dep = Some fst" by (simp_all add: reduce_dep_def)
  obtain outs where outs: "list_all2 (\<lambda>input out. snd input = None \<and> map_output ?dep (fst input) out) (map (\<lambda>xs. (xs, None :: goerr option)) xss) outs"
    "\<forall>v \<in> set (concat outs). \<exists>rid < nat (NumPartitions p). reducer_of ?dep v = Inr (int rid)"
    "\<forall>rid < nat (NumPartitions p). shuffleStream (le_dec env) m' sid (length xss) rid = (for_reducer ?dep rid (concat outs), None)"
    using local_stage_streams [OF env(1) run env(2)] unfolding p by auto
  have comb: "list_all2 (combines f order) xss outs"
    using outs(1) by (auto simp: list_all2_conv_all_nth map_output_def combines_def reduce_dep_def)
  note red = combined_reduction [OF f comb]
  have "\<forall>v \<in> set (concat outs). fst v \<noteq> NilKey" using red(1) keys(2) by (metis imageI)
  then have "delivered p outs (shuffleStream (le_dec env) m' sid (length xss))"
    using outs(3) for_reducer_pairs [of ?dep outs] outs(2) unfolding delivered_def p by (metis key)
  then have runs: "runs_shuffle rdd xss (combines f order) outs p (shuffleStream (le_dec env) m' sid (length xss))"
    using rdd comb by (simp add: runs_shuffle_def)
  have "keys_ok (map fst (concat outs))" by (rule keys_ok_subset [OF keys(1)]) (use red(1) in \<open>simp del: set_concat\<close>)
  moreover have "list_all (admissible ((re_sorter re)\<lparr>so_less := token_less\<rparr>)) (concat outs)"
    unfolding list_all_iff using sorter(2) red(1) by (metis imageI prod.collapse)
  ultimately have "sortable re (concat outs)"
    using sorter(1) combines_length [OF f(2) comb] keys(3) by (simp add: sortable_def)
  then show ?thesis using reduce_by_key_correct [OF runs f env(3) _ fits] by blast
qed

definition pair_local :: "(gokey \<times> byte) local_env" where
  "pair_local = \<lparr>le_enc = byte_pair_codec_enc, le_dec = byte_pair_codec_dec, le_recordBytes = 16, le_memoryBytes = 1000,
     le_maxBytes = None, le_pending = (\<lambda>i. [''pending'' @ format_nat i])\<rparr>"

lemma pair_stage_runs:
  "\<exists>m' b'. local_stage pair_local (reduce_dep (HashPartitioner 1) id (+)) [''disk''] 4
     (enumerate 0 (map (\<lambda>xs. (xs, None)) [[(BoolKey True, 5), (BoolKey False, 1)], [(BoolKey True, 7)]])) (empty_file_manager, None) = Inr (m', b')"
  by (simp add: local_stage_def local_task_def pair_local_def reduce_dep_def writeStreamMap_def upt_conv_Cons newBucketWriter_def
      reserve_opt_def write_record_def reducer_of_def ExtractKey_def GetPartition_hash_def byte_pair_codec_enc_def
      recordLimit_def activate_def bw_append_def Let_def batch_step_def flush_batch_def publish_def combineMapOutput_def
      reduceAggregator_def split_beta)

theorem local_reduce_by_key_witness:
  "\<exists>m r1 r2. {r1, r2} = {(BoolKey True, 12), (BoolKey False, 1)} \<and>
     Collect_rdd (ReduceByKey \<lparr>re_sorter = byte_pair_sorter, re_encode = byteEncode, re_groupBytes = 9\<rparr>
       3 4 pair_parts (HashPartitioner 1) (+) (shuffleStream byte_pair_codec_dec m 4 2)) = Some (Inr [r1, r2])"
proof -
  let ?re = "\<lparr>re_sorter = byte_pair_sorter, re_encode = byteEncode, re_groupBytes = 9\<rparr>"
  let ?xss = "[[(BoolKey True, 5), (BoolKey False, 1)], [(BoolKey True, 7 :: byte)]]"
  obtain m b where run: "local_stage pair_local (reduce_dep (HashPartitioner 1) id (+)) [''disk''] 4
      (enumerate 0 (map (\<lambda>xs. (xs, None)) ?xss)) (empty_file_manager, None) = Inr (m, b)"
    using pair_stage_runs by blast
  have env: "local_ok pair_local (reduce_dep (HashPartitioner 1) id (+))" "fm_recordBytes empty_file_manager = le_recordBytes pair_local"
    "le_dec pair_local = byte_pair_codec_dec"
    by (auto simp: local_ok_def pair_local_def reduce_dep_def combineMapOutput_def empty_file_manager_def codec_ok_def
        byte_pair_codec_enc_def byte_pair_codec_dec_def split: gokey.splits)
  have assoc: "assoc ((+) :: byte \<Rightarrow> byte \<Rightarrow> byte)" by (simp add: assoc_def add.assoc)
  have sorter: "sorter_ok ((re_sorter ?re)\<lparr>so_less := token_less\<rparr>)" using byte_pair_sorter_ok by simp
  have adm: "admissible ((re_sorter ?re)\<lparr>so_less := token_less\<rparr>) (k, v)" if "k \<in> fst ` set (concat ?xss)" for k v
    using that by (auto simp: admissible_def byte_pair_sorter_def byte_pair_codec_enc_def)
  have keys: "keys_ok (map fst (concat ?xss))" "NilKey \<notin> fst ` set (concat ?xss)" "length (concat ?xss) < 2 ^ 32"
    by (simp_all add: keys_ok_def)
  have fit: "\<exists>b. re_encode ?re v = Inr b \<and> length b \<le> re_groupBytes ?re" for v by (simp add: byteEncode_def)
  have order: "mset (id zs) = mset zs" for zs :: "(gokey \<times> byte) list" by simp
  have n: "0 < NumPartitions (HashPartitioner 1)" by simp
  obtain ks where ks: "distinct ks" "set ks = fst ` set (concat ?xss)"
    "Collect_rdd (ReduceByKey ?re 3 4 pair_parts (HashPartitioner 1) (+) (shuffleStream (le_dec pair_local) m 4 (length ?xss))) =
       Some (Inr (map (\<lambda>k. (k, reduce (+) (values_of k (concat ?xss)))) ks))"
    using local_reduce_by_key [OF pair_parts_contents assoc order env(1,2) n run keys sorter adm fit, of 3] by blast
  have len: "length ?xss = 2" by simp
  have two: "set ks = {BoolKey True, BoolKey False}" using ks(2) by auto
  have "length ks = 2" using ks(1) two distinct_card [of ks] by simp
  then obtain k1 k2 where "ks = [k1, k2]" by (auto simp: length_Suc_conv numeral_2_eq_2)
  then show ?thesis using ks(1,3) [unfolded env(3) len] two
    by (intro exI [of _ m] exI [of _ "(k1, reduce (+) (values_of k1 (concat ?xss)))"]
        exI [of _ "(k2, reduce (+) (values_of k2 (concat ?xss)))"]) (auto simp: doubleton_eq_iff reduce_def)
qed

text \<open>
  C40: With nothing cached, the local run of an action executes exactly the shuffles of its lineage,
  and before the map stage of a shuffle runs, the map stages of all shuffles below it have run.
\<close>

theorem local_stages_bottom_up:
  "\<exists>ds. (\<forall>run s. computeShuffleStages (\<lambda>_ _. False) run r s = run_all run ds s) \<and>
     set ds = {d \<in> set (all_deps r). is_shuffle d} \<and> bottom_up ds"
  by (intro exI [of _ "post_order r"])
    (simp add: computeShuffleStages_def stages_run_all(1) [OF refl] post_order_set post_order_bottom_up)

end
