(* ===== verification/Local_Sort.thy ===== *)
theory Local_Sort
  imports Local_Stages Range_Sort
begin

text \<open>
  \<^verbatim>\<open>SortByKey\<close> run in the process itself: the shuffle dependency of \<^verbatim>\<open>pair_rdd.go\<close>, sampling and boundaries,
  the map stage, and the external sort of every range. The collected result is the stable sort of
  the records.
\<close>

text \<open>The dependency that \<^verbatim>\<open>SortByKey\<close> makes: no combining, and the key of a pair decides.\<close>

definition sort_dep :: "int \<Rightarrow> (gokey \<Rightarrow> gokey \<Rightarrow> bool) \<Rightarrow> (gokey \<times> 'v) ShuffleDep" where
  "sort_dep np compare =
     \<lparr>sd_partitioner = NewRangePartitioner np compare, sd_key = Some fst, sd_mapSide = False, sd_combine = id\<rparr>"

lemma sort_compare_swo: "strict_weak_order lt \<Longrightarrow> strict_weak_order (sort_compare lt ascend)"
proof -
  assume lt: "strict_weak_order lt"
  then have "strict_weak_order (\<lambda>a b. lt b a)" unfolding strict_weak_order_def by blast
  moreover have "sort_compare lt True = lt" "sort_compare lt False = (\<lambda>a b. lt b a)" by (simp_all add: fun_eq_iff sort_compare_def)
  ultimately show ?thesis using lt by (cases ascend) simp_all
qed

text \<open>Records with equivalent keys are in one range, so the whole keeps their order.\<close>

lemma range_reducer_filter:
  assumes "strict_weak_order lt"
  shows "filter (\<lambda>y. \<not> lt (fst y) k \<and> \<not> lt k (fst y)) (range_reducer n bounds lt recs i) =
    filter (\<lambda>y. GetPartition_range n bounds lt (fst y) = int i) (filter (\<lambda>y. \<not> lt (fst y) k \<and> \<not> lt k (fst y)) recs)"
  using SliceStable_stable [OF strict_weak_order_fst [OF assms], of "(k, undefined)"
      "filter (\<lambda>y. GetPartition_range n bounds lt (fst y) = int i) recs"]
  by (simp add: range_reducer_def conj_ac)

lemma GetPartition_range_equiv:
  assumes "strict_weak_order lt" and "\<And>bs. bounds = Some bs \<Longrightarrow> sorted_wrt (\<lambda>a b. \<not> lt b a) bs"
    and "\<not> lt a k" "\<not> lt k a"
  shows "GetPartition_range n bounds lt a = GetPartition_range n bounds lt k"
proof (cases bounds)
  case (Some bs)
  note mono = GetPartition_range_mono [OF assms(1) assms(2) [OF Some]]
  show ?thesis using mono [of k a n] mono [of a k n] assms(3,4) Some by simp
qed (simp add: GetPartition_range_def)

lemma concat_filter_one:
  assumes "i < n" and "\<forall>x \<in> set xs. f x = int i"
  shows "concat (map (\<lambda>j. filter (\<lambda>x. f x = int j) xs) [0..<n]) = xs"
proof -
  have "filter (\<lambda>x. f x = int j) xs = (if j = i then xs else [])" for j using assms(2) by (induction xs) auto
  moreover have "concat (map (\<lambda>j. if j = i then xs else []) [0..<n]) = xs" using assms(1) by (induction n) (auto simp: less_Suc_eq)
  ultimately show ?thesis by simp
qed

lemma range_sort_stable:
  assumes swo: "strict_weak_order lt" and n: "0 < n"
    and bounds: "\<And>bs. bounds = Some bs \<Longrightarrow> sorted_wrt (\<lambda>a b. \<not> lt b a) bs"
  shows "filter (\<lambda>y. \<not> lt (fst y) k \<and> \<not> lt k (fst y)) (concat (map (range_reducer n bounds lt recs) [0..<nat n])) =
    filter (\<lambda>y. \<not> lt (fst y) k \<and> \<not> lt k (fst y)) recs"
proof -
  let ?eq = "\<lambda>y. \<not> lt (fst y) k \<and> \<not> lt k (fst y)" and ?part = "GetPartition_range n bounds lt"
  have "filter ?eq (concat (map (range_reducer n bounds lt recs) [0..<nat n])) =
      concat (map (\<lambda>i. filter (\<lambda>y. ?part (fst y) = int i) (filter ?eq recs)) [0..<nat n])"
    by (simp add: filter_concat comp_def range_reducer_filter [OF swo])
  also have "\<dots> = filter ?eq recs"
  proof (rule concat_filter_one)
    show "nat (?part k) < nat n" using GetPartition_range_range [OF n, of bounds lt k] by simp
    show "\<forall>x \<in> set (filter ?eq recs). ?part (fst x) = int (nat (?part k))"
      using GetPartition_range_equiv [OF swo bounds] GetPartition_range_range [OF n, of bounds lt k] by auto
  qed
  finally show ?thesis .
qed


lemma emits_stream_iter: "emits (stream_iter (xs, None)) xs None"
proof (induction xs)
  case Nil
  then show ?case by (subst stream_iter.code) simp
next
  case (Cons x xs)
  then show ?case by (subst stream_iter.code) simp
qed

lemma local_partitioner_bounds:
  assumes "local_partitioner enc (NewRangePartitioner np compare) (Some compare) keys = Inr p" and "strict_weak_order compare"
  shows "\<exists>bounds. p = RangePartitioner np bounds compare \<and> (\<forall>bs. bounds = Some bs \<longrightarrow> sorted_wrt (\<lambda>a b. \<not> compare b a) bs)"
  using assms selectRangeBounds_sorted(1) [OF assms(2)]
  by (auto simp: local_partitioner_def NewRangePartitioner_def bindR_Inr_conv split: if_splits)

text \<open>The ranges of a sort, when the shuffle delivers the records of every range.\<close>

lemma contents_SortByKey:
  fixes so :: "(gokey \<times> 'v) sorter" and recs :: "(gokey \<times> 'v) list" and lt :: "gokey \<Rightarrow> gokey \<Rightarrow> bool" and ascend :: bool
  defines "cmp \<equiv> sort_compare lt ascend"
  assumes "0 < np" and "sorter_ok (so\<lparr>so_less := \<lambda>a b. cmp (fst a) (fst b)\<rparr>)" and "length recs < 2 ^ 32"
    and "list_all (admissible (so\<lparr>so_less := \<lambda>a b. cmp (fst a) (fst b)\<rparr>)) recs"
    and read: "\<And>r. r < nat np \<Longrightarrow> read r = (filter (\<lambda>kv. GetPartition_range np bounds cmp (fst kv) = int r) recs, None)"
  shows "contents (SortByKey so i sid rdd lt ascend (Some np) read) (map (range_reducer np bounds cmp recs) [0..<nat np])"
proof -
  let ?so = "so\<lparr>so_less := \<lambda>a b. cmp (fst a) (fst b)\<rparr>"
  let ?recs = "\<lambda>r. filter (\<lambda>kv. GetPartition_range np bounds cmp (fst kv) = int r) recs"
  have "externalSort ?so None (read r) = Inr (range_reducer np bounds cmp recs r, length (?recs r), None)" if "r < nat np" for r
  proof -
    have "length (?recs r) < 2 ^ 32" using length_filter_le assms(4) by (rule le_less_trans)
    moreover have "list_all (admissible ?so) (?recs r)" using assms(5) by (simp add: list_all_iff)
    ultimately show ?thesis
      using externalSort_succeeds [OF assms(3), of "?recs r"] read [OF that] by (simp add: range_reducer_def)
  qed
  then show ?thesis
    using assms(2) by (simp add: contents_def SortByKey_def Let_def cmp_def [symmetric] list_all2_conv_all_nth nth_NewPartitions emits_stream_iter)
qed

text \<open>
  C2: Running \<open>SortByKey\<close> in the process itself, in either direction and with any number of ranges:
  when sampling and the map stage succeed, the collected result is the stable sort of all records.
  It is ordered by key, a permutation of the input, and records with equivalent keys keep their
  order, whatever keys the samples happened to hold.
\<close>

theorem local_sort_by_key:
  fixes so :: "(gokey \<times> 'v) sorter" and rdd :: "(gokey \<times> 'v) RDD_of" and lt :: "gokey \<Rightarrow> gokey \<Rightarrow> bool" and ascend :: bool
  defines "cmp \<equiv> sort_compare lt ascend"
  assumes rdd: "contents rdd xss" and lt: "strict_weak_order lt" and np: "0 < np"
    and env: "codec_ok (le_enc env) (le_dec env)" "le_recordBytes env < 2 ^ 32" "fm_recordBytes m = le_recordBytes env"
    and run: "local_shuffle env keyEnc (Some cmp) (sort_dep np cmp) dir sid (enumerate 0 (map (\<lambda>xs. (xs, None)) xss)) (m, b) = Inr (dep, m', b')"
    and recs: "NilKey \<notin> fst ` set (concat xss)" "length (concat xss) < 2 ^ 32"
    and sorter: "sorter_ok (so\<lparr>so_less := \<lambda>a b. cmp (fst a) (fst b)\<rparr>)"
      "list_all (admissible (so\<lparr>so_less := \<lambda>a b. cmp (fst a) (fst b)\<rparr>)) (concat xss)"
  shows "\<exists>out. Collect_rdd (SortByKey so i sid rdd lt ascend (Some np) (shuffleStream (le_dec env) m' sid (length xss))) = Some (Inr out) \<and>
    ascending (\<lambda>a b. cmp (fst a) (fst b)) out \<and> mset out = mset (concat xss) \<and>
    (\<forall>k. filter (\<lambda>y. \<not> cmp (fst y) k \<and> \<not> cmp k (fst y)) out = filter (\<lambda>y. \<not> cmp (fst y) k \<and> \<not> cmp k (fst y)) (concat xss))"
proof -
  have swo: "strict_weak_order cmp" using sort_compare_swo [OF lt] by (simp add: cmp_def)
  let ?inputs = "map (\<lambda>xs. (xs, None :: goerr option)) xss"
  obtain p keys where p: "local_partitioner keyEnc (NewRangePartitioner np cmp) (Some cmp) keys = Inr p"
    and dep: "dep = (sort_dep np cmp)\<lparr>sd_partitioner := p\<rparr>"
    and stage: "local_stage env dep dir sid (enumerate 0 ?inputs) (m, b) = Inr (m', b')"
    using run by (auto simp: local_shuffle_def Let_def bindR_Inr_conv sort_dep_def)
  obtain bounds where bounds: "p = RangePartitioner np bounds cmp" "\<And>bs. bounds = Some bs \<Longrightarrow> sorted_wrt (\<lambda>a b. \<not> cmp b a) bs"
    using local_partitioner_bounds [OF p swo] by blast
  have fields: "sd_partitioner dep = p" "sd_key dep = Some fst" "\<not> sd_mapSide dep" by (simp_all add: dep sort_dep_def)
  have ok: "local_ok env dep" using env(1,2) by (simp add: local_ok_def dep sort_dep_def)
  obtain outs where outs: "list_all2 (\<lambda>input out. snd input = None \<and> map_output dep (fst input) out) ?inputs outs"
    "\<forall>v \<in> set (concat outs). \<exists>rid < nat np. reducer_of dep v = Inr (int rid)"
    "\<forall>rid < nat np. shuffleStream (le_dec env) m' sid (length xss) rid = (for_reducer dep rid (concat outs), None)"
    using local_stage_streams [OF ok stage env(3)] unfolding fields(1) bounds(1) by auto
  have "outs = xss" using outs(1) fields(3) by (auto simp: list_all2_conv_all_nth map_output_def intro: nth_equalityI)
  then have "\<forall>v \<in> set (concat xss). \<exists>rid. reducer_of dep v = Inr (int rid)" using outs(2) by blast
  moreover have "\<forall>v \<in> set (concat xss). fst v \<noteq> NilKey" using recs(1) by (metis imageI)
  ultimately have "for_reducer dep r (concat xss) = reducer_records p xss r" for r
    using for_reducer_pairs [OF fields(2)] fields(1) by metis
  then have read: "shuffleStream (le_dec env) m' sid (length xss) r =
      (filter (\<lambda>kv. GetPartition_range np bounds cmp (fst kv) = int r) (concat xss), None)" if "r < nat np" for r
    using outs(3) that \<open>outs = xss\<close> by (simp add: bounds(1) reducer_records_def del: filter_concat)
  let ?out = "concat (map (range_reducer np bounds cmp (concat xss)) [0..<nat np])"
  have "Collect_rdd (SortByKey so i sid rdd lt ascend (Some np) (shuffleStream (le_dec env) m' sid (length xss))) = Some (Inr ?out)"
    by (rule Collect_contents, rule contents_SortByKey [where lt = lt and ascend = ascend, folded cmp_def, OF np sorter(1) recs(2) sorter(2) read])
  then show ?thesis
    using range_sort_global [OF swo np bounds(2)] range_sort_stable [OF swo np bounds(2)] by blast
qed



definition bool_before :: "gokey \<Rightarrow> gokey \<Rightarrow> bool" where
  "bool_before a b \<longleftrightarrow> a \<noteq> BoolKey True \<and> b = BoolKey True"

definition bool_enc :: "gokey \<Rightarrow> byte list res" where
  "bool_enc k = Inr [if k = BoolKey True then 1 else 0]"

lemma bool_order: "sort_compare bool_before True = bool_before" "strict_weak_order bool_before"
  by (auto simp: fun_eq_iff sort_compare_def bool_before_def strict_weak_order_def)

lemma bool_partitioner:
  "local_partitioner bool_enc (NewRangePartitioner 2 bool_before) (Some bool_before)
     [(0, [BoolKey True, BoolKey False], None), (1, [BoolKey True], None)] =
   Inr (RangePartitioner 2 (Some [BoolKey True]) bool_before)"
  by (simp add: local_partitioner_def NewRangePartitioner_def sampleSortPartition_def bool_enc_def sortSamplesPerMap_def
      sortGlobalSamples_def maxSortSampleBytes_def selectRangeBounds_def bool_before_def SliceStable_def upt_conv_Cons)

lemma bool_ranges:
  "GetPartition_range 2 (Some [BoolKey True]) bool_before (BoolKey x) = (if x then 1 else 0)"
  by (simp add: GetPartition_range_def sort_Search_def search_loop.simps [of _ 0] search_loop.simps [of _ "Suc 0"] bool_before_def)

lemma sort_stage_runs:
  "\<exists>dep m' b'. local_shuffle pair_local bool_enc (Some bool_before) (sort_dep 2 bool_before) [''disk''] 4
     (enumerate 0 (map (\<lambda>xs. (xs, None)) [[(BoolKey True, 5), (BoolKey False, 1)], [(BoolKey True, 7)]])) (empty_file_manager, None) = Inr (dep, m', b')"
proof -
  let ?dep = "(sort_dep 2 bool_before)\<lparr>sd_partitioner := RangePartitioner 2 (Some [BoolKey True]) bool_before\<rparr> :: (gokey \<times> byte) ShuffleDep"
  let ?parts = "enumerate 0 (map (\<lambda>xs. (xs, None)) [[(BoolKey True, 5), (BoolKey False, 1)], [(BoolKey True, 7 :: byte)]])"
  have "\<exists>m' b'. local_stage pair_local ?dep [''disk''] 4 ?parts (empty_file_manager, None) = Inr (m', b')"
    by (simp add: local_stage_def local_task_def pair_local_def sort_dep_def writeStreamMap_def upt_conv_Cons newBucketWriter_def
        reserve_opt_def write_record_def reducer_of_def ExtractKey_def bool_ranges byte_pair_codec_enc_def
        recordLimit_def activate_def bw_append_def Let_def flush_batch_def publish_def split_beta)
  moreover have "local_partitioner bool_enc (sd_partitioner (sort_dep 2 bool_before :: (gokey \<times> byte) ShuffleDep)) (Some bool_before)
      (map (\<lambda>(i, input). (i, (map (ExtractKey (sort_dep 2 bool_before)) (fst input), snd input))) ?parts) =
      Inr (RangePartitioner 2 (Some [BoolKey True]) bool_before)"
    using bool_partitioner by (simp add: ExtractKey_def sort_dep_def)
  ultimately show ?thesis unfolding local_shuffle_def by (auto simp: Let_def)
qed

theorem local_sort_by_key_witness:
  "\<exists>m out. Collect_rdd (SortByKey byte_pair_sorter 3 4 pair_parts bool_before True (Some 2) (shuffleStream byte_pair_codec_dec m 4 2)) =
       Some (Inr out) \<and>
     ascending (\<lambda>a b. bool_before (fst a) (fst b)) out \<and> filter (\<lambda>y. fst y = BoolKey True) out = [(BoolKey True, 5), (BoolKey True, 7)]"
proof -
  let ?xss = "[[(BoolKey True, 5), (BoolKey False, 1)], [(BoolKey True, 7 :: byte)]]"
  let ?so = "byte_pair_sorter\<lparr>so_less := \<lambda>a b. bool_before (fst a) (fst b)\<rparr>"
  obtain dep m b where run: "local_shuffle pair_local bool_enc (Some bool_before) (sort_dep 2 bool_before) [''disk''] 4
      (enumerate 0 (map (\<lambda>xs. (xs, None)) ?xss)) (empty_file_manager, None) = Inr (dep, m, b)"
    using sort_stage_runs by blast
  have env: "codec_ok (le_enc pair_local) (le_dec pair_local)" "le_recordBytes pair_local < 2 ^ 32"
    "fm_recordBytes empty_file_manager = le_recordBytes pair_local" "le_dec pair_local = byte_pair_codec_dec"
    by (auto simp: pair_local_def empty_file_manager_def codec_ok_def byte_pair_codec_enc_def byte_pair_codec_dec_def split: gokey.splits)
  have sorter: "sorter_ok ?so" "list_all (admissible ?so) (concat ?xss)"
    using byte_pair_sorter_ok strict_weak_order_fst [OF bool_order(2)]
    by (auto simp: sorter_ok_def admissible_def byte_pair_sorter_def byte_pair_codec_enc_def)
  have recs: "NilKey \<notin> fst ` set (concat ?xss)" "length (concat ?xss) < 2 ^ 32" and two: "length ?xss = 2" by simp_all
  note sorted = local_sort_by_key [where lt = bool_before and ascend = True, unfolded bool_order(1),
      OF pair_parts_contents bool_order(2) zero_less_numeral env(1,2,3) run recs sorter, of 3, unfolded env(4) two]
  then obtain out where out: "Collect_rdd (SortByKey byte_pair_sorter 3 4 pair_parts bool_before True (Some 2) (shuffleStream byte_pair_codec_dec m 4 2)) =
       Some (Inr out)" "ascending (\<lambda>a b. bool_before (fst a) (fst b)) out"
    "filter (\<lambda>y. \<not> bool_before (fst y) (BoolKey True) \<and> \<not> bool_before (BoolKey True) (fst y)) out =
     filter (\<lambda>y. \<not> bool_before (fst y) (BoolKey True) \<and> \<not> bool_before (BoolKey True) (fst y)) (concat ?xss)" by blast
  then show ?thesis by (intro exI [of _ m] exI [of _ out]) (simp add: bool_before_def)
qed

end
