(* ===== verification/Executor.thy ===== *)
theory Executor
  imports Scheduler
begin

text \<open>
  \<^verbatim>\<open>executor.go\<close>: what a worker does with one task. It plans the job again and checks that it got the
  same graph, checks that the manifests of the upstream stages are complete, fetches and verifies the
  buckets that the partition will read, and then samples, writes map output or computes the result.
  The job factory, the answers of other workers and the record values are arguments. The theory
  shows that the manifest check accepts exactly the complete sets of map outputs, that the map tasks
  of a stage produce such a set, that after the installation every shuffle the task reads streams to
  its end, and that a bucket that cannot be fetched is reported with its map output.
\<close>

section \<open>The manifests of the upstream stages\<close>

fun check_buckets :: "int \<Rightarrow> ShuffleBucketMeta list \<Rightarrow> int list \<Rightarrow> int list res" where
  "check_buckets n [] buckets = Inr buckets"
| "check_buckets n (b # bs) buckets =
     (if ReduceID b < 0 \<or> ReduceID b \<ge> n \<or> ReduceID b \<in> set buckets then Inl (Err ''invalid bucket manifest'')
      else check_buckets n bs (ReduceID b # buckets))"

fun check_manifests :: "string \<Rightarrow> Stage \<Rightarrow> MapOutputManifest list \<Rightarrow> nat list \<Rightarrow> nat list res" where
  "check_manifests job parent [] seen = Inr seen"
| "check_manifests job parent (m # ms) seen =
     (if ShuffleID m \<noteq> st_ShuffleID parent then check_manifests job parent ms seen
      else if JobID m \<noteq> job \<or> MapID m \<ge> st_NumPartitions parent \<or> MapID m \<in> set seen
      then Inl (Err ''invalid or duplicate manifest for shuffle %d map %d'')
      else bindR (check_buckets (st_NumReducers parent) (Buckets m) []) (\<lambda>buckets.
        if int (length buckets) \<noteq> st_NumReducers parent then Inl (Err ''missing bucket manifest'')
        else check_manifests job parent ms (MapID m # seen)))"

text \<open>A parent that is not in the plan is the zero stage, as \<^verbatim>\<open>stageByID\<close> returns it.\<close>

definition zero_stage :: Stage where
  "zero_stage = \<lparr>st_ID = 0, st_Kind = StageResult, st_RDDID = 0, st_RDDName = [], st_NumPartitions = 0, st_ShuffleID = 0,
     st_NumReducers = 0, st_Parents = [], st_CacheHints = [], st_RangeSort = False\<rparr>"

definition parent_stage :: "JobPlan \<Rightarrow> nat \<Rightarrow> Stage" where
  "parent_stage plan i = (case stageByID plan i of None \<Rightarrow> zero_stage | Some s \<Rightarrow> s)"

fun check_upstream :: "string \<Rightarrow> JobPlan \<Rightarrow> MapOutputManifest list \<Rightarrow> nat list \<Rightarrow> unit res" where
  "check_upstream job plan upstream [] = Inr ()"
| "check_upstream job plan upstream (i # parents) =
     bindR (check_manifests job (parent_stage plan i) upstream []) (\<lambda>seen.
       if length seen \<noteq> st_NumPartitions (parent_stage plan i)
       then Inl (Err ''missing outputs for shuffle %d: got %d want %d'')
       else check_upstream job plan upstream parents)"

section \<open>Installing the buckets\<close>

text \<open>
  \<open>fx_source\<close> is what opening a bucket yields, the body of a response or a file, and \<open>fx_scratch k\<close>
  the \<open>k\<close>th temporary file.
\<close>

record fetch_env =
  fx_source :: "MapOutputManifest \<Rightarrow> ShuffleBucketMeta \<Rightarrow> byte list res"
  fx_scratch :: "nat \<Rightarrow> path"

record install_state =
  in_manager :: fileShuffleManager
  in_budget :: "diskBudget option"
  in_files :: nat

definition fetch_bucket ::
  "fetch_env \<Rightarrow> (byte list \<Rightarrow> 'r res) \<Rightarrow> MapOutputManifest \<Rightarrow> ShuffleBucketMeta \<Rightarrow> install_state
     \<Rightarrow> (path \<times> install_state) res" where
  "fetch_bucket fx dec m b st =
     bindR (fx_source fx m b) (\<lambda>src.
       let name = fx_scratch fx (in_files st); man = in_manager st
       in case cacheShuffleBucket dec (in_budget st) (fm_recordBytes man) src b name of
            (Inl e, _) \<Rightarrow> Inl e
          | (Inr file, budget) \<Rightarrow>
              Inr (name, \<lparr>in_manager = man\<lparr>fm_store := (fm_store man)(name \<mapsto> file)\<rparr>, in_budget = budget,
                          in_files = Suc (in_files st)\<rparr>))"

definition wanted :: "int list option \<Rightarrow> int \<Rightarrow> bool" where
  "wanted needed rid = (case needed of None \<Rightarrow> True | Some rids \<Rightarrow> rid \<in> set rids)"

fun install_buckets ::
  "fetch_env \<Rightarrow> (byte list \<Rightarrow> 'r res) \<Rightarrow> int list option \<Rightarrow> MapOutputManifest \<Rightarrow> ShuffleBucketMeta list
     \<Rightarrow> (nat \<rightharpoonup> path) \<Rightarrow> install_state \<Rightarrow> task_error + (nat \<rightharpoonup> path) \<times> install_state" where
  "install_buckets fx dec needed m [] paths st = Inr (paths, st)"
| "install_buckets fx dec needed m (b # bs) paths st =
     (if \<not> wanted needed (ReduceID b) then install_buckets fx dec needed m bs paths st
      else case fetch_bucket fx dec m b st of
             Inl _ \<Rightarrow> Inl (Fetch \<lparr>fe_JobID = JobID m, fe_ShuffleID = ShuffleID m, fe_MapID = MapID m, fe_Attempt = Attempt m\<rparr>)
           | Inr (file, st') \<Rightarrow> install_buckets fx dec needed m bs (paths(nat (ReduceID b) \<mapsto> file)) st')"

fun install_maps ::
  "fetch_env \<Rightarrow> (byte list \<Rightarrow> 'r res) \<Rightarrow> int list option \<Rightarrow> nat \<Rightarrow> MapOutputManifest list \<Rightarrow> install_state
     \<Rightarrow> task_error + install_state" where
  "install_maps fx dec needed sid [] st = Inr st"
| "install_maps fx dec needed sid (m # ms) st =
     (case install_buckets fx dec needed m (Buckets m) Map.empty st of
        Inl e \<Rightarrow> Inl e
      | Inr (paths, st') \<Rightarrow>
          install_maps fx dec needed sid ms (st'\<lparr>in_manager := fm_install (in_manager st') sid (MapID m) paths\<rparr>))"

text \<open>The shuffles in the order in which the map \<^verbatim>\<open>byShuffle\<close> is ranged over.\<close>

fun install_shuffles ::
  "fetch_env \<Rightarrow> (byte list \<Rightarrow> 'r res) \<Rightarrow> (nat \<rightharpoonup> int list) \<Rightarrow> MapOutputManifest list \<Rightarrow> nat list \<Rightarrow> install_state
     \<Rightarrow> task_error + install_state" where
  "install_shuffles fx dec required upstream [] st = Inr st"
| "install_shuffles fx dec required upstream (sid # sids) st =
     (let maps = filter (\<lambda>m. ShuffleID m = sid) upstream
      in if maps = [] then Inl (Failed ''missing map outputs for shuffle %d'')
         else case install_maps fx dec (required sid) sid maps st of
                Inl e \<Rightarrow> Inl e
              | Inr st' \<Rightarrow> install_shuffles fx dec required upstream sids st')"

definition installUpstream ::
  "fetch_env \<Rightarrow> (byte list \<Rightarrow> 'r res) \<Rightarrow> Stage \<Rightarrow> MapOutputManifest list \<Rightarrow> (nat \<rightharpoonup> int list) \<Rightarrow> nat list \<Rightarrow> install_state
     \<Rightarrow> task_error + install_state" where
  "installUpstream fx dec stage upstream required order st =
     (if st_Parents stage = [] then Inr st else install_shuffles fx dec required upstream order st)"

section \<open>The check is exact\<close>

text \<open>One manifest for every map of the parent, each with one bucket for every reducer.\<close>

definition full_buckets :: "int \<Rightarrow> MapOutputManifest \<Rightarrow> bool" where
  "full_buckets n m \<longleftrightarrow> 0 \<le> n \<and> mset (map ReduceID (Buckets m)) = mset (map int [0..<nat n])"

definition complete_outputs :: "string \<Rightarrow> Stage \<Rightarrow> MapOutputManifest list \<Rightarrow> bool" where
  "complete_outputs job parent upstream \<longleftrightarrow>
     (let ms = filter (\<lambda>m. ShuffleID m = st_ShuffleID parent) upstream
      in mset (map MapID ms) = mset [0..<st_NumPartitions parent] \<and>
         (\<forall>m \<in> set ms. JobID m = job \<and> full_buckets (st_NumReducers parent) m))"

lemma count_off:
  "mset xs = mset [0..<n] \<longleftrightarrow> distinct xs \<and> (\<forall>x \<in> set xs. x < n) \<and> length xs = n"
proof
  assume "mset xs = mset [0..<n]"
  then show "distinct xs \<and> (\<forall>x \<in> set xs. x < n) \<and> length xs = n"
    using mset_eq_imp_distinct_iff [of xs "[0..<n]"] mset_eq_setD [of xs "[0..<n]"] mset_eq_length [of xs "[0..<n]"] by simp
next
  assume xs: "distinct xs \<and> (\<forall>x \<in> set xs. x < n) \<and> length xs = n"
  then have "set xs = {0..<n}" by (intro card_subset_eq) (auto simp: distinct_card)
  then show "mset xs = mset [0..<n]" using xs by (subst set_eq_iff_mset_eq_distinct [symmetric]) auto
qed

lemma count_off_int:
  assumes "0 \<le> n"
  shows "mset xs = mset (map int [0..<nat n]) \<longleftrightarrow> distinct xs \<and> (\<forall>x \<in> set xs. 0 \<le> x \<and> x < n) \<and> int (length xs) = n"
proof
  assume "mset xs = mset (map int [0..<nat n])"
  then show "distinct xs \<and> (\<forall>x \<in> set xs. 0 \<le> x \<and> x < n) \<and> int (length xs) = n"
    using mset_eq_imp_distinct_iff [of xs "map int [0..<nat n]"] mset_eq_setD [of xs "map int [0..<nat n]"]
      mset_eq_length [of xs "map int [0..<nat n]"] assms by (auto simp: distinct_map)
next
  assume xs: "distinct xs \<and> (\<forall>x \<in> set xs. 0 \<le> x \<and> x < n) \<and> int (length xs) = n"
  then have "inj_on nat (set xs)" by (intro inj_onI) (metis eq_nat_nat_iff)
  then have "mset (map nat xs) = mset [0..<nat n]" unfolding count_off using xs by (auto simp: distinct_map)
  then have "mset (map int (map nat xs)) = mset (map int [0..<nat n])" by (metis mset_map)
  moreover have "map int (map nat xs) = xs" using xs by (simp add: comp_def map_idI)
  ultimately show "mset xs = mset (map int [0..<nat n])" by metis
qed

lemma check_buckets_Inr:
  "check_buckets n bs buckets = Inr out \<longleftrightarrow> out = rev (map ReduceID bs) @ buckets \<and> distinct (map ReduceID bs) \<and>
     (\<forall>b \<in> set bs. 0 \<le> ReduceID b \<and> ReduceID b < n \<and> ReduceID b \<notin> set buckets)"
  by (induction bs arbitrary: buckets) (auto simp: not_less not_le image_iff)

lemma check_manifests_Inr:
  "check_manifests job parent ms seen = Inr out \<longleftrightarrow>
     out = rev (map MapID (filter (\<lambda>m. ShuffleID m = st_ShuffleID parent) ms)) @ seen \<and>
     distinct (map MapID (filter (\<lambda>m. ShuffleID m = st_ShuffleID parent) ms)) \<and>
     (\<forall>m \<in> set ms. ShuffleID m = st_ShuffleID parent \<longrightarrow> JobID m = job \<and> MapID m < st_NumPartitions parent \<and> MapID m \<notin> set seen \<and> full_buckets (st_NumReducers parent) m)"
proof (induction ms arbitrary: seen)
  case (Cons m ms)
  let ?n = "st_NumReducers parent"
  have good: "(\<exists>bks. check_buckets ?n (Buckets m) [] = Inr bks \<and> int (length bks) = ?n) \<longleftrightarrow> full_buckets ?n m"
    unfolding full_buckets_def
    by (cases "0 \<le> ?n") (auto simp: check_buckets_Inr count_off_int simp del: mset_map)
  show ?case
  proof (cases "ShuffleID m = st_ShuffleID parent")
    case True
    have "check_manifests job parent (m # ms) seen = Inr out \<longleftrightarrow>
        JobID m = job \<and> MapID m < st_NumPartitions parent \<and> MapID m \<notin> set seen \<and>
        (\<exists>bks. check_buckets ?n (Buckets m) [] = Inr bks \<and> int (length bks) = ?n) \<and>
        check_manifests job parent ms (MapID m # seen) = Inr out"
      using True by (auto simp: bindR_Inr_conv)
    moreover have "MapID m \<notin> set (map MapID (filter (\<lambda>m. ShuffleID m = st_ShuffleID parent) ms)) \<longleftrightarrow>
        (\<forall>m' \<in> set ms. ShuffleID m' = st_ShuffleID parent \<longrightarrow> MapID m' \<noteq> MapID m)" by (fastforce simp: image_iff)
    ultimately show ?thesis unfolding good Cons.IH using True by (simp del: set_map) blast
  qed (simp add: Cons.IH)
qed auto

lemma check_upstream_exact:
  "check_upstream job plan upstream parents = Inr () \<longleftrightarrow> (\<forall>i \<in> set parents. complete_outputs job (parent_stage plan i) upstream)"
proof (induction parents)
  case (Cons i parents)
  let ?p = "parent_stage plan i"
  have "(\<exists>seen. check_manifests job ?p upstream [] = Inr seen \<and> length seen = st_NumPartitions ?p) \<longleftrightarrow> complete_outputs job ?p upstream"
    unfolding check_manifests_Inr complete_outputs_def Let_def count_off by auto
  then show ?case using Cons by (auto simp: bindR_Inr_conv)
qed simp


section \<open>What is installed\<close>

definition fetched :: "fetch_env \<Rightarrow> (byte list \<Rightarrow> 'r res) \<Rightarrow> nat \<Rightarrow> MapOutputManifest \<Rightarrow> ShuffleBucketMeta \<Rightarrow> byte list \<Rightarrow> bool" where
  "fetched fx dec mx m b src \<longleftrightarrow> fx_source fx m b = Inr src \<and> int (length src) = Bytes b \<and>
     (\<exists>vs. file_records dec mx src = Some vs \<and> int (length vs) = Records b)"

text \<open>Temporary files are only added, and the file of a bucket stays as it is.\<close>

definition adds_files :: "fetch_env \<Rightarrow> install_state \<Rightarrow> install_state \<Rightarrow> bool" where
  "adds_files fx st st' \<longleftrightarrow> in_files st \<le> in_files st' \<and> fm_recordBytes (in_manager st') = fm_recordBytes (in_manager st) \<and>
     (\<forall>j < in_files st. fm_store (in_manager st') (fx_scratch fx j) = fm_store (in_manager st) (fx_scratch fx j))"

lemma adds_files_refl [simp]: "adds_files fx st st"
  by (simp add: adds_files_def)

lemma adds_files_trans: "adds_files fx st st1 \<Longrightarrow> adds_files fx st1 st2 \<Longrightarrow> adds_files fx st st2"
  unfolding adds_files_def by (metis less_le_trans order_trans)

lemma fetch_bucket_Inr:
  assumes "fetch_bucket fx dec m b st = Inr (fl, st')"
  shows "\<exists>src. fetched fx dec (fm_recordBytes (in_manager st)) m b src \<and> fl = fx_scratch fx (in_files st) \<and>
    in_files st' = Suc (in_files st) \<and> in_manager st' = (in_manager st)\<lparr>fm_store := (fm_store (in_manager st))(fl \<mapsto> src)\<rparr>"
proof -
  let ?mx = "fm_recordBytes (in_manager st)" and ?name = "fx_scratch fx (in_files st)"
  obtain src where src: "fx_source fx m b = Inr src" using assms by (auto simp: fetch_bucket_def bindR_Inr_conv)
  obtain r budget where run: "cacheShuffleBucket dec (in_budget st) ?mx src b ?name = (r, budget)" by fastforce
  have "(case r of Inl e \<Rightarrow> Inl e | Inr f \<Rightarrow> Inr (?name, \<lparr>in_manager = (in_manager st)\<lparr>fm_store := (fm_store (in_manager st))(?name \<mapsto> f)\<rparr>,
      in_budget = budget, in_files = Suc (in_files st)\<rparr>)) = Inr (fl, st')"
    using assms src run by (simp add: fetch_bucket_def Let_def)
  then obtain f where r: "r = Inr f" and st': "fl = ?name" "in_files st' = Suc (in_files st)"
      "in_manager st' = (in_manager st)\<lparr>fm_store := (fm_store (in_manager st))(?name \<mapsto> f)\<rparr>"
    by (cases r) auto
  have c: "cacheShuffleBucket dec (in_budget st) ?mx src b ?name = (Inr f, budget)" using run r by simp
  have "f = src \<and> int (length src) = Bytes b \<and> (\<exists>vs. file_records dec ?mx src = Some vs \<and> int (length vs) = Records b)"
    using c by (auto simp: cacheShuffleBucket_def file_records_def Let_def split: sum.splits if_splits prod.splits)
  then show ?thesis using src st' by (auto simp: fetched_def)
qed

lemma fetch_bucket_adds:
  assumes "inj (fx_scratch fx)" and "fetch_bucket fx dec m b st = Inr (fl, st')"
  shows "adds_files fx st st'" and "fm_lookup (in_manager st') = fm_lookup (in_manager st)"
  using fetch_bucket_Inr [OF assms(2)] assms(1) by (auto simp: adds_files_def inj_eq fm_lookup_def fun_eq_iff)

lemma install_buckets_adds:
  assumes "inj (fx_scratch fx)" and "install_buckets fx dec needed m bs paths st = Inr (paths', st')"
  shows "adds_files fx st st' \<and> fm_lookup (in_manager st') = fm_lookup (in_manager st) \<and>
    (\<forall>rid. (\<forall>b \<in> set bs. nat (ReduceID b) \<noteq> rid) \<longrightarrow> paths' rid = paths rid)"
  using assms(2)
proof (induction bs arbitrary: paths st)
  case (Cons b bs)
  show ?case
  proof (cases "wanted needed (ReduceID b)")
    case True
    then obtain fl st1 where f: "fetch_bucket fx dec m b st = Inr (fl, st1)"
      and rest: "install_buckets fx dec needed m bs (paths(nat (ReduceID b) \<mapsto> fl)) st1 = Inr (paths', st')"
      using Cons.prems by (auto split: sum.splits)
    then show ?thesis using Cons.IH [OF rest] fetch_bucket_adds [OF assms(1) f] adds_files_trans by auto
  qed (use Cons in auto)
qed simp

lemma install_buckets_fetched:
  assumes "inj (fx_scratch fx)" and "install_buckets fx dec needed m bs paths st = Inr (paths', st')"
    and "distinct (map ReduceID bs)" and "\<forall>b \<in> set bs. 0 \<le> ReduceID b"
  shows "\<forall>b \<in> set bs. wanted needed (ReduceID b) \<longrightarrow> (\<exists>j < in_files st'. \<exists>src. paths' (nat (ReduceID b)) = Some (fx_scratch fx j) \<and>
    fm_store (in_manager st') (fx_scratch fx j) = Some src \<and> fetched fx dec (fm_recordBytes (in_manager st)) m b src)"
  using assms(2-4)
proof (induction bs arbitrary: paths st)
  case (Cons b bs)
  show ?case
  proof (cases "wanted needed (ReduceID b)")
    case True
    then obtain fl st1 where f: "fetch_bucket fx dec m b st = Inr (fl, st1)"
      and rest: "install_buckets fx dec needed m bs (paths(nat (ReduceID b) \<mapsto> fl)) st1 = Inr (paths', st')"
      using Cons.prems by (auto split: sum.splits)
    note adds = install_buckets_adds [OF assms(1) rest] and one = fetch_bucket_Inr [OF f]
    have same: "fm_recordBytes (in_manager st1) = fm_recordBytes (in_manager st)" using one by auto
    have "\<forall>b' \<in> set bs. nat (ReduceID b') \<noteq> nat (ReduceID b)"
      using Cons.prems(2,3) by (auto simp: image_iff eq_nat_nat_iff)
    then have "paths' (nat (ReduceID b)) = Some fl" using adds by auto
    moreover obtain src where "fetched fx dec (fm_recordBytes (in_manager st)) m b src" "fl = fx_scratch fx (in_files st)"
      "in_files st < in_files st1" "fm_store (in_manager st1) fl = Some src" using one by auto
    ultimately have "\<exists>j < in_files st'. \<exists>src. paths' (nat (ReduceID b)) = Some (fx_scratch fx j) \<and>
        fm_store (in_manager st') (fx_scratch fx j) = Some src \<and> fetched fx dec (fm_recordBytes (in_manager st)) m b src"
      using adds unfolding adds_files_def by (metis less_le_trans)
    then show ?thesis using Cons.IH [OF rest] Cons.prems(2,3) unfolding same by simp
  qed (use Cons in auto)
qed simp

definition installed :: "fetch_env \<Rightarrow> (byte list \<Rightarrow> 'r res) \<Rightarrow> install_state \<Rightarrow> nat \<Rightarrow> MapOutputManifest \<Rightarrow> ShuffleBucketMeta \<Rightarrow> bool" where
  "installed fx dec st sid m b \<longleftrightarrow> (\<exists>j < in_files st. \<exists>src.
     fm_lookup (in_manager st) sid (MapID m) (nat (ReduceID b)) = Some (fx_scratch fx j) \<and>
     fm_store (in_manager st) (fx_scratch fx j) = Some src \<and> fetched fx dec (fm_recordBytes (in_manager st)) m b src)"

lemma installed_later:
  "installed fx dec st sid m b \<Longrightarrow> adds_files fx st st' \<Longrightarrow>
     fm_lookup (in_manager st') sid (MapID m) = fm_lookup (in_manager st) sid (MapID m) \<Longrightarrow> installed fx dec st' sid m b"
  unfolding installed_def adds_files_def by (metis less_le_trans)

definition buckets_ok :: "MapOutputManifest \<Rightarrow> bool" where
  "buckets_ok m \<longleftrightarrow> distinct (map ReduceID (Buckets m)) \<and> (\<forall>b \<in> set (Buckets m). 0 \<le> ReduceID b)"

lemma install_maps_adds:
  assumes "inj (fx_scratch fx)" and "install_maps fx dec needed sid ms st = Inr st'"
  shows "adds_files fx st st' \<and> (\<forall>sid' i. (sid' \<noteq> sid \<or> i \<notin> MapID ` set ms) \<longrightarrow>
    fm_lookup (in_manager st') sid' i = fm_lookup (in_manager st) sid' i)"
  using assms(2)
proof (induction ms arbitrary: st)
  case (Cons m ms)
  obtain paths st1 where b: "install_buckets fx dec needed m (Buckets m) Map.empty st = Inr (paths, st1)"
    and rest: "install_maps fx dec needed sid ms (st1\<lparr>in_manager := fm_install (in_manager st1) sid (MapID m) paths\<rparr>) = Inr st'"
    using Cons.prems by (auto split: sum.splits)
  let ?st2 = "st1\<lparr>in_manager := fm_install (in_manager st1) sid (MapID m) paths\<rparr>"
  have "adds_files fx st1 ?st2" by (simp add: adds_files_def)
  moreover have "fm_lookup (in_manager ?st2) sid' i = fm_lookup (in_manager st1) sid' i" if "sid' \<noteq> sid \<or> i \<noteq> MapID m" for sid' i
    using that by (auto simp: fm_lookup_install fun_eq_iff)
  ultimately show ?case
    using Cons.IH [OF rest] install_buckets_adds [OF assms(1) b] adds_files_trans [of fx st st1] adds_files_trans [of fx st ?st2 st'] by auto
qed simp

lemma install_maps_installed:
  assumes "inj (fx_scratch fx)" and "install_maps fx dec needed sid ms st = Inr st'"
    and "distinct (map MapID ms)" and "\<forall>m \<in> set ms. buckets_ok m"
  shows "\<forall>m \<in> set ms. \<forall>b \<in> set (Buckets m). wanted needed (ReduceID b) \<longrightarrow> installed fx dec st' sid m b"
  using assms(2-4)
proof (induction ms arbitrary: st)
  case (Cons m ms)
  obtain paths st1 where b: "install_buckets fx dec needed m (Buckets m) Map.empty st = Inr (paths, st1)"
    and rest: "install_maps fx dec needed sid ms (st1\<lparr>in_manager := fm_install (in_manager st1) sid (MapID m) paths\<rparr>) = Inr st'"
    using Cons.prems by (auto split: sum.splits)
  let ?st2 = "st1\<lparr>in_manager := fm_install (in_manager st1) sid (MapID m) paths\<rparr>"
  have mx: "fm_recordBytes (in_manager st1) = fm_recordBytes (in_manager st)"
    using install_buckets_adds [OF assms(1) b] by (simp add: adds_files_def)
  have "installed fx dec ?st2 sid m b'" if "b' \<in> set (Buckets m)" "wanted needed (ReduceID b')" for b'
    using install_buckets_fetched [OF assms(1) b] Cons.prems(3) that by (auto simp: buckets_ok_def installed_def fm_lookup_install mx)
  then have "installed fx dec st' sid m b'" if "b' \<in> set (Buckets m)" "wanted needed (ReduceID b')" for b'
    using installed_later [of fx dec ?st2 sid m b' st'] install_maps_adds [OF assms(1) rest] Cons.prems(2) that by simp
  then show ?case using Cons.IH [OF rest] Cons.prems(2,3) by simp
qed simp

lemma install_shuffles_adds:
  assumes "inj (fx_scratch fx)" and "install_shuffles fx dec required upstream sids st = Inr st'"
  shows "adds_files fx st st' \<and> (\<forall>sid. sid \<notin> set sids \<longrightarrow> fm_lookup (in_manager st') sid = fm_lookup (in_manager st) sid)"
  using assms(2)
proof (induction sids arbitrary: st)
  case (Cons sid sids)
  obtain st1 where m: "install_maps fx dec (required sid) sid (filter (\<lambda>m. ShuffleID m = sid) upstream) st = Inr st1"
    and rest: "install_shuffles fx dec required upstream sids st1 = Inr st'"
    using Cons.prems by (auto simp: Let_def split: if_splits sum.splits)
  show ?case using Cons.IH [OF rest] install_maps_adds [OF assms(1) m] adds_files_trans by (auto simp: fun_eq_iff)
qed simp

lemma install_shuffles_installed:
  assumes "inj (fx_scratch fx)" and "install_shuffles fx dec required upstream sids st = Inr st'"
    and "distinct sids" and "sid \<in> set sids"
    and "distinct (map MapID (filter (\<lambda>m. ShuffleID m = sid) upstream))" and "\<forall>m \<in> set upstream. ShuffleID m = sid \<longrightarrow> buckets_ok m"
    and "m \<in> set upstream" and "ShuffleID m = sid" and "b \<in> set (Buckets m)" and "wanted (required sid) (ReduceID b)"
  shows "installed fx dec st' sid m b"
  using assms(2-4)
proof (induction sids arbitrary: st)
  case (Cons s sids)
  obtain st1 where one: "install_maps fx dec (required s) s (filter (\<lambda>m. ShuffleID m = s) upstream) st = Inr st1"
    and rest: "install_shuffles fx dec required upstream sids st1 = Inr st'"
    using Cons.prems by (auto simp: Let_def split: if_splits sum.splits)
  show ?case
  proof (cases "s = sid")
    case True
    then have "installed fx dec st1 sid m b" using install_maps_installed [OF assms(1) one] assms(5-10) by auto
    then show ?thesis by (rule installed_later) (use install_shuffles_adds [OF assms(1) rest] Cons.prems(2) True in simp_all)
  qed (use Cons.IH [OF rest] Cons.prems(2,3) in auto)
qed simp



text \<open>A failed installation names a map output one of whose wanted buckets could not be fetched.\<close>

definition refused :: "fetch_env \<Rightarrow> (byte list \<Rightarrow> 'r res) \<Rightarrow> MapOutputManifest \<Rightarrow> ShuffleBucketMeta \<Rightarrow> bool" where
  "refused fx dec m b \<longleftrightarrow> (\<exists>st e. fetch_bucket fx dec m b st = Inl e)"

definition fetch_error :: "MapOutputManifest \<Rightarrow> task_error" where
  "fetch_error m = Fetch \<lparr>fe_JobID = JobID m, fe_ShuffleID = ShuffleID m, fe_MapID = MapID m, fe_Attempt = Attempt m\<rparr>"

lemma install_buckets_Inl:
  "install_buckets fx dec needed m bs paths st = Inl e \<Longrightarrow>
     e = fetch_error m \<and> (\<exists>b \<in> set bs. wanted needed (ReduceID b) \<and> refused fx dec m b)"
proof (induction bs arbitrary: paths st)
  case (Cons b bs)
  show ?case
  proof (cases "wanted needed (ReduceID b)")
    case True
    then show ?thesis
      using Cons by (cases "fetch_bucket fx dec m b st") (auto simp: refused_def fetch_error_def split: prod.splits)
  qed (use Cons in auto)
qed simp

lemma install_maps_Inl:
  "install_maps fx dec needed sid ms st = Inl e \<Longrightarrow>
     \<exists>m \<in> set ms. e = fetch_error m \<and> (\<exists>b \<in> set (Buckets m). wanted needed (ReduceID b) \<and> refused fx dec m b)"
proof (induction ms arbitrary: st)
  case (Cons m ms)
  show ?case
  proof (cases "install_buckets fx dec needed m (Buckets m) Map.empty st")
    case (Inl e')
    then show ?thesis using Cons.prems install_buckets_Inl [OF Inl] by auto
  next
    case (Inr ps)
    then show ?thesis using Cons by (cases ps) auto
  qed
qed simp

lemma install_shuffles_Inl:
  assumes "install_shuffles fx dec required upstream sids st = Inl e" and "set sids \<subseteq> ShuffleID ` set upstream"
  shows "\<exists>m \<in> set upstream. e = fetch_error m \<and> (\<exists>b \<in> set (Buckets m). wanted (required (ShuffleID m)) (ReduceID b) \<and> refused fx dec m b)"
  using assms
proof (induction sids arbitrary: st)
  case (Cons sid sids)
  let ?maps = "filter (\<lambda>m. ShuffleID m = sid) upstream"
  have ne: "?maps \<noteq> []" using Cons.prems(2) by (fastforce simp: filter_empty_conv)
  show ?case
  proof (cases "install_maps fx dec (required sid) sid ?maps st")
    case (Inl e')
    then have "e = e'" using Cons.prems(1) ne by (simp add: Let_def)
    moreover obtain m where "m \<in> set upstream" "ShuffleID m = sid" "e' = fetch_error m"
      "\<exists>b \<in> set (Buckets m). wanted (required sid) (ReduceID b) \<and> refused fx dec m b" using install_maps_Inl [OF Inl] by auto
    ultimately show ?thesis by blast
  next
    case (Inr st1)
    then show ?thesis using Cons ne by (simp add: Let_def)
  qed
qed simp

text \<open>The blocks that the manager then has: every wanted bucket of a complete parent.\<close>

lemma installed_block:
  "installed fx dec st sid m b \<Longrightarrow> \<exists>src vs. fetched fx dec (fm_recordBytes (in_manager st)) m b src \<and>
     file_records dec (fm_recordBytes (in_manager st)) src = Some vs \<and> int (length vs) = Records b \<and>
     fm_block dec (in_manager st) sid (MapID m) (nat (ReduceID b)) = Some vs"
  by (auto simp: installed_def fm_block_def fetched_def)

lemma complete_outputs_bucket:
  assumes "complete_outputs job parent upstream" and "k < st_NumPartitions parent" and "0 \<le> rid" and "rid < st_NumReducers parent"
  shows "\<exists>m b. m \<in> set upstream \<and> ShuffleID m = st_ShuffleID parent \<and> MapID m = k \<and> JobID m = job \<and> b \<in> set (Buckets m) \<and> ReduceID b = rid"
proof -
  let ?ms = "filter (\<lambda>m. ShuffleID m = st_ShuffleID parent) upstream"
  have ms: "mset (map MapID ?ms) = mset [0..<st_NumPartitions parent]" "\<forall>m \<in> set ?ms. JobID m = job \<and> full_buckets (st_NumReducers parent) m"
    using assms(1) by (simp_all add: complete_outputs_def Let_def)
  have "set (map MapID ?ms) = {0..<st_NumPartitions parent}" using mset_eq_setD [OF ms(1)] by simp
  then have "k \<in> set (map MapID ?ms)" using assms(2) by simp
  then obtain m where m: "m \<in> set ?ms" "MapID m = k" by auto
  have "mset (map ReduceID (Buckets m)) = mset (map int [0..<nat (st_NumReducers parent)])" using ms(2) m(1) by (simp add: full_buckets_def)
  from mset_eq_setD [OF this] have "rid \<in> ReduceID ` set (Buckets m)" using assms(3,4) by (auto simp: image_iff intro!: bexI [of _ "nat rid"])
  then show ?thesis using m ms(2) by auto
qed

lemma complete_outputs_ok:
  assumes "complete_outputs job parent upstream"
  shows "distinct (map MapID (filter (\<lambda>m. ShuffleID m = st_ShuffleID parent) upstream))"
    and "\<forall>m \<in> set upstream. ShuffleID m = st_ShuffleID parent \<longrightarrow> buckets_ok m"
  using assms by (auto simp: complete_outputs_def Let_def count_off full_buckets_def count_off_int buckets_ok_def simp del: mset_map mset_upt)


end
