(* ===== verification/Task_Execution.thy ===== *)
theory Task_Execution
  imports Executor
begin

text \<open>
  \<^verbatim>\<open>ExecuteTaskContext\<close> of \<^verbatim>\<open>executor.go\<close> as a whole, with \<^verbatim>\<open>PlanJob\<close> of \<^verbatim>\<open>planner.go\<close>: admission of a task,
  the reconstruction of its graph, the manifest check, the installation of its input, and the four
  kinds of work. A job factory is called anew each time, so it has the number of the call as an
  argument, and the fingerprint of a plan is a function. The theory shows that what a task returns is
  accepted by the driver, that the map outputs of a stage pass the check of the stages that read
  them, and that after the installation every shuffle streams to its end.
\<close>

section \<open>Planning in the worker\<close>

definition ProtocolVersion :: int where "ProtocolVersion = 1"

record job_registry =
  jr_jobs :: "string \<rightharpoonup> (nat \<Rightarrow> JobSpec \<Rightarrow> RDD option res)"
  jr_actions :: "string set"

definition persistOutput :: "RDD \<Rightarrow> RDD" where
  "persistOutput rdd =
     (case rdd of RDD i name parts level deps \<Rightarrow> RDD i name parts (if level = StorageNone then StorageMemory else level) deps)"

definition reusable_output :: "JobSpec \<Rightarrow> RDD \<Rightarrow> RDD" where
  "reusable_output spec rdd =
     (if js_CacheIdentity spec \<noteq> [] \<and> cacheAcrossTasks rdd then persistOutput rdd else rdd)"

text \<open>A version of 0 stands for the current one (\<^verbatim>\<open>withDefaults\<close>).\<close>

definition PlanJob :: "job_registry \<Rightarrow> nat \<Rightarrow> int \<Rightarrow> JobSpec \<Rightarrow> JobPlan res" where
  "PlanJob reg call version spec =
     (if version \<noteq> 0 \<and> version \<noteq> ProtocolVersion then Inl (Err ''unsupported protocol version %d (want %d)'')
      else if js_TaskName spec = [] then Inl (Err ''job spec missing task name'')
      else case jr_jobs reg (js_TaskName spec) of
        None \<Rightarrow> Inl (Err ''job %q not registered'')
      | Some factory \<Rightarrow>
          if js_Action spec \<noteq> [] \<and> js_Action spec \<notin> jr_actions reg then Inl (Err ''action %q not registered'')
          else bindR (factory call spec) (\<lambda>r.
            case r of
              None \<Rightarrow> Inl (Err ''job %q returned nil RDD'')
            | Some rdd \<Rightarrow> PlanRDD (Some (reusable_output spec rdd)) spec))"

definition VerifyPlan :: "job_registry \<Rightarrow> nat \<Rightarrow> (JobPlan \<Rightarrow> string) \<Rightarrow> int \<Rightarrow> JobPlan \<Rightarrow> JobSpec \<Rightarrow> unit res" where
  "VerifyPlan reg call fp version expected spec =
     bindR (PlanJob reg call version spec) (\<lambda>got.
       if fp got \<noteq> fp expected then Inl (Err ''graph fingerprint mismatch: got %s want %s'') else Inr ())"

section \<open>The environment of a task\<close>

text \<open>
  Besides the registry: the context's state at the start, the fields of the task that the scheduler
  does not use, the codecs and limits, the closures of a shuffle dependency, the records that a
  partition computes from the installed shuffles, the registered tree actions, the writer of a save,
  and what the context collected about caches and accumulators.
\<close>

record 'r exec_env =
  xe_cancelled :: "goerr option"
  xe_StoreDir :: path
  xe_registry :: job_registry
  xe_version :: int
  xe_ImageDigest :: string
  xe_Fingerprint :: string
  xe_fp :: "JobPlan \<Rightarrow> string"
  xe_fetch :: fetch_env
  xe_order :: "MapOutputManifest list \<Rightarrow> nat list"
  xe_enc :: "'r \<Rightarrow> byte list res"
  xe_dec :: "byte list \<Rightarrow> 'r res"
  xe_keyEnc :: "gokey \<Rightarrow> byte list res"
  xe_decodeBounds :: "byte list \<Rightarrow> gokey list res"
  xe_dep :: "Dependency \<Rightarrow> 'r ShuffleDep"
  xe_records :: "fileShuffleManager \<Rightarrow> RDD \<Rightarrow> int \<Rightarrow> 'r recordStream"
  xe_memoryBytes :: nat
  xe_maxBytes :: "int option"
  xe_pending :: path
  xe_renamed :: "unit res"
  xe_late :: "goerr option"
  xe_tree :: "string \<rightharpoonup> ('r recordStream \<Rightarrow> 'r option res)"
  xe_println :: "'r \<Rightarrow> byte list"
  xe_sha :: "byte list \<Rightarrow> string"
  xe_save :: save_io
  xe_base :: "path option"
  xe_caches :: "CachePartition list \<times> CachePartition list"
  xe_accumulators :: "(string \<times> accumulatorValue) list"

fun failed :: "goerr \<Rightarrow> task_error" where
  "failed EOF = Failed ''EOF''"
| "failed (Err s) = Failed s"

definition or_fail :: "'a res \<Rightarrow> task_error + 'a" where
  "or_fail = map_sum failed id"

section \<open>Admission\<close>

definition admit_stage :: "'r exec_env \<Rightarrow> Task \<Rightarrow> JobPlan \<Rightarrow> (JobPlan \<times> Stage) res" where
  "admit_stage xe task plan =
     (case stageByID plan (tk_StageID task) of
        None \<Rightarrow> Inl (Err ''stage %d not in plan'')
      | Some stage \<Rightarrow>
          if tk_PartitionID task \<ge> st_NumPartitions stage then Inl (Err ''invalid partition %d for stage %d'')
          else if xe_Fingerprint xe \<noteq> [] \<and> xe_Fingerprint xe \<noteq> xe_fp xe plan
          then Inl (Err ''driver/worker graph fingerprint mismatch'')
          else if js_CacheIdentity (tk_Job task) \<noteq> [] \<and> xe_Fingerprint xe \<noteq> xe_fp xe plan
          then Inl (Err ''reusable cache requires matching graph fingerprint'')
          else Inr (plan, stage))"

definition admit_task :: "'r exec_env \<Rightarrow> Task \<Rightarrow> (JobPlan \<times> Stage) res" where
  "admit_task xe task =
     (case xe_cancelled xe of Some e \<Rightarrow> Inl e | None \<Rightarrow>
      if xe_StoreDir xe = [] then Inl (Err ''task StoreDir is required'')
      else
        bindR (PlanJob (xe_registry xe) 0 (xe_version xe) (tk_Job task)) (\<lambda>plan.
        bindR (if xe_version xe \<noteq> 0 \<and> xe_fp xe plan \<noteq> [] \<and> xe_ImageDigest xe \<noteq> []
               then VerifyPlan (xe_registry xe) 1 (xe_fp xe) (xe_version xe) plan (tk_Job task) else Inr ()) (\<lambda>_.
        admit_stage xe task plan)))"

definition rebuild_graph :: "'r exec_env \<Rightarrow> Task \<Rightarrow> JobPlan \<Rightarrow> RDD res" where
  "rebuild_graph xe task plan =
     (case jr_jobs (xe_registry xe) (js_TaskName (tk_Job task)) of
        None \<Rightarrow> Inl (Err ''job %q not registered'')
      | Some factory \<Rightarrow>
          bindR (factory 2 (tk_Job task)) (\<lambda>r.
            case r of
              None \<Rightarrow> Inl (Err ''job factory changed graph during reconstruction'')
            | Some rdd \<Rightarrow>
                let root = reusable_output (tk_Job task) rdd in
                (case PlanRDD (Some root) (tk_Job task) of
                   Inl _ \<Rightarrow> Inl (Err ''job factory changed graph during reconstruction'')
                 | Inr actual \<Rightarrow>
                     if xe_fp xe actual \<noteq> xe_fp xe plan then Inl (Err ''job factory changed graph during reconstruction'')
                     else Inr root)))"

definition job_id :: "Task \<Rightarrow> string" where
  "job_id task = (if tk_JobID task = [] then js_TaskName (tk_Job task) else tk_JobID task)"

section \<open>The work\<close>

definition withCacheUpdates :: "'r exec_env \<Rightarrow> 'r ExecResult \<Rightarrow> 'r ExecResult" where
  "withCacheUpdates xe res =
     res\<lparr>er_Cached := fst (xe_caches xe), er_Dropped := snd (xe_caches xe), er_Accumulators := xe_accumulators xe\<rparr>"

definition empty_result :: "nat \<Rightarrow> StageKind \<Rightarrow> 'r ExecResult" where
  "empty_result i kind = \<lparr>er_PartitionID = i, er_Kind = kind, er_Manifest = None, er_Records = [], er_Output = None,
     er_Cached = [], er_Dropped = [], er_Samples = [], er_Accumulators = []\<rparr>"

text \<open>The map task that writes the shuffle \<open>dep\<close> with the partitioner \<open>p\<close>.\<close>

definition map_work :: "'r exec_env \<Rightarrow> Dependency \<Rightarrow> Partitioner \<Rightarrow> string \<Rightarrow> nat \<Rightarrow> nat \<Rightarrow> nat \<Rightarrow> 'r map_task" where
  "map_work xe dep p job i attempt rb =
     \<lparr>mt_dep = (xe_dep xe dep)\<lparr>sd_partitioner := p\<rparr>, mt_enc = xe_enc xe, mt_recordBytes = rb, mt_memoryBytes = xe_memoryBytes xe,
      mt_maxBytes = xe_maxBytes xe, mt_tmp = xe_pending xe, mt_dir = mapDir (xe_StoreDir xe) job (dep_shuffleID dep) i attempt\<rparr>"

text \<open>\<^verbatim>\<open>os.RemoveAll\<close> of a map output when the task was cancelled after it.\<close>

definition drop_output :: "path \<Rightarrow> filesystem \<Rightarrow> filesystem" where
  "drop_output dir fs = (\<lambda>f. if take (length dir) f = dir then None else fs f)"

definition executeShuffleMap ::
  "'r exec_env \<Rightarrow> RDD \<Rightarrow> Stage \<Rightarrow> Task \<Rightarrow> (Partitioner \<Rightarrow> Partitioner) \<Rightarrow> string \<Rightarrow> install_state
     \<Rightarrow> MapOutputManifest res \<times> install_state" where
  "executeShuffleMap xe root stage task setBounds job st =
     (case findShuffleDep root (st_ShuffleID stage) of
        None \<Rightarrow> (Inl (Err ''shuffle %d not found''), st)
      | Some dep \<Rightarrow>
     case partitionByIndex (rdd_Partitions (Parent dep)) (int (tk_PartitionID task)) of
        None \<Rightarrow> (Inl (Err ''partition not found''), st)
      | Some part \<Rightarrow>
     case dep_partitioner dep of
        None \<Rightarrow> (Inl (Err ''nil pointer dereference''), st)
      | Some p \<Rightarrow>
          let man = in_manager st;
              mt = map_work xe dep (setBounds p) job (tk_PartitionID task) (tk_Attempt task) (fm_recordBytes man)
          in case writeStreamMap mt (in_budget st) (xe_renamed xe) (xe_records xe man (Parent dep) part) job
                    (st_ShuffleID stage) (tk_PartitionID task) (tk_Attempt task) (fm_store man) of
               Inl e \<Rightarrow> (Inl e, st)
             | Inr (manifest, store, budget) \<Rightarrow>
                 (case xe_late xe of
                    Some e \<Rightarrow> (Inl e, st\<lparr>in_manager := man\<lparr>fm_store := drop_output (Location manifest) store\<rparr>, in_budget := budget\<rparr>)
                  | None \<Rightarrow> (Inr manifest, st\<lparr>in_manager := man\<lparr>fm_store := store\<rparr>, in_budget := budget\<rparr>)))"

text \<open>The records of a result partition, none when the partition does not exist.\<close>

definition executeResult :: "'r exec_env \<Rightarrow> RDD \<Rightarrow> Stage \<Rightarrow> Task \<Rightarrow> install_state \<Rightarrow> 'r list res" where
  "executeResult xe root stage task st =
     (if st_Parents stage \<noteq> [] \<and> tk_Upstream task = [] then Inl (Err ''result stage requires upstream map outputs'')
      else case partitionByIndex (rdd_Partitions root) (int (tk_PartitionID task)) of
             None \<Rightarrow> Inr []
           | Some part \<Rightarrow>
               (case xe_records xe (in_manager st) root part of
                  (recs, None) \<Rightarrow> Inr recs
                | (_, Some e) \<Rightarrow> Inl e))"

definition executeSample :: "'r exec_env \<Rightarrow> RDD \<Rightarrow> Stage \<Rightarrow> Task \<Rightarrow> install_state \<Rightarrow> gokey list res" where
  "executeSample xe root stage task st =
     (if st_Kind stage \<noteq> StageShuffleMap then Inl (Err ''sampling requires a shuffle-map stage'')
      else case findShuffleDep root (st_ShuffleID stage) of
        None \<Rightarrow> Inl (Err ''stage %d is not a range sort'')
      | Some dep \<Rightarrow>
          if sortLess dep = None then Inl (Err ''stage %d is not a range sort'')
          else case partitionByIndex (rdd_Partitions (Parent dep)) (int (tk_PartitionID task)) of
            None \<Rightarrow> Inl (Err ''sampling partition %d not found'')
          | Some part \<Rightarrow>
              let input = xe_records xe (in_manager st) (Parent dep) part
              in sampleSortPartition (xe_keyEnc xe) (nat part) (map (ExtractKey (xe_dep xe dep)) (fst input)) (snd input))"

text \<open>The boundaries that a range sort task carries are set before its map output is written.\<close>

definition task_bounds :: "'r exec_env \<Rightarrow> RDD \<Rightarrow> Stage \<Rightarrow> Task \<Rightarrow> (Partitioner \<Rightarrow> Partitioner) res" where
  "task_bounds xe root stage task =
     (case findShuffleDep root (st_ShuffleID stage) of
        None \<Rightarrow> Inr id
      | Some dep \<Rightarrow>
          if range_sorted dep then
            (if tk_RangeBounds task = [] then Inl (Err ''range sort task missing sampled boundaries'')
             else bindR (xe_decodeBounds xe (tk_RangeBounds task)) (\<lambda>bounds. Inr (\<lambda>p. SetRangeBounds p (Some bounds))))
          else Inr id)"


definition save_work ::
  "'r exec_env \<Rightarrow> RDD \<Rightarrow> Stage \<Rightarrow> Task \<Rightarrow> install_state \<Rightarrow> path MemStore \<Rightarrow> PartitionOutput res \<times> path MemStore" where
  "save_work xe root stage task st out =
     writeOutputPartition (xe_println xe) (xe_sha xe) (xe_save xe) out (xe_base xe) (tk_JobID task) (st_ID stage)
       (tk_PartitionID task) (tk_Attempt task)
       (map_option (xe_records xe (in_manager st) root) (partitionByIndex (rdd_Partitions root) (int (tk_PartitionID task))))"

definition tree_work ::
  "'r exec_env \<Rightarrow> ('r recordStream \<Rightarrow> 'r option res) \<Rightarrow> RDD \<Rightarrow> Task \<Rightarrow> install_state \<Rightarrow> 'r list res" where
  "tree_work xe partial root task st =
     (case partitionByIndex (rdd_Partitions root) (int (tk_PartitionID task)) of
        None \<Rightarrow> Inl (Err ''result partition %d not found'')
      | Some part \<Rightarrow>
          bindR (partial (xe_records xe (in_manager st) root part)) (\<lambda>v. Inr (case v of None \<Rightarrow> [] | Some x \<Rightarrow> [x])))"

definition run_result ::
  "'r exec_env \<Rightarrow> RDD \<Rightarrow> Stage \<Rightarrow> Task \<Rightarrow> install_state \<Rightarrow> path MemStore \<Rightarrow> (task_error + 'r ExecResult) \<times> path MemStore" where
  "run_result xe root stage task st out =
     (let res = empty_result (tk_PartitionID task) StageResult
      in if js_Action (tk_Job task) = ActionSave then
           (case save_work xe root stage task st out of
              (Inl e, out') \<Rightarrow> (Inl (failed e), out')
            | (Inr o', out') \<Rightarrow> (Inr (withCacheUpdates xe (res\<lparr>er_Output := Some o'\<rparr>)), out'))
         else
           (case (case xe_tree xe (js_Action (tk_Job task)) of
                    Some partial \<Rightarrow> tree_work xe partial root task st
                  | None \<Rightarrow> executeResult xe root stage task st) of
              Inl e \<Rightarrow> (Inl (failed e), out)
            | Inr recs \<Rightarrow> (Inr (withCacheUpdates xe (res\<lparr>er_Records := recs\<rparr>)), out)))"

definition run_map ::
  "'r exec_env \<Rightarrow> RDD \<Rightarrow> Stage \<Rightarrow> Task \<Rightarrow> install_state \<Rightarrow> (task_error + 'r ExecResult) \<times> install_state" where
  "run_map xe root stage task st =
     (case task_bounds xe root stage task of
        Inl e \<Rightarrow> (Inl (failed e), st)
      | Inr setBounds \<Rightarrow>
          (case executeShuffleMap xe root stage task setBounds (job_id task) st of
             (Inl e, st') \<Rightarrow> (Inl (failed e), st')
           | (Inr man, st') \<Rightarrow>
               (Inr (withCacheUpdates xe ((empty_result (tk_PartitionID task) StageShuffleMap)\<lparr>er_Manifest := Some man\<rparr>)), st')))"

definition run_stage ::
  "'r exec_env \<Rightarrow> RDD \<Rightarrow> Stage \<Rightarrow> Task \<Rightarrow> install_state \<Rightarrow> path MemStore
     \<Rightarrow> (task_error + 'r ExecResult) \<times> install_state \<times> path MemStore" where
  "run_stage xe root stage task st out =
     (if tk_Sample task then
        (case executeSample xe root stage task st of
           Inl e \<Rightarrow> (Inl (failed e), st, out)
         | Inr samples \<Rightarrow>
             (Inr (withCacheUpdates xe ((empty_result (tk_PartitionID task) StageSample)\<lparr>er_Samples := samples\<rparr>)), st, out))
      else case st_Kind stage of
        StageShuffleMap \<Rightarrow> (let (r, st') = run_map xe root stage task st in (r, st', out))
      | StageResult \<Rightarrow> (let (r, out') = run_result xe root stage task st out in (r, st, out'))
      | StageSample \<Rightarrow> (Inl (Failed ''unknown stage kind %q''), st, out))"

definition stage_root :: "RDD \<Rightarrow> Stage \<Rightarrow> RDD res" where
  "stage_root root stage =
     (if st_Kind stage = StageShuffleMap then
        (case findShuffleDep root (st_ShuffleID stage) of
           None \<Rightarrow> Inl (Err ''shuffle %d not found'')
         | Some dep \<Rightarrow> Inr (Parent dep))
      else Inr root)"

text \<open>Everything before the work: the stage, the graph, and the state with the input installed.\<close>

definition prepare_task :: "'r exec_env \<Rightarrow> Task \<Rightarrow> install_state \<Rightarrow> task_error + Stage \<times> RDD \<times> install_state" where
  "prepare_task xe task st =
     bindR (or_fail (admit_task xe task)) (\<lambda>(plan, stage).
     bindR (or_fail (rebuild_graph xe task plan)) (\<lambda>root.
     bindR (or_fail (check_upstream (job_id task) plan (tk_Upstream task) (st_Parents stage))) (\<lambda>_.
     bindR (or_fail (stage_root root stage)) (\<lambda>node.
     bindR (installUpstream (xe_fetch xe) (xe_dec xe) stage (tk_Upstream task)
              (requiredShuffleBuckets node (int (tk_PartitionID task))) (xe_order xe (tk_Upstream task)) st) (\<lambda>st'.
       Inr (stage, root, st'))))))"

definition ExecuteTaskContext ::
  "'r exec_env \<Rightarrow> Task \<Rightarrow> install_state \<Rightarrow> path MemStore \<Rightarrow> (task_error + 'r ExecResult) \<times> install_state \<times> path MemStore" where
  "ExecuteTaskContext xe task st out =
     (case prepare_task xe task st of
        Inl e \<Rightarrow> (Inl e, st, out)
      | Inr (stage, root, st') \<Rightarrow> run_stage xe root stage task st' out)"

section \<open>What a task returns\<close>

lemma or_fail_Inr [simp]: "or_fail r = Inr x \<longleftrightarrow> r = Inr x"
  by (cases r) (auto simp: or_fail_def)

lemma stageByID_found: "stageByID plan i = Some stage \<Longrightarrow> st_ID stage = i \<and> stage \<in> set (jp_Stages plan)"
  by (auto simp: stageByID_def find_Some_iff)

lemma admit_task_stage:
  "admit_task xe task = Inr (plan, stage) \<Longrightarrow> stageByID plan (tk_StageID task) = Some stage \<and> tk_PartitionID task < st_NumPartitions stage"
proof -
  assume "admit_task xe task = Inr (plan, stage)"
  then obtain plan' where "admit_stage xe task plan' = Inr (plan, stage)"
    unfolding admit_task_def bindR_Inr_conv by (auto simp: bindR_Inr_conv split: option.split_asm if_split_asm)
  then show ?thesis by (auto simp: admit_stage_def split: option.split_asm if_split_asm)
qed

lemma rebuild_graph_plan:
  assumes "rebuild_graph xe task plan = Inr root"
  shows "\<exists>actual. PlanRDD (Some root) (tk_Job task) = Inr actual \<and> xe_fp xe actual = xe_fp xe plan"
proof -
  let ?spec = "tk_Job task"
  obtain factory where f: "jr_jobs (xe_registry xe) (js_TaskName ?spec) = Some factory"
    using assms by (cases "jr_jobs (xe_registry xe) (js_TaskName ?spec)") (simp_all add: rebuild_graph_def)
  obtain res where r: "factory 2 ?spec = Inr res"
    using assms f by (cases "factory 2 ?spec") (simp_all add: rebuild_graph_def)
  obtain rdd where "res = Some rdd" using assms f r by (cases res) (simp_all add: rebuild_graph_def)
  then show ?thesis using assms f r
    by (cases "PlanRDD (Some (reusable_output ?spec rdd)) ?spec") (auto simp: rebuild_graph_def Let_def split: if_splits)
qed

lemma prepare_task_Inr:
  assumes "prepare_task xe task st = Inr (stage, root, st')"
  obtains plan node where "admit_task xe task = Inr (plan, stage)" and "rebuild_graph xe task plan = Inr root"
    and "check_upstream (job_id task) plan (tk_Upstream task) (st_Parents stage) = Inr ()" and "stage_root root stage = Inr node"
    and "installUpstream (xe_fetch xe) (xe_dec xe) stage (tk_Upstream task) (requiredShuffleBuckets node (int (tk_PartitionID task)))
      (xe_order xe (tk_Upstream task)) st = Inr st'"
  using assms by (auto simp: prepare_task_def bindR_Inr_conv)

lemma SetRangeBounds_NumPartitions [simp]: "NumPartitions (SetRangeBounds p b) = NumPartitions p"
  by (cases p) simp_all

lemma task_bounds_NumPartitions: "task_bounds xe root stage task = Inr f \<Longrightarrow> NumPartitions (f p) = NumPartitions p"
  by (auto simp: task_bounds_def bindR_Inr_conv split: option.splits if_splits)

lemma writeStreamMap_ids:
  assumes "writeStreamMap mt budget renamed input job sid i attempt store = Inr (m, store', b')"
  shows "JobID m = job \<and> ShuffleID m = sid \<and> MapID m = i \<and> Attempt m = attempt"
  using assms by (auto simp: writeStreamMap_def Let_def bindR_Inr_conv split: if_splits)

lemma writeStreamMap_full:
  assumes "sd_combine (mt_dep mt) [] = []" and "writeStreamMap mt budget renamed input job sid i attempt store = Inr (m, store', b')"
  shows "full_buckets (NumPartitions (sd_partitioner (mt_dep mt))) m"
proof -
  let ?n = "NumPartitions (sd_partitioner (mt_dep mt))"
  obtain xs r where "input = (xs, r)" by (cases input)
  then have run: "writeStreamMap mt budget renamed (xs, r) job sid i attempt store = Inr (m, store', b')" using assms(2) by simp
  have "0 \<le> ?n" using assms(2) by (auto simp: writeStreamMap_def Let_def split: if_splits)
  note spec = writeStreamMap_spec [OF assms(1) run]
  have "ReduceID (Buckets m ! j) = int j" if "j < nat ?n" for j using spec(4) that by fastforce
  then have "map ReduceID (Buckets m) = map int [0..<nat ?n]" using spec(3) by (intro nth_equalityI) simp_all
  then show ?thesis using \<open>0 \<le> ?n\<close> by (simp add: full_buckets_def)
qed

text \<open>A map task returns the manifest of its own attempt, with a bucket for every reducer.\<close>

lemma run_map_Inr:
  assumes "run_map xe root stage task st = (Inr r, st')"
  obtains man where "er_Kind r = StageShuffleMap" and "er_PartitionID r = tk_PartitionID task" and "er_Manifest r = Some man"
    and "JobID man = job_id task" and "ShuffleID man = st_ShuffleID stage" and "MapID man = tk_PartitionID task" and "Attempt man = tk_Attempt task"
    and "(\<forall>d. sd_combine (xe_dep xe d) [] = []) \<longrightarrow> (\<exists>dep p. findShuffleDep root (st_ShuffleID stage) = Some dep \<and>
      dep_partitioner dep = Some p \<and> full_buckets (NumPartitions p) man)"
proof -
  obtain setBounds man where sb: "task_bounds xe root stage task = Inr setBounds"
    and ex: "executeShuffleMap xe root stage task setBounds (job_id task) st = (Inr man, st')"
    and r: "r = withCacheUpdates xe ((empty_result (tk_PartitionID task) StageShuffleMap)\<lparr>er_Manifest := Some man\<rparr>)"
    using assms by (auto simp: run_map_def split: sum.splits prod.splits)
  let ?mt = "\<lambda>dep p. map_work xe dep (setBounds p) (job_id task) (tk_PartitionID task) (tk_Attempt task) (fm_recordBytes (in_manager st))"
  obtain dep part p store budget where d: "findShuffleDep root (st_ShuffleID stage) = Some dep" "dep_partitioner dep = Some p"
    and w: "writeStreamMap (?mt dep p) (in_budget st) (xe_renamed xe) (xe_records xe (in_manager st) (Parent dep) part) (job_id task)
      (st_ShuffleID stage) (tk_PartitionID task) (tk_Attempt task) (fm_store (in_manager st)) = Inr (man, store, budget)"
    using ex by (auto simp: executeShuffleMap_def Let_def split: option.splits sum.splits prod.splits)
  have "full_buckets (NumPartitions p) man" if "\<forall>d. sd_combine (xe_dep xe d) [] = []"
    using writeStreamMap_full [OF _ w] that task_bounds_NumPartitions [OF sb, of p] by (simp add: map_work_def)
  then show thesis using that [of man] writeStreamMap_ids [OF w] d by (simp add: r withCacheUpdates_def empty_result_def)
qed

lemma run_result_Inr:
  assumes "run_result xe root stage task st out = (Inr r, out')"
  shows "er_Kind r = StageResult \<and> er_PartitionID r = tk_PartitionID task \<and>
    (js_Action (tk_Job task) = ActionSave \<longrightarrow> (\<exists>po. er_Output r = Some po \<and> po_JobID po = tk_JobID task \<and> po_StageID po = st_ID stage \<and>
       po_PartitionID po = int (tk_PartitionID task) \<and> po_Attempt po = int (tk_Attempt task)))"
proof (cases "js_Action (tk_Job task) = ActionSave")
  case True
  then obtain po where "save_work xe root stage task st out = (Inr po, out')"
    "r = withCacheUpdates xe ((empty_result (tk_PartitionID task) StageResult)\<lparr>er_Output := Some po\<rparr>)"
    using assms by (auto simp: run_result_def Let_def split: sum.splits prod.splits)
  then show ?thesis
    by (auto simp: save_work_def writeOutputPartition_def Let_def withCacheUpdates_def empty_result_def
        split: option.splits sum.splits prod.splits)
next
  case False
  then show ?thesis using assms
    by (auto simp: run_result_def Let_def withCacheUpdates_def empty_result_def split: sum.splits prod.splits)
qed



section \<open>Properties\<close>

text \<open>
  C26: What a task returns is what the driver accepts: unless it only samples, the result of a task
  with a job identity has the kind of its stage and the partition, job, shuffle and attempt of the
  task, for map output and for a save alike, so \<^verbatim>\<open>validateTaskResult\<close> never refuses it.
\<close>

theorem executed_results_valid:
  assumes "ExecuteTaskContext xe task st out = (Inr r, st', out')" and "\<not> tk_Sample task" and "tk_JobID task \<noteq> []"
  shows "\<exists>plan stage. admit_task xe task = Inr (plan, stage) \<and> validateTaskResult task stage r = None"
proof -
  obtain stage root st1 where prep: "prepare_task xe task st = Inr (stage, root, st1)"
    and run: "run_stage xe root stage task st1 out = (Inr r, st', out')"
    using assms(1) by (auto simp: ExecuteTaskContext_def split: sum.splits)
  obtain plan where plan: "admit_task xe task = Inr (plan, stage)" using prep by (rule prepare_task_Inr)
  have id: "st_ID stage = tk_StageID task" using admit_task_stage [OF plan] stageByID_found by blast
  have job: "job_id task = tk_JobID task" using assms(3) by (simp add: job_id_def)
  have "validateTaskResult task stage r = None"
  proof (cases "st_Kind stage")
    case StageShuffleMap
    then have "run_map xe root stage task st1 = (Inr r, st')" using run assms(2) by (auto simp: run_stage_def split: prod.splits)
    then show ?thesis by (rule run_map_Inr) (use StageShuffleMap job in \<open>simp add: validateTaskResult_def\<close>)
  next
    case StageResult
    then have "run_result xe root stage task st1 out = (Inr r, out')" using run assms(2) by (auto simp: run_stage_def split: prod.splits)
    from run_result_Inr [OF this] show ?thesis using StageResult id by (auto simp: validateTaskResult_def)
  qed (use run assms(2) in \<open>simp add: run_stage_def\<close>)
  then show ?thesis using plan by blast
qed

text \<open>
  C7: The map outputs of a stage pass the check of the stages that read it: when every partition of a
  map stage was executed, on whatever workers and in whatever attempts, the manifests that came back
  are one for every map with one bucket for every reducer, and the executor accepts them as upstream.
\<close>

theorem map_outputs_pass_check:
  fixes xe :: "nat \<Rightarrow> 'r exec_env"
  assumes run: "\<And>i. i < n \<Longrightarrow> \<exists>st st' out out'. ExecuteTaskContext (xe i) (task i) st out = (Inr (r i), st', out')"
    and task: "\<And>i. i < n \<Longrightarrow> tk_PartitionID (task i) = i \<and> job_id (task i) = job \<and> \<not> tk_Sample (task i)"
    and plan: "\<And>i. i < n \<Longrightarrow> admit_task (xe i) (task i) = Inr (plan, stage)"
    and graph: "\<And>i root. i < n \<Longrightarrow> rebuild_graph (xe i) (task i) plan = Inr root \<Longrightarrow> wf_lineage root \<and>
      (\<forall>actual. PlanRDD (Some root) (tk_Job (task i)) = Inr actual \<longrightarrow> xe_fp (xe i) actual = xe_fp (xe i) plan \<longrightarrow> jp_Stages actual = jp_Stages plan)"
    and combine: "\<And>i d. i < n \<Longrightarrow> sd_combine (xe_dep (xe i) d) [] = []"
    and stage: "stageByID plan (st_ID stage) = Some stage" "st_Kind stage = StageShuffleMap" "st_NumPartitions stage = n"
  shows "check_upstream job plan (map (\<lambda>i. the (er_Manifest (r i))) [0..<n]) [st_ID stage] = Inr ()"
proof -
  have one: "\<exists>man. er_Manifest (r i) = Some man \<and> JobID man = job \<and> ShuffleID man = st_ShuffleID stage \<and> MapID man = i \<and>
      full_buckets (st_NumReducers stage) man" if i: "i < n" for i
  proof -
    obtain st st' out out' where ex: "ExecuteTaskContext (xe i) (task i) st out = (Inr (r i), st', out')" using run [OF i] by blast
    obtain stage' root st1 where prep: "prepare_task (xe i) (task i) st = Inr (stage', root, st1)"
      and rs: "run_stage (xe i) root stage' (task i) st1 out = (Inr (r i), st', out')"
      using ex by (auto simp: ExecuteTaskContext_def split: sum.splits)
    obtain plan' where "admit_task (xe i) (task i) = Inr (plan', stage')" and "rebuild_graph (xe i) (task i) plan' = Inr root"
      using prep by (rule prepare_task_Inr)
    then have st': "stage' = stage" and root: "rebuild_graph (xe i) (task i) plan = Inr root" using plan [OF i] by auto
    have "run_map (xe i) root stage (task i) st1 = (Inr (r i), st')"
      using rs stage(2) task [OF i] by (auto simp: st' run_stage_def split: prod.splits)
    then obtain man dep p where man: "er_Manifest (r i) = Some man" "JobID man = job" "ShuffleID man = st_ShuffleID stage" "MapID man = i"
      "findShuffleDep root (st_ShuffleID stage) = Some dep" "dep_partitioner dep = Some p" "full_buckets (NumPartitions p) man"
      by (rule run_map_Inr) (use combine [OF i] task [OF i] in auto)
    obtain actual where actual: "PlanRDD (Some root) (tk_Job (task i)) = Inr actual" "xe_fp (xe i) actual = xe_fp (xe i) plan"
      using rebuild_graph_plan [OF root] by blast
    then have "stage \<in> set (jp_Stages actual)" using graph [OF i root] stageByID_found [OF stage(1)] by simp
    then have "st_NumReducers stage = NumPartitions p"
      using PlanRDD_reducers [OF conjunct1 [OF graph [OF i root]] actual(1) _ stage(2)] man(5,6) by auto
    then show ?thesis using man by simp
  qed
  define ms where "ms = map (\<lambda>i. the (er_Manifest (r i))) [0..<n]"
  have all: "JobID m = job \<and> ShuffleID m = st_ShuffleID stage \<and> full_buckets (st_NumReducers stage) m" if "m \<in> set ms" for m
    using that one by (fastforce simp: ms_def)
  have "mset (map MapID ms) = mset [0..<n]" using one by (intro arg_cong [where f = mset] nth_equalityI) (fastforce simp: ms_def)+
  moreover have "filter (\<lambda>m. ShuffleID m = st_ShuffleID stage) ms = ms" using all by (simp add: filter_id_conv)
  ultimately have "complete_outputs job stage ms" using all stage(3) by (simp add: complete_outputs_def del: mset_map mset_upt)
  then show ?thesis using stage(1) check_upstream_exact [of job plan ms "[st_ID stage]"] by (simp add: ms_def parent_stage_def)
qed



text \<open>
  C6: A task that was prepared can read: for every parent stage and every bucket that the partition
  needs, the shuffle manager streams the records of all maps of the parent, in map order and without
  an error, each from the file of that map's own manifest, verified against its byte and record count.
\<close>

theorem upstream_readable:
  fixes xe :: "'r exec_env"
  assumes prep: "prepare_task xe task st = Inr (stage, root, st')" and plan: "admit_task xe task = Inr (plan, stage)"
    and node: "stage_root root stage = Inr node"
    and scratch: "inj (fx_scratch (xe_fetch xe))"
    and order: "distinct (xe_order xe (tk_Upstream task))" "set (xe_order xe (tk_Upstream task)) = ShuffleID ` set (tk_Upstream task)"
    and parent: "i \<in> set (st_Parents stage)" "parent = parent_stage plan i" "0 \<le> rid" "rid < st_NumReducers parent"
    and needed: "wanted (requiredShuffleBuckets node (int (tk_PartitionID task)) (st_ShuffleID parent)) rid"
  shows "\<exists>vs. fm_stream (xe_dec xe) (in_manager st') (st_ShuffleID parent) (nat rid) (st_NumPartitions parent) =
      Inr (concat (map vs [0..<st_NumPartitions parent]), None) \<and>
    (\<forall>k < st_NumPartitions parent. \<exists>m \<in> set (tk_Upstream task). \<exists>b \<in> set (Buckets m). \<exists>src.
       ShuffleID m = st_ShuffleID parent \<and> MapID m = k \<and> JobID m = job_id task \<and> ReduceID b = rid \<and>
       fx_source (xe_fetch xe) m b = Inr src \<and> int (length src) = Bytes b \<and>
       file_records (xe_dec xe) (fm_recordBytes (in_manager st')) src = Some (vs k) \<and> int (length (vs k)) = Records b)"
proof -
  let ?sid = "st_ShuffleID parent" and ?ups = "tk_Upstream task" and ?mx = "fm_recordBytes (in_manager st')"
  have check: "check_upstream (job_id task) plan ?ups (st_Parents stage) = Inr ()"
    and inst: "installUpstream (xe_fetch xe) (xe_dec xe) stage ?ups (requiredShuffleBuckets node (int (tk_PartitionID task))) (xe_order xe ?ups) st = Inr st'"
    using prepare_task_Inr [OF prep] plan node by (metis Pair_inject sum.inject(2))+
  have complete: "complete_outputs (job_id task) parent ?ups" using check parent(1,2) check_upstream_exact by blast
  have run: "install_shuffles (xe_fetch xe) (xe_dec xe) (requiredShuffleBuckets node (int (tk_PartitionID task))) ?ups (xe_order xe ?ups) st = Inr st'"
    using inst parent(1) by (auto simp: installUpstream_def split: if_splits)
  have "\<exists>vs. fm_block (xe_dec xe) (in_manager st') ?sid k (nat rid) = Some vs \<and> (\<exists>m \<in> set ?ups. \<exists>b \<in> set (Buckets m). \<exists>src.
       ShuffleID m = ?sid \<and> MapID m = k \<and> JobID m = job_id task \<and> ReduceID b = rid \<and> fx_source (xe_fetch xe) m b = Inr src \<and>
       int (length src) = Bytes b \<and> file_records (xe_dec xe) ?mx src = Some vs \<and> int (length vs) = Records b)"
    if k: "k < st_NumPartitions parent" for k
  proof -
    obtain m b where m: "m \<in> set ?ups" "ShuffleID m = ?sid" "MapID m = k" "JobID m = job_id task" "b \<in> set (Buckets m)" "ReduceID b = rid"
      using complete_outputs_bucket [OF complete k parent(3,4)] by blast
    have "?sid \<in> set (xe_order xe ?ups)" using order(2) m(1,2) by (metis imageI)
    then have "installed (xe_fetch xe) (xe_dec xe) st' ?sid m b"
      using install_shuffles_installed [OF scratch run order(1) _ complete_outputs_ok [OF complete] m(1,2,5)] needed m(6) by simp
    from installed_block [OF this] m show ?thesis by (fastforce simp: fetched_def)
  qed
  then obtain vs where vs: "\<And>k. k < st_NumPartitions parent \<Longrightarrow> fm_block (xe_dec xe) (in_manager st') ?sid k (nat rid) = Some (vs k) \<and>
      (\<exists>m \<in> set ?ups. \<exists>b \<in> set (Buckets m). \<exists>src. ShuffleID m = ?sid \<and> MapID m = k \<and> JobID m = job_id task \<and> ReduceID b = rid \<and>
       fx_source (xe_fetch xe) m b = Inr src \<and> int (length src) = Bytes b \<and> file_records (xe_dec xe) ?mx src = Some (vs k) \<and>
       int (length (vs k)) = Records b)"
    by metis
  then have "fm_stream (xe_dec xe) (in_manager st') ?sid (nat rid) (st_NumPartitions parent) = Inr (concat (map vs [0..<st_NumPartitions parent]), None)"
    by (intro fm_stream_blocks) simp
  then show ?thesis using vs by blast
qed


definition tiny_root :: RDD where
  "tiny_root = RDD 1 ''r'' [0] StorageNone
     [Some (ShuffleDependency (RDD 0 ''p'' [0] StorageNone []) (Some (HashPartitioner 1)) 4 None)]"

definition tiny_spec :: JobSpec where
  "tiny_spec = \<lparr>js_TaskName = ''j'', js_CacheIdentity = [], js_Action = [], js_Params = Map.empty, js_Accumulators = [], js_NumPartitions = 1\<rparr>"

definition tiny_map :: Stage where
  "tiny_map = \<lparr>st_ID = 0, st_Kind = StageShuffleMap, st_RDDID = 0, st_RDDName = ''p'', st_NumPartitions = 1, st_ShuffleID = 4,
     st_NumReducers = 1, st_Parents = [], st_CacheHints = [], st_RangeSort = False\<rparr>"

definition tiny_result :: Stage where
  "tiny_result = \<lparr>st_ID = 1, st_Kind = StageResult, st_RDDID = 1, st_RDDName = ''r'', st_NumPartitions = 1, st_ShuffleID = 0,
     st_NumReducers = 0, st_Parents = [0], st_CacheHints = [], st_RangeSort = False\<rparr>"

definition tiny_plan :: JobPlan where
  "tiny_plan = \<lparr>jp_Spec = tiny_spec, jp_Stages = [tiny_map, tiny_result], jp_ResultStageID = 1, jp_sortLess = Map.empty\<rparr>"

lemma PlanRDD_tiny: "PlanRDD (Some tiny_root) tiny_spec = Inr tiny_plan"
  by (simp add: PlanRDD_def parentStages_def tiny_root_def Let_def live_deps_def is_shuffle_def push_narrow_def map_stage_def uniqueInts_def
      findShuffleDep_def containsShareableCache_def shareable_def tiny_plan_def tiny_map_def tiny_result_def)

text \<open>A context with one such job: the records below the shuffle are one byte, above it what the shuffle delivers.\<close>

definition tiny_records :: "fileShuffleManager \<Rightarrow> RDD \<Rightarrow> int \<Rightarrow> byte recordStream" where
  "tiny_records man rdd part =
     (if rdd_ID rdd = 0 then ([7], None) else (case fm_stream byteDecode man 4 (nat part) 1 of Inl e \<Rightarrow> ([], Some e) | Inr s \<Rightarrow> s))"

definition tiny_exec :: "byte exec_env" where
  "tiny_exec = \<lparr>xe_cancelled = None, xe_StoreDir = [''store''],
     xe_registry = \<lparr>jr_jobs = [''j'' \<mapsto> (\<lambda>_ _. Inr (Some tiny_root))], jr_actions = {}\<rparr>,
     xe_version = 1, xe_ImageDigest = [], xe_Fingerprint = [], xe_fp = (\<lambda>_. ''f''),
     xe_fetch = \<lparr>fx_source = (\<lambda>_ _. Inr (bucket_bytes [[7]])), fx_scratch = (\<lambda>k. [''fetch-'' @ format_nat k])\<rparr>,
     xe_order = (\<lambda>ms. remdups (map ShuffleID ms)), xe_enc = byteEncode, xe_dec = byteDecode,
     xe_keyEnc = (\<lambda>_. Inr []), xe_decodeBounds = (\<lambda>_. Inr []),
     xe_dep = (\<lambda>_. \<lparr>sd_partitioner = HashPartitioner 1, sd_key = None, sd_mapSide = False, sd_combine = id\<rparr>),
     xe_records = tiny_records, xe_memoryBytes = 1000, xe_maxBytes = None, xe_pending = [''pending''], xe_renamed = Inr (),
     xe_late = None, xe_tree = Map.empty, xe_println = (\<lambda>b. [b]), xe_sha = (\<lambda>_. []),
     xe_save = \<lparr>io_mkdir = None, io_create = None, io_cancel = (\<lambda>_. None), io_write = (\<lambda>_. None), io_close = None, io_done = None\<rparr>,
     xe_base = None, xe_caches = ([], []), xe_accumulators = []\<rparr>"

definition tiny_task :: "nat \<Rightarrow> MapOutputManifest list \<Rightarrow> Task" where
  "tiny_task stage upstream = \<lparr>tk_JobID = ''run'', tk_Job = tiny_spec, tk_StageID = stage, tk_PartitionID = 0, tk_Attempt = 0,
     tk_Upstream = upstream, tk_Sample = False, tk_RangeBounds = []\<rparr>"

definition tiny_start :: install_state where
  "tiny_start = \<lparr>in_manager = empty_file_manager, in_budget = None, in_files = 0\<rparr>"

lemma tiny_admit:
  "admit_task tiny_exec (tiny_task 0 ms) = Inr (tiny_plan, tiny_map)" "admit_task tiny_exec (tiny_task 1 ms) = Inr (tiny_plan, tiny_result)"
  by (simp_all add: admit_task_def tiny_exec_def PlanJob_def tiny_task_def reusable_output_def
      admit_stage_def stageByID_def tiny_spec_def PlanRDD_tiny [unfolded tiny_spec_def] ProtocolVersion_def)
    (simp_all add: tiny_plan_def tiny_map_def tiny_result_def tiny_spec_def)

lemma tiny_rebuild: "rebuild_graph tiny_exec (tiny_task i ms) tiny_plan = Inr tiny_root"
  using PlanRDD_tiny by (simp add: rebuild_graph_def tiny_exec_def tiny_task_def reusable_output_def tiny_spec_def)


lemma tiny_stage: "stage_root tiny_root tiny_map = Inr (RDD 0 ''p'' [0] StorageNone [])" "stage_root tiny_root tiny_result = Inr tiny_root"
  by (simp_all add: stage_root_def tiny_map_def tiny_result_def findShuffleDep_def tiny_root_def live_deps_def is_shuffle_def)

lemma tiny_map_runs: "\<exists>r st'. ExecuteTaskContext tiny_exec (tiny_task 0 []) tiny_start Map.empty = (Inr r, st', Map.empty)"
proof -
  have "prepare_task tiny_exec (tiny_task 0 []) tiny_start = Inr (tiny_map, tiny_root, tiny_start)"
    by (simp add: prepare_task_def tiny_admit tiny_rebuild tiny_stage or_fail_def)
      (simp add: tiny_map_def tiny_task_def installUpstream_def)
  moreover have "\<exists>r st'. run_map tiny_exec tiny_root tiny_map (tiny_task 0 []) tiny_start = (Inr r, st')"
    by (simp add: run_map_def task_bounds_def executeShuffleMap_def findShuffleDep_def tiny_root_def tiny_map_def live_deps_def is_shuffle_def
        range_sorted_def tiny_task_def tiny_exec_def tiny_records_def map_work_def tiny_start_def empty_file_manager_def writeStreamMap_def
        upt_conv_Cons newBucketWriter_def reserve_opt_def write_record_def reducer_of_def ExtractKey_def byteEncode_def recordLimit_def
        activate_def bw_append_def Let_def flush_batch_def publish_def split_beta)
  ultimately show ?thesis
    by (auto simp: ExecuteTaskContext_def run_stage_def tiny_map_def tiny_task_def)
qed

theorem executed_results_valid_witness:
  "\<exists>r st'. ExecuteTaskContext tiny_exec (tiny_task 0 []) tiny_start Map.empty = (Inr r, st', Map.empty) \<and>
     validateTaskResult (tiny_task 0 []) tiny_map r = None"
proof -
  obtain r st' where run: "ExecuteTaskContext tiny_exec (tiny_task 0 []) tiny_start Map.empty = (Inr r, st', Map.empty)"
    using tiny_map_runs by blast
  from executed_results_valid [OF this] run show ?thesis by (auto simp: tiny_admit) (simp add: tiny_task_def)+
qed

theorem map_outputs_pass_check_witness:
  "\<exists>r st'. ExecuteTaskContext tiny_exec (tiny_task 0 []) tiny_start Map.empty = (Inr r, st', Map.empty) \<and>
     check_upstream ''run'' tiny_plan [the (er_Manifest r)] [0] = Inr ()"
proof -
  obtain r st' where run: "ExecuteTaskContext tiny_exec (tiny_task 0 []) tiny_start Map.empty = (Inr r, st', Map.empty)"
    using tiny_map_runs by blast
  have wf: "wf_lineage tiny_root"
    unfolding wf_lineage_def tiny_root_def all_deps_def by (simp add: all_nodes_RDD live_deps_def is_shuffle_def)
  have same: "PlanRDD (Some tiny_root) (tk_Job (tiny_task 0 [])) = Inr tiny_plan" using PlanRDD_tiny by (simp add: tiny_task_def)
  have "check_upstream ''run'' tiny_plan (map (\<lambda>i. the (er_Manifest r)) [0..<1]) [st_ID tiny_map] = Inr ()"
  proof (rule map_outputs_pass_check [where xe = "\<lambda>_. tiny_exec" and task = "\<lambda>_. tiny_task 0 []" and r = "\<lambda>_. r"])
    show "sd_combine (xe_dep tiny_exec d) [] = []" for d by (simp add: tiny_exec_def)
  qed (use run wf same in \<open>auto simp: tiny_admit tiny_rebuild\<close>,
       simp_all add: tiny_task_def job_id_def tiny_plan_def stageByID_def tiny_map_def)
  then show ?thesis using run by (auto simp: tiny_map_def)
qed

definition tiny_manifest :: MapOutputManifest where
  "tiny_manifest = \<lparr>JobID = ''run'', ShuffleID = 4, MapID = 0, Attempt = 0, Location = [],
     Buckets = [bucket_meta [[7]]]\<rparr>"

lemma tiny_check: "check_upstream ''run'' tiny_plan [tiny_manifest] [0] = Inr ()"
  by (simp add: parent_stage_def stageByID_def tiny_plan_def tiny_map_def tiny_manifest_def bucket_meta_def)


lemma fetch_tiny:
  "fetch_bucket (xe_fetch tiny_exec) byteDecode tiny_manifest (bucket_meta [[7]]) tiny_start =
     Inr ([''fetch-'' @ format_nat 0], \<lparr>in_manager = empty_file_manager\<lparr>fm_store := [[''fetch-'' @ format_nat 0] \<mapsto> bucket_bytes [[7]]]\<rparr>,
       in_budget = None, in_files = 1\<rparr>)"
  using cacheShuffleBucket_genuine [OF byte_codec_ok byte_encoded [of "[7]"], of 16]
  by (simp add: fetch_bucket_def tiny_exec_def tiny_start_def empty_file_manager_def fits_def Let_def)

lemma tiny_prepared: "\<exists>st'. prepare_task tiny_exec (tiny_task 1 [tiny_manifest]) tiny_start = Inr (tiny_result, tiny_root, st')"
proof -
  have want: "wanted (requiredShuffleBuckets tiny_root 0 4) 0"
    by (simp add: wanted_def requiredShuffleBuckets_def tiny_root_def live_deps_def is_shuffle_def want_buckets_def Let_def)
  have "ReduceID (bucket_meta [[7]]) = 0" by (simp add: bucket_meta_def)
  then have "\<exists>st'. install_maps (xe_fetch tiny_exec) byteDecode (requiredShuffleBuckets tiny_root 0 4) 4 [tiny_manifest] tiny_start = Inr st'"
    using want fetch_tiny by (simp add: tiny_manifest_def)
  then have "\<exists>st'. installUpstream (xe_fetch tiny_exec) byteDecode tiny_result [tiny_manifest] (requiredShuffleBuckets tiny_root 0) [4] tiny_start = Inr st'"
    by (auto simp: installUpstream_def tiny_result_def tiny_manifest_def simp del: install_maps.simps)
  moreover have "xe_order tiny_exec [tiny_manifest] = [4]" "xe_dec tiny_exec = byteDecode" by (simp_all add: tiny_exec_def tiny_manifest_def)
  ultimately show ?thesis
    using tiny_check tiny_admit(2) [of "[tiny_manifest]"] tiny_rebuild [of 1 "[tiny_manifest]"] tiny_stage(2)
    by (auto simp: prepare_task_def or_fail_def job_id_def tiny_task_def tiny_result_def simp del: check_upstream.simps)
qed

theorem upstream_readable_witness:
  "\<exists>st' vs. prepare_task tiny_exec (tiny_task 1 [tiny_manifest]) tiny_start = Inr (tiny_result, tiny_root, st') \<and>
     fm_stream byteDecode (in_manager st') 4 0 1 = Inr (vs, None) \<and> length vs = 1"
proof -
  obtain st' where prep: "prepare_task tiny_exec (tiny_task 1 [tiny_manifest]) tiny_start = Inr (tiny_result, tiny_root, st')"
    using tiny_prepared by blast
  have scratch: "inj (fx_scratch (xe_fetch tiny_exec))"
    by (rule injI) (auto simp: tiny_exec_def dest: format_nat_inject)
  have ups: "tk_Upstream (tiny_task 1 [tiny_manifest]) = [tiny_manifest]" "tk_PartitionID (tiny_task 1 [tiny_manifest]) = 0"
    by (simp_all add: tiny_task_def)
  have order: "distinct (xe_order tiny_exec [tiny_manifest])" "set (xe_order tiny_exec [tiny_manifest]) = ShuffleID ` set [tiny_manifest]"
    by (simp_all add: tiny_exec_def)
  have map: "tiny_map = parent_stage tiny_plan 0" "st_ShuffleID tiny_map = 4" "st_NumPartitions tiny_map = 1" "0 < st_NumReducers tiny_map"
    by (simp_all add: parent_stage_def stageByID_def tiny_plan_def tiny_map_def)
  have parent: "0 \<in> set (st_Parents tiny_result)" by (simp add: tiny_result_def)
  have want: "wanted (requiredShuffleBuckets tiny_root (int 0) (st_ShuffleID tiny_map)) 0"
    by (simp add: map(2) wanted_def requiredShuffleBuckets_def tiny_root_def live_deps_def is_shuffle_def want_buckets_def Let_def)
  have dec: "xe_dec tiny_exec = byteDecode" by (simp add: tiny_exec_def)
  obtain vs where vs: "fm_stream byteDecode (in_manager st') 4 (nat 0) 1 = Inr (concat (map vs [0..<1]), None)"
    "\<exists>b \<in> set (Buckets tiny_manifest). int (length (vs 0)) = Records b"
    using upstream_readable [OF prep tiny_admit(2) tiny_stage(2) scratch, unfolded ups, OF order parent map(1) order.refl map(4) want]
    unfolding dec map(2,3) by auto
  from vs(2) have "length (vs 0) = 1" by (simp add: tiny_manifest_def bucket_meta_def)
  then show ?thesis using prep vs(1) by (intro exI [of _ st'] exI [of _ "vs 0"]) (simp add: upt_rec)
qed



end
