(* ===== verification/Spec2Isabelle.thy ===== *)
theory Spec2Isabelle
  imports Iterators Partitioners Keys Disk_Budget Bucket_Files External_Sort Aggregation Shuffle
    Range_Sort Text_Input Lineage Storage Output_Commit Scheduler Recovery Job_Runs RDDs Pair_RDDs Joins
    Caching Checkpoints Local_Stages Local_Sort Executor Task_Execution
begin

text \<open>
  \<^bold>\<open>A verification of goSpark.\<close> goSpark is a batch engine in the style of Spark, written in Go. A
  program builds a graph of RDDs (\<^verbatim>\<open>rdd*.go\<close>, \<^verbatim>\<open>pair_rdd.go\<close>), lazily computed partitioned
  collections. An action runs the graph, either in the process, stage after stage, or on a cluster:
  the planner (\<^verbatim>\<open>planner.go\<close>) cuts the graph at its shuffles into stages, the scheduler
  (\<^verbatim>\<open>scheduler.go\<close>) sends the tasks of a stage to workers, retries and repairs, and the executor
  (\<^verbatim>\<open>executor.go\<close>) computes one partition of a stage. Map tasks write their records into one bucket
  file per reducer (\<^verbatim>\<open>file_shuffle.go\<close>, \<^verbatim>\<open>record_stream.go\<close>), reduce tasks fetch, sort externally
  (\<^verbatim>\<open>external_sort.go\<close>) and group (\<^verbatim>\<open>external_aggregate.go\<close>) them. Input comes from slices and text
  files (\<^verbatim>\<open>rdd_creators.go\<close>), output is committed with a manifest (\<^verbatim>\<open>distributed_output.go\<close>).

  \<^bold>\<open>Theories\<close>, in the order of their dependencies, with the code under \<^verbatim>\<open>src/\<close> that each translates:

  \<^item> \<open>Prelude\<close>: machine integers as words, errors and panics as values, shared lemmas.
  \<^item> \<open>Iterators\<close> (\<^verbatim>\<open>iterator.go\<close>): a pull iterator is the tree of what its calls do; the combinators
    are corecursive, the consuming loops partial functions. \<open>emits\<close> relates an iterator to the list
    it delivers and to how it ends, and every combinator to its list function.
  \<^item> \<open>Partitioners\<close> (\<^verbatim>\<open>partition.go\<close>, \<^verbatim>\<open>partitioner.go\<close>): hash, range and passthrough partitioners; the
    contract that a bucket is in range is the locale of the theory.
  \<^item> \<open>Keys\<close> (\<^verbatim>\<open>keyToken\<close>): the tokens by which grouped data is sorted separate keys of one type.
  \<^item> \<open>Disk_Budget\<close> (\<^verbatim>\<open>shuffle_budget.go\<close>): accounting of scratch files, with its invariant.
  \<^item> \<open>Bucket_Files\<close> (\<^verbatim>\<open>record_stream.go\<close>, \<^verbatim>\<open>shuffle_disk.go\<close>, \<^verbatim>\<open>shuffle_download.go\<close>): the file format byte
    for byte with its CRC-32; round trip, equivalence of the two writers, verification of fetched files.
  \<^item> \<open>External_Sort\<close> (\<^verbatim>\<open>external_sort.go\<close>): runs and merges; the result is the stable sort of the input.
  \<^item> \<open>Aggregation\<close> (\<^verbatim>\<open>external_aggregate.go\<close>, \<^verbatim>\<open>shuffle_combine.go\<close>): grouping and combining by key.
  \<^item> \<open>Shuffle\<close> (\<^verbatim>\<open>file_shuffle.go\<close>, \<^verbatim>\<open>shuffle.go\<close>): the map writer and the two managers, which interpret
    one locale: a reducer reads exactly its records, map after map.
  \<^item> \<open>Range_Sort\<close> (\<^verbatim>\<open>range_sort.go\<close>): samples and boundaries; a range sort is globally ordered.
  \<^item> \<open>Text_Input\<close> (\<^verbatim>\<open>rdd_creators.go\<close>, \<^verbatim>\<open>input_splits.go\<close>): every line of a file is read exactly once.
  \<^item> \<open>Lineage\<close> (\<^verbatim>\<open>dependency.go\<close>, \<^verbatim>\<open>planner.go\<close>, graph walks of \<^verbatim>\<open>executor.go\<close>): the plan, the buckets and the
    cached partitions a task needs, exactly.
  \<^item> \<open>Storage\<close> (\<^verbatim>\<open>memfs.go\<close>, \<^verbatim>\<open>storage.go\<close>) and \<open>Output_Commit\<close> (\<^verbatim>\<open>distributed_output.go\<close>, \<^verbatim>\<open>output_commit.go\<close>,
    \<^verbatim>\<open>save.go\<close>): the object store as a locale, attempts, the verified commit; the first commit wins.
  \<^item> \<open>Scheduler\<close> (\<^verbatim>\<open>scheduler.go\<close>, \<^verbatim>\<open>fetch_error.go\<close>, \<^verbatim>\<open>mergeAccumulators\<close>, \<^verbatim>\<open>tree_actions.go\<close>) holds the
    definitions, \<open>Recovery\<close> the invariant \<open>sched_ok\<close> with the lemma that every operation keeps it, and
    \<open>Job_Runs\<close> what follows for a submitted job: it ends, its results are complete and consistent,
    repair is exact, a healthy cluster finishes.
  \<^item> \<open>RDDs\<close> (\<^verbatim>\<open>rdd.go\<close>, \<^verbatim>\<open>rdd_transformations.go\<close>, \<^verbatim>\<open>rdd_actions.go\<close>, \<^verbatim>\<open>cartesian_rdd.go\<close>): the narrow
    transformations and the actions; \<open>contents\<close> gives the lists that the partitions of an RDD emit.
  \<^item> \<open>Pair_RDDs\<close> and \<open>Joins\<close> (\<^verbatim>\<open>pair_rdd.go\<close>): reductions, groupings and joins behind a shuffle are the
    relational operations on the records.
  \<^item> \<open>Caching\<close> (\<^verbatim>\<open>persist.go\<close>, \<^verbatim>\<open>computePartition\<close> and \<^verbatim>\<open>IsCached\<close> of \<^verbatim>\<open>rdd.go\<close>, the cache notes of \<^verbatim>\<open>context.go\<close>):
    the memory, job and disk caches; they never change what a partition computes.
  \<^item> \<open>Checkpoints\<close> (\<^verbatim>\<open>checkpoint.go\<close>): a checkpoint is read back, a failed one leaves nothing.
  \<^item> \<open>Local_Stages\<close> (\<^verbatim>\<open>computeShuffleStages\<close>) and \<open>Local_Sort\<close>: the map stages that a local action runs before
    it computes its partitions; a local reduction and a local sort, end to end over bucket files.
  \<^item> \<open>Executor\<close> and \<open>Task_Execution\<close> (\<^verbatim>\<open>executor.go\<close>, \<^verbatim>\<open>PlanJob\<close> and \<^verbatim>\<open>VerifyPlan\<close> of \<^verbatim>\<open>planner.go\<close>): the worker's side of
    a task. The manifest check accepts exactly complete map outputs, the map tasks of a stage produce
    them, a prepared task reads its shuffles to the end, and what it returns the driver accepts.

  \<^bold>\<open>State and effects.\<close> A Go struct is a record, a map that is enumerated an association list, an
  error or a panic a value of \<open>goerr\<close>, a machine integer a word where it can wrap. What the code asks
  of the outside is an argument: the outcome of a system call, the answer of a worker at a clock
  tick, the record codec (gob), the hash of an output file, the enumeration order of a Go map, and
  in \<open>Pair_RDDs\<close> what the shuffle hands to a reducer, with \<open>delivered\<close> for what \<open>Shuffle\<close> shows of it.

  \<^bold>\<open>Fuel.\<close> The scheduler's loops take fuel. A retry loop ends within \<open>retry_fuel\<close> steps, which counts
  the attempts and the repairs the configuration allows; the outer loop within
  \<^verbatim>\<open>MaxRecoveries\<close> + 1 rounds, because every round but the last uses up a repair. \<open>job_terminates\<close>
  shows that with this fuel a job ends whatever the workers answer, so no statement holds only
  because fuel ran out. Loops over lists and graphs are structural or have a measure; the loops over
  iterators are partial functions, and the theorems state that they return.

  \<^bold>\<open>Not modelled.\<close> Locks and goroutine interleavings: the code's shared structures are used under a
  lock, and the scheduler's state by its coordinator only. The Kubernetes backend
  (\<^verbatim>\<open>k8s_backend.go\<close>, \<^verbatim>\<open>k8s_schedule.go\<close>), the worker binary, the HTTP handlers of \<^verbatim>\<open>worker.go\<close> and
  \<^verbatim>\<open>shuffle_http.go\<close> and the S3 client are calls into libraries. \<^verbatim>\<open>mllib\<close> is floating-point
  numerics, \<^verbatim>\<open>rdd_pipe.go\<close> runs processes, the examples are programs over the library. Gob encoding
  is an argument (\<open>codec_ok\<close>), as are the job factories and the fingerprint of a plan. Float keys and
  keys of other types count as refused. \<^verbatim>\<open>ForEach\<close> and \<^verbatim>\<open>ForEachPartition\<close> run callbacks concurrently for
  their effects only. \<^verbatim>\<open>RandomSplit\<close> is modelled from its boundaries on, whose computation is floating
  point. \<^verbatim>\<open>pipeline.go\<close> and \<^verbatim>\<open>schedule_cache.go\<close> drive several jobs through the registry and the workers'
  HTTP interface; configuration, broadcast files and the closing of a context are glue.
\<close>

end
